(* ===== verification/Prelude.thy ===== *)
theory Prelude
  imports Main "HOL-Library.AList" "HOL-Library.Word"
begin

text \<open>
  Shared vocabulary of the development.

  \<^item> Hash maps (\<open>std::collections::HashMap\<close> and the persistent \<open>imbl\<close> maps, which the code
    uses through the same get, insert, remove, iter and len interface) are association lists
    with distinct keys. Their iteration order is the order of the list; every theorem holds
    for an arbitrary list, hence for an arbitrary iteration order.
  \<^item> Hash sets are lists without repetition.
  \<^item> \<open>Result<T, E>\<close> is the sum \<open>'e + 'a\<close> with \<open>Inl\<close> for the error, and \<open>rbind\<close> is the
    \<open>?\<close> operator.
  \<^item> \<open>u64\<close> counters are natural numbers; where the code's arithmetic wraps or is checked, the
    definition says so.
\<close>

type_synonym ('k, 'v) hmap = "('k \<times> 'v) list"

type_synonym timestamp = nat

type_synonym symbol = string

named_theorems hm_simps \<open>lookups in hash maps after an update\<close>
named_theorems rbind_simps \<open>the result monad\<close>

abbreviation hm_ok :: "('k, 'v) hmap \<Rightarrow> bool" where
  "hm_ok m \<equiv> distinct (map fst m)"

abbreviation hm_insert :: "'k \<Rightarrow> 'v \<Rightarrow> ('k, 'v) hmap \<Rightarrow> ('k, 'v) hmap" where
  "hm_insert \<equiv> AList.update"

abbreviation hm_remove :: "'k \<Rightarrow> ('k, 'v) hmap \<Rightarrow> ('k, 'v) hmap" where
  "hm_remove \<equiv> AList.delete"

abbreviation hm_keys :: "('k, 'v) hmap \<Rightarrow> 'k list" where
  "hm_keys m \<equiv> map fst m"

subsection \<open>Hash maps\<close>

declare map_of_eq_Some_iff [simp del] Some_eq_map_of_iff [simp del]

lemma map_of_hm_insert [simp, hm_simps]:
  "map_of (hm_insert k v m) = (map_of m)(k \<mapsto> v)"
  by (rule AList.update_conv')

lemma map_of_hm_remove [simp, hm_simps]:
  "map_of (hm_remove k m) = (map_of m)(k := None)"
  by (rule AList.delete_conv')

lemma hm_ok_insert [simp, intro]: "hm_ok m \<Longrightarrow> hm_ok (hm_insert k v m)"
  by (rule AList.distinct_update)

lemma hm_ok_remove [simp, intro]: "hm_ok m \<Longrightarrow> hm_ok (hm_remove k m)"
  by (simp add: AList.distinct_delete)

lemma in_set_hm_iff: "hm_ok m \<Longrightarrow> (k, v) \<in> set m \<longleftrightarrow> map_of m k = Some v"
  by (simp add: map_of_eq_Some_iff)

lemma list_insert_not_Nil [simp]: "List.insert x xs \<noteq> []"
  by (auto simp: List.insert_def)

lemma map_of_None_iff: "map_of m k = None \<longleftrightarrow> k \<notin> set (hm_keys m)"
  by (simp add: map_of_eq_None_iff)

lemma hm_keys_insert_new: "map_of m k = None \<Longrightarrow> hm_keys (hm_insert k v m) = hm_keys m @ [k]"
  by (simp add: AList.update_keys map_of_eq_None_iff)

lemma hm_insert_length_new: "map_of m k = None \<Longrightarrow> length (hm_insert k v m) = Suc (length m)"
  by (metis hm_keys_insert_new length_append_singleton length_map)

lemma option_eqI: "(\<And>x. a = Some x \<longleftrightarrow> b = Some x) \<Longrightarrow> a = b"
  by (cases a; cases b) auto

subsection \<open>Results\<close>

definition rbind :: "'e + 'a \<Rightarrow> ('a \<Rightarrow> 'e + 'b) \<Rightarrow> 'e + 'b" where
  "rbind r f = (case r of Inl e \<Rightarrow> Inl e | Inr x \<Rightarrow> f x)"

lemma rbind_Inl [simp, rbind_simps]: "rbind (Inl e) f = Inl e"
  by (simp add: rbind_def)

lemma rbind_Inr [simp, rbind_simps]: "rbind (Inr x) f = f x"
  by (simp add: rbind_def)

lemma rbind_Inr_iff: "rbind r f = Inr y \<longleftrightarrow> (\<exists>x. r = Inr x \<and> f x = Inr y)"
  by (cases r) auto

lemma rbind_Inl_iff: "rbind r f = Inl e \<longleftrightarrow> r = Inl e \<or> (\<exists>x. r = Inr x \<and> f x = Inl e)"
  by (cases r) auto

lemma rbind_InrE [elim]:
  assumes "rbind r f = Inr y"
  obtains x where "r = Inr x" and "f x = Inr y"
  using assms by (auto simp: rbind_Inr_iff)

subsection \<open>Grouping by key\<close>

text \<open>\<open>map.entry(k).or_default().push(v)\<close>, and the values pushed under a key.\<close>

definition hm_push :: "'k \<Rightarrow> 'v \<Rightarrow> ('k, 'v list) hmap \<Rightarrow> ('k, 'v list) hmap" where
  "hm_push k v m = hm_insert k ((case map_of m k of None \<Rightarrow> [] | Some vs \<Rightarrow> vs) @ [v]) m"

definition hm_group :: "('k, 'v list) hmap \<Rightarrow> 'k \<Rightarrow> 'v set" where
  "hm_group m k = (case map_of m k of None \<Rightarrow> {} | Some vs \<Rightarrow> set vs)"

lemma hm_group_Nil [simp]: "hm_group [] k = {}"
  by (simp add: hm_group_def)

lemma hm_group_Cons: "hm_group ((k, vs) # m) k' = (if k' = k then set vs else hm_group m k')"
  by (simp add: hm_group_def)

lemma hm_group_None: "map_of m k = None \<Longrightarrow> hm_group m k = {}"
  by (simp add: hm_group_def)

lemma hm_group_push [simp]:
  "hm_group (hm_push k v m) k' = (if k' = k then insert v (hm_group m k) else hm_group m k')"
  by (auto simp: hm_group_def hm_push_def split: option.splits)

lemma hm_ok_push [simp, intro]: "hm_ok m \<Longrightarrow> hm_ok (hm_push k v m)"
  by (simp add: hm_push_def)

definition groups_ok :: "('k, 'v list) hmap \<Rightarrow> bool" where
  "groups_ok m \<longleftrightarrow> hm_ok m \<and> (\<forall>k vs. map_of m k = Some vs \<longrightarrow> vs \<noteq> [])"

lemma groups_ok_Nil [simp]: "groups_ok []"
  by (simp add: groups_ok_def)

lemma groups_ok_push [simp, intro]: "groups_ok m \<Longrightarrow> groups_ok (hm_push k v m)"
  by (auto simp: groups_ok_def hm_push_def)

end
