(* ===== verification/Index.thy ===== *)
theory Index
  imports Prelude
begin

text \<open>
  The relation indexes of \<open>crates/db/src/tx/indexes.rs\<close>: the trait \<open>RelationIndex\<close> and its two
  implementations, \<open>HashRelationIndex\<close> (a primary index only) and \<open>SecondaryIndexRelation\<close>
  (which also keeps, for every codomain, the set of domains that map to it). A
  \<open>dyn RelationIndex\<close> is the tagged union \<open>relation_index\<close> of the two. An operation that takes
  \<open>&mut self\<close> returns the new index; one that also returns a value returns a pair. \<open>fork\<close> is a
  clone, hence the identity on values. Equality of codomains is the codomain type's \<open>Eq\<close>.

  The locale \<open>relation_index_laws\<close> is the trait's contract. Both implementations and the dispatching
  operations are shown to satisfy it.
\<close>

section \<open>Data\<close>

record 'c entry =
  ets :: timestamp
  evalue :: 'c

record ('d, 'c) hash_relation_index =
  entries :: "('d, 'c entry) hmap"
  secondary_index :: "('c, 'd list) hmap option"
  idx_fully_loaded :: bool

datatype ('d, 'c) relation_index =
    HashRelationIndex "('d, 'c) hash_relation_index"
  | SecondaryIndexRelation "('d, 'c) hash_relation_index"

type_synonym ('d, 'c) index_insert = "timestamp \<times> 'd \<times> 'c"
type_synonym 'd index_tombstone = "timestamp \<times> 'd"

abbreviation mk_entry :: "timestamp \<Rightarrow> 'c \<Rightarrow> 'c entry" where
  "mk_entry t c \<equiv> \<lparr>ets = t, evalue = c\<rparr>"

abbreviation ins_dom :: "('d, 'c) index_insert \<Rightarrow> 'd" where
  "ins_dom x \<equiv> fst (snd x)"

abbreviation batch_doms :: "('d, 'c) index_insert list \<Rightarrow> 'd index_tombstone list \<Rightarrow> 'd list" where
  "batch_doms xs ts \<equiv> map ins_dom xs @ map snd ts"

section \<open>HashRelationIndex\<close>

definition hri_new :: "('d, 'c) hash_relation_index" where
  "hri_new = \<lparr>entries = [], secondary_index = None, idx_fully_loaded = False\<rparr>"

definition hri_new_with_secondary :: "('d, 'c) hash_relation_index" where
  "hri_new_with_secondary =
     \<lparr>entries = [], secondary_index = Some [], idx_fully_loaded = False\<rparr>"

definition hri_insert_entry ::
  "('d, 'c) hash_relation_index \<Rightarrow> timestamp \<Rightarrow> 'd \<Rightarrow> 'c
     \<Rightarrow> ('d, 'c) hash_relation_index \<times> 'c entry option" where
  "hri_insert_entry i t d c =
     (i\<lparr>entries := hm_insert d (mk_entry t c) (entries i)\<rparr>, map_of (entries i) d)"

definition hri_remove_entry ::
  "('d, 'c) hash_relation_index \<Rightarrow> 'd \<Rightarrow> ('d, 'c) hash_relation_index \<times> 'c entry option" where
  "hri_remove_entry i d = (i\<lparr>entries := hm_remove d (entries i)\<rparr>, map_of (entries i) d)"

definition hri_insert_tombstone ::
  "('d, 'c) hash_relation_index \<Rightarrow> timestamp \<Rightarrow> 'd
     \<Rightarrow> ('d, 'c) hash_relation_index \<times> 'c entry option" where
  "hri_insert_tombstone i _ d = (i\<lparr>entries := hm_remove d (entries i)\<rparr>, map_of (entries i) d)"

definition hri_apply_batch ::
  "('d, 'c) hash_relation_index \<Rightarrow> ('d, 'c) index_insert list \<Rightarrow> 'd index_tombstone list
     \<Rightarrow> ('d, 'c) hash_relation_index" where
  "hri_apply_batch i inserts tombstones =
     foldl (\<lambda>i (t, d). fst (hri_insert_tombstone i t d))
       (foldl (\<lambda>i (t, d, c). fst (hri_insert_entry i t d c)) i inserts) tombstones"

definition hri_get_by_codomain :: "('d, 'c) hash_relation_index \<Rightarrow> 'c \<Rightarrow> 'd list" where
  "hri_get_by_codomain i c = []"

section \<open>SecondaryIndexRelation\<close>

definition remove_from_secondary ::
  "('d, 'c) hash_relation_index \<Rightarrow> 'c \<Rightarrow> 'd \<Rightarrow> ('d, 'c) hash_relation_index" where
  "remove_from_secondary i c d =
     (case secondary_index i of
        None \<Rightarrow> i
      | Some sec \<Rightarrow>
          (case map_of sec c of
             None \<Rightarrow> i
           | Some ds \<Rightarrow>
               let sec' = hm_remove c sec; ds' = removeAll d ds
               in i\<lparr>secondary_index := Some (if ds' \<noteq> [] then hm_insert c ds' sec' else sec')\<rparr>))"

definition add_to_secondary_owned ::
  "('d, 'c) hash_relation_index \<Rightarrow> 'c \<Rightarrow> 'd \<Rightarrow> ('d, 'c) hash_relation_index" where
  "add_to_secondary_owned i c d =
     (case secondary_index i of
        None \<Rightarrow> i
      | Some sec \<Rightarrow>
          i\<lparr>secondary_index :=
              Some (hm_insert c (List.insert d (case map_of sec c of None \<Rightarrow> [] | Some ds \<Rightarrow> ds)) sec)\<rparr>)"

definition sir_insert_entry ::
  "('d, 'c) hash_relation_index \<Rightarrow> timestamp \<Rightarrow> 'd \<Rightarrow> 'c
     \<Rightarrow> ('d, 'c) hash_relation_index \<times> 'c entry option" where
  "sir_insert_entry i t d c =
     (let (i1, result) = hri_insert_entry i t d c;
          i2 = (case result of None \<Rightarrow> i1 | Some old \<Rightarrow> remove_from_secondary i1 (evalue old) d)
      in (add_to_secondary_owned i2 c d, result))"

definition sir_insert_tombstone ::
  "('d, 'c) hash_relation_index \<Rightarrow> timestamp \<Rightarrow> 'd
     \<Rightarrow> ('d, 'c) hash_relation_index \<times> 'c entry option" where
  "sir_insert_tombstone i t d =
     (let (i1, result) = hri_insert_tombstone i t d
      in (case result of None \<Rightarrow> i1 | Some old \<Rightarrow> remove_from_secondary i1 (evalue old) d, result))"

definition sir_remove_entry ::
  "('d, 'c) hash_relation_index \<Rightarrow> 'd \<Rightarrow> ('d, 'c) hash_relation_index \<times> 'c entry option" where
  "sir_remove_entry i d =
     (let old_entry = map_of (entries i) d; i1 = i\<lparr>entries := hm_remove d (entries i)\<rparr>
      in (case old_entry of None \<Rightarrow> i1 | Some old \<Rightarrow> remove_from_secondary i1 (evalue old) d,
          old_entry))"

text \<open>
  \<open>apply_batch\<close> of the secondary index: the first two loops update the primary index and
  collect, per codomain, the domains to remove and to add; the last two change the secondary
  index once per codomain.
\<close>

fun sir_batch_inserts ::
  "('d, 'c) index_insert list
     \<Rightarrow> ('d, 'c) hash_relation_index \<times> ('c, 'd list) hmap \<times> ('c, 'd list) hmap
     \<Rightarrow> ('d, 'c) hash_relation_index \<times> ('c, 'd list) hmap \<times> ('c, 'd list) hmap" where
  "sir_batch_inserts [] st = st"
| "sir_batch_inserts ((t, d, c) # xs) (i, removals, additions) =
     (let (i', old) = hri_insert_entry i t d c;
          (removals', changed_codomain) =
            (case old of
               Some e \<Rightarrow> if evalue e \<noteq> c then (hm_push (evalue e) d removals, True)
                         else (removals, False)
             | None \<Rightarrow> (removals, True));
          additions' = (if changed_codomain then hm_push c d additions else additions)
      in sir_batch_inserts xs (i', removals', additions'))"

fun sir_batch_tombstones ::
  "'d index_tombstone list
     \<Rightarrow> ('d, 'c) hash_relation_index \<times> ('c, 'd list) hmap
     \<Rightarrow> ('d, 'c) hash_relation_index \<times> ('c, 'd list) hmap" where
  "sir_batch_tombstones [] st = st"
| "sir_batch_tombstones ((t, d) # ts) (i, removals) =
     (let (i', result) = hri_insert_tombstone i t d;
          removals' = (case result of None \<Rightarrow> removals | Some old \<Rightarrow> hm_push (evalue old) d removals)
      in sir_batch_tombstones ts (i', removals'))"

fun sec_apply_removals ::
  "('c, 'd list) hmap \<Rightarrow> ('c, 'd list) hmap \<Rightarrow> ('c, 'd list) hmap" where
  "sec_apply_removals [] sec = sec"
| "sec_apply_removals ((c, ds) # rs) sec =
     sec_apply_removals rs
       (case map_of sec c of
          None \<Rightarrow> sec
        | Some s \<Rightarrow>
            let sec' = hm_remove c sec; s' = foldl (\<lambda>s d. removeAll d s) s ds
            in if s' \<noteq> [] then hm_insert c s' sec' else sec')"

fun sec_apply_additions ::
  "('c, 'd list) hmap \<Rightarrow> ('c, 'd list) hmap \<Rightarrow> ('c, 'd list) hmap" where
  "sec_apply_additions [] sec = sec"
| "sec_apply_additions ((c, ds) # as) sec =
     sec_apply_additions as
       (let s = (case map_of sec c of None \<Rightarrow> [] | Some s \<Rightarrow> s)
        in hm_insert c (foldl (\<lambda>s d. List.insert d s) s ds) (hm_remove c sec))"

definition sir_apply_batch ::
  "('d, 'c) hash_relation_index \<Rightarrow> ('d, 'c) index_insert list \<Rightarrow> 'd index_tombstone list
     \<Rightarrow> ('d, 'c) hash_relation_index" where
  "sir_apply_batch i inserts tombstones =
     (let (i1, removals1, additions) = sir_batch_inserts inserts (i, [], []);
          (i2, removals) = sir_batch_tombstones tombstones (i1, removals1)
      in case secondary_index i2 of
           None \<Rightarrow> i2
         | Some sec \<Rightarrow>
             i2\<lparr>secondary_index := Some (sec_apply_additions additions (sec_apply_removals removals sec))\<rparr>)"

definition sir_get_by_codomain :: "('d, 'c) hash_relation_index \<Rightarrow> 'c \<Rightarrow> 'd list" where
  "sir_get_by_codomain i c =
     (case secondary_index i of
        None \<Rightarrow> []
      | Some sec \<Rightarrow> (case map_of sec c of None \<Rightarrow> [] | Some ds \<Rightarrow> ds))"

section \<open>The trait object\<close>

text \<open>The trait's default \<open>apply_batch\<close>: one entry after the other.\<close>

definition default_apply_batch ::
  "('i \<Rightarrow> timestamp \<Rightarrow> 'd \<Rightarrow> 'c \<Rightarrow> 'i \<times> 'c entry option)
     \<Rightarrow> ('i \<Rightarrow> timestamp \<Rightarrow> 'd \<Rightarrow> 'i \<times> 'c entry option)
     \<Rightarrow> 'i \<Rightarrow> ('d, 'c) index_insert list \<Rightarrow> 'd index_tombstone list \<Rightarrow> 'i" where
  "default_apply_batch insert_entry insert_tombstone i inserts tombstones =
     foldl (\<lambda>i (t, d). fst (insert_tombstone i t d))
       (foldl (\<lambda>i (t, d, c). fst (insert_entry i t d c)) i inserts) tombstones"

fun raw_index :: "('d, 'c) relation_index \<Rightarrow> ('d, 'c) hash_relation_index" where
  "raw_index (HashRelationIndex i) = i"
| "raw_index (SecondaryIndexRelation i) = i"

fun idx_insert_entry ::
  "('d, 'c) relation_index \<Rightarrow> timestamp \<Rightarrow> 'd \<Rightarrow> 'c
     \<Rightarrow> ('d, 'c) relation_index \<times> 'c entry option" where
  "idx_insert_entry (HashRelationIndex i) t d c =
     (let (i', old) = hri_insert_entry i t d c in (HashRelationIndex i', old))"
| "idx_insert_entry (SecondaryIndexRelation i) t d c =
     (let (i', old) = sir_insert_entry i t d c in (SecondaryIndexRelation i', old))"

fun idx_insert_tombstone ::
  "('d, 'c) relation_index \<Rightarrow> timestamp \<Rightarrow> 'd \<Rightarrow> ('d, 'c) relation_index \<times> 'c entry option" where
  "idx_insert_tombstone (HashRelationIndex i) t d =
     (let (i', old) = hri_insert_tombstone i t d in (HashRelationIndex i', old))"
| "idx_insert_tombstone (SecondaryIndexRelation i) t d =
     (let (i', old) = sir_insert_tombstone i t d in (SecondaryIndexRelation i', old))"

fun idx_remove_entry ::
  "('d, 'c) relation_index \<Rightarrow> 'd \<Rightarrow> ('d, 'c) relation_index \<times> 'c entry option" where
  "idx_remove_entry (HashRelationIndex i) d =
     (let (i', old) = hri_remove_entry i d in (HashRelationIndex i', old))"
| "idx_remove_entry (SecondaryIndexRelation i) d =
     (let (i', old) = sir_remove_entry i d in (SecondaryIndexRelation i', old))"

fun idx_apply_batch ::
  "('d, 'c) relation_index \<Rightarrow> ('d, 'c) index_insert list \<Rightarrow> 'd index_tombstone list
     \<Rightarrow> ('d, 'c) relation_index" where
  "idx_apply_batch (HashRelationIndex i) xs ts = HashRelationIndex (hri_apply_batch i xs ts)"
| "idx_apply_batch (SecondaryIndexRelation i) xs ts =
     SecondaryIndexRelation (sir_apply_batch i xs ts)"

fun idx_get_by_codomain :: "('d, 'c) relation_index \<Rightarrow> 'c \<Rightarrow> 'd list" where
  "idx_get_by_codomain (HashRelationIndex i) c = hri_get_by_codomain i c"
| "idx_get_by_codomain (SecondaryIndexRelation i) c = sir_get_by_codomain i c"

text \<open>The domains \<open>for_each_by_codomain\<close> visits, in order.\<close>

definition idx_for_each_by_codomain :: "('d, 'c) relation_index \<Rightarrow> 'c \<Rightarrow> 'd list" where
  "idx_for_each_by_codomain i c = idx_get_by_codomain i c"

definition idx_lookup :: "('d, 'c) relation_index \<Rightarrow> 'd \<Rightarrow> 'c entry option" where
  "idx_lookup i d = map_of (entries (raw_index i)) d"

definition idx_iter :: "('d, 'c) relation_index \<Rightarrow> ('d \<times> 'c entry) list" where
  "idx_iter i = entries (raw_index i)"

definition idx_len :: "('d, 'c) relation_index \<Rightarrow> nat" where
  "idx_len i = length (entries (raw_index i))"

fun idx_has_secondary_index :: "('d, 'c) relation_index \<Rightarrow> bool" where
  "idx_has_secondary_index (HashRelationIndex i) = (secondary_index i \<noteq> None)"
| "idx_has_secondary_index (SecondaryIndexRelation i) = True"

definition idx_is_provider_fully_loaded :: "('d, 'c) relation_index \<Rightarrow> bool" where
  "idx_is_provider_fully_loaded i = idx_fully_loaded (raw_index i)"

fun idx_set_provider_fully_loaded ::
  "('d, 'c) relation_index \<Rightarrow> bool \<Rightarrow> ('d, 'c) relation_index" where
  "idx_set_provider_fully_loaded (HashRelationIndex i) b =
     HashRelationIndex (i\<lparr>idx_fully_loaded := b\<rparr>)"
| "idx_set_provider_fully_loaded (SecondaryIndexRelation i) b =
     SecondaryIndexRelation (i\<lparr>idx_fully_loaded := b\<rparr>)"

section \<open>Specification and invariant\<close>

text \<open>What a batch does to the map a primary index stands for.\<close>

fun spec_inserts ::
  "('d \<rightharpoonup> 'c entry) \<Rightarrow> ('d, 'c) index_insert list \<Rightarrow> ('d \<rightharpoonup> 'c entry)" where
  "spec_inserts m [] = m"
| "spec_inserts m ((t, d, c) # xs) = spec_inserts (m(d \<mapsto> mk_entry t c)) xs"

fun spec_tombstones :: "('d \<rightharpoonup> 'c entry) \<Rightarrow> 'd index_tombstone list \<Rightarrow> ('d \<rightharpoonup> 'c entry)" where
  "spec_tombstones m [] = m"
| "spec_tombstones m ((t, d) # ts) = spec_tombstones (m(d := None)) ts"

text \<open>The domains that map to a codomain.\<close>

definition preimage :: "('d \<rightharpoonup> 'c entry) \<Rightarrow> 'c \<Rightarrow> 'd set" where
  "preimage m c = {d. \<exists>e. m d = Some e \<and> evalue e = c}"

definition hri_ok :: "('d, 'c) hash_relation_index \<Rightarrow> bool" where
  "hri_ok i \<longleftrightarrow> hm_ok (entries i)"

text \<open>
  The secondary index holds exactly the non-empty preimages, each without repetition.
\<close>

definition sec_wf :: "('c, 'd list) hmap \<Rightarrow> bool" where
  "sec_wf sec \<longleftrightarrow> hm_ok sec \<and> (\<forall>c ds. map_of sec c = Some ds \<longrightarrow> ds \<noteq> [] \<and> distinct ds)"

definition sec_ok :: "('d \<rightharpoonup> 'c entry) \<Rightarrow> ('c, 'd list) hmap \<Rightarrow> bool" where
  "sec_ok m sec \<longleftrightarrow> sec_wf sec \<and> (\<forall>c. hm_group sec c = preimage m c)"

definition sir_ok :: "('d, 'c) hash_relation_index \<Rightarrow> bool" where
  "sir_ok i \<longleftrightarrow> hm_ok (entries i)
     \<and> (\<exists>sec. secondary_index i = Some sec \<and> sec_ok (map_of (entries i)) sec)"

fun idx_ok :: "('d, 'c) relation_index \<Rightarrow> bool" where
  "idx_ok (HashRelationIndex i) = hri_ok i"
| "idx_ok (SecondaryIndexRelation i) = sir_ok i"

fun idx_is_secondary :: "('d, 'c) relation_index \<Rightarrow> bool" where
  "idx_is_secondary (HashRelationIndex i) = False"
| "idx_is_secondary (SecondaryIndexRelation i) = True"

section \<open>The trait's contract\<close>

locale relation_index_laws =
  fixes insert_entry :: "'i \<Rightarrow> timestamp \<Rightarrow> 'd \<Rightarrow> 'c \<Rightarrow> 'i \<times> 'c entry option"
    and insert_tombstone :: "'i \<Rightarrow> timestamp \<Rightarrow> 'd \<Rightarrow> 'i \<times> 'c entry option"
    and apply_batch :: "'i \<Rightarrow> ('d, 'c) index_insert list \<Rightarrow> 'd index_tombstone list \<Rightarrow> 'i"
    and lookup :: "'i \<Rightarrow> 'd \<Rightarrow> 'c entry option"
    and loaded :: "'i \<Rightarrow> bool"
    and invar :: "'i \<Rightarrow> bool"
  assumes insert_entry_old: "snd (insert_entry i t d c) = lookup i d"
    and insert_entry_lookup: "lookup (fst (insert_entry i t d c)) = (lookup i)(d \<mapsto> mk_entry t c)"
    and insert_entry_invar: "invar i \<Longrightarrow> invar (fst (insert_entry i t d c))"
    and insert_entry_loaded: "loaded (fst (insert_entry i t d c)) = loaded i"
    and insert_tombstone_old: "snd (insert_tombstone i t d) = lookup i d"
    and insert_tombstone_lookup: "lookup (fst (insert_tombstone i t d)) = (lookup i)(d := None)"
    and insert_tombstone_invar: "invar i \<Longrightarrow> invar (fst (insert_tombstone i t d))"
    and insert_tombstone_loaded: "loaded (fst (insert_tombstone i t d)) = loaded i"
    and apply_batch_lookup:
      "lookup (apply_batch i xs ts) = spec_tombstones (spec_inserts (lookup i) xs) ts"
    and apply_batch_invar:
      "invar i \<Longrightarrow> distinct (batch_doms xs ts) \<Longrightarrow> invar (apply_batch i xs ts)"
    and apply_batch_loaded: "loaded (apply_batch i xs ts) = loaded i"
begin

lemma foldl_insert_entry:
  "lookup (foldl (\<lambda>i (t, d, c). fst (insert_entry i t d c)) i xs) = spec_inserts (lookup i) xs"
  by (induction xs arbitrary: i) (auto simp: insert_entry_lookup)

lemma foldl_insert_tombstone:
  "lookup (foldl (\<lambda>i (t, d). fst (insert_tombstone i t d)) i ts) = spec_tombstones (lookup i) ts"
  by (induction ts arbitrary: i) (auto simp: insert_tombstone_lookup)

lemma foldl_insert_entry_invar:
  "invar i \<Longrightarrow> invar (foldl (\<lambda>i (t, d, c). fst (insert_entry i t d c)) i xs)"
  by (induction xs arbitrary: i) (auto simp: insert_entry_invar)

lemma foldl_insert_tombstone_invar:
  "invar i \<Longrightarrow> invar (foldl (\<lambda>i (t, d). fst (insert_tombstone i t d)) i ts)"
  by (induction ts arbitrary: i) (auto simp: insert_tombstone_invar)

text \<open>The overriding \<open>apply_batch\<close> stores what the default one stores.\<close>

lemma apply_batch_default_lookup:
  "lookup (apply_batch i xs ts) =
     lookup (default_apply_batch insert_entry insert_tombstone i xs ts)"
  by (simp add: default_apply_batch_def apply_batch_lookup foldl_insert_entry
      foldl_insert_tombstone)

lemma default_apply_batch_invar:
  "invar i \<Longrightarrow> invar (default_apply_batch insert_entry insert_tombstone i xs ts)"
  by (simp add: default_apply_batch_def foldl_insert_entry_invar foldl_insert_tombstone_invar)

end

section \<open>Primary index\<close>

lemma spec_inserts_other: "d \<notin> ins_dom ` set xs \<Longrightarrow> spec_inserts m xs d = m d"
  by (induction xs arbitrary: m) auto

lemma spec_tombstones_eq: "spec_tombstones m ts d = (if d \<in> snd ` set ts then None else m d)"
proof (induction ts arbitrary: m)
  case (Cons x ts)
  obtain t d' where "x = (t, d')" by (cases x)
  then show ?case by (simp add: Cons.IH)
qed simp

lemma spec_inserts_in:
  "distinct (map ins_dom xs) \<Longrightarrow> (t, d, c) \<in> set xs \<Longrightarrow> spec_inserts m xs d = Some (mk_entry t c)"
proof (induction xs arbitrary: m)
  case (Cons x xs)
  obtain t' d' c' where x: "x = (t', d', c')" by (cases x)
  show ?case
  proof (cases "d = d'")
    case True
    with Cons.prems x have "(t, c) = (t', c')" and "d \<notin> ins_dom ` set xs"
      by (auto simp: image_iff)
    then show ?thesis using True x by (simp add: spec_inserts_other)
  next
    case False
    with Cons.prems x have "distinct (map ins_dom xs)" and "(t, d, c) \<in> set xs" by simp_all
    then show ?thesis using Cons.IH x by simp
  qed
qed simp

lemma hri_insert_simps [simp]:
  "entries (fst (hri_insert_entry i t d c)) = hm_insert d (mk_entry t c) (entries i)"
  "secondary_index (fst (hri_insert_entry i t d c)) = secondary_index i"
  "idx_fully_loaded (fst (hri_insert_entry i t d c)) = idx_fully_loaded i"
  "snd (hri_insert_entry i t d c) = map_of (entries i) d"
  by (simp_all add: hri_insert_entry_def)

lemma hri_tombstone_simps [simp]:
  "entries (fst (hri_insert_tombstone i t d)) = hm_remove d (entries i)"
  "secondary_index (fst (hri_insert_tombstone i t d)) = secondary_index i"
  "idx_fully_loaded (fst (hri_insert_tombstone i t d)) = idx_fully_loaded i"
  "snd (hri_insert_tombstone i t d) = map_of (entries i) d"
  by (simp_all add: hri_insert_tombstone_def)

lemma hri_foldl_inserts:
  "map_of (entries (foldl (\<lambda>i (t, d, c). fst (hri_insert_entry i t d c)) i xs)) =
     spec_inserts (map_of (entries i)) xs"
  by (induction "map_of (entries i)" xs arbitrary: i rule: spec_inserts.induct) simp_all

lemma hri_foldl_inserts_ok:
  "hm_ok (entries i) \<Longrightarrow>
     hm_ok (entries (foldl (\<lambda>i (t, d, c). fst (hri_insert_entry i t d c)) i xs))"
  by (induction "map_of (entries i)" xs arbitrary: i rule: spec_inserts.induct) simp_all

lemma hri_foldl_inserts_frame:
  "idx_fully_loaded (foldl (\<lambda>i (t, d, c). fst (hri_insert_entry i t d c)) i xs) =
     idx_fully_loaded i"
  by (induction "map_of (entries i)" xs arbitrary: i rule: spec_inserts.induct) simp_all

lemma hri_foldl_tombstones:
  "map_of (entries (foldl (\<lambda>i (t, d). fst (hri_insert_tombstone i t d)) i ts)) =
     spec_tombstones (map_of (entries i)) ts"
  by (induction "map_of (entries i)" ts arbitrary: i rule: spec_tombstones.induct) simp_all

lemma hri_foldl_tombstones_ok:
  "hm_ok (entries i) \<Longrightarrow>
     hm_ok (entries (foldl (\<lambda>i (t, d). fst (hri_insert_tombstone i t d)) i ts))"
  by (induction "map_of (entries i)" ts arbitrary: i rule: spec_tombstones.induct) simp_all

lemma hri_foldl_tombstones_frame:
  "idx_fully_loaded (foldl (\<lambda>i (t, d). fst (hri_insert_tombstone i t d)) i ts) =
     idx_fully_loaded i"
  by (induction "map_of (entries i)" ts arbitrary: i rule: spec_tombstones.induct) simp_all

lemmas hri_foldl = hri_foldl_inserts hri_foldl_inserts_ok hri_foldl_inserts_frame
  hri_foldl_tombstones hri_foldl_tombstones_ok hri_foldl_tombstones_frame

interpretation hri: relation_index_laws hri_insert_entry hri_insert_tombstone hri_apply_batch
  "\<lambda>i. map_of (entries i)" idx_fully_loaded hri_ok
  by unfold_locales
    (simp_all add: hri_ok_def hri_apply_batch_def hri_foldl)

section \<open>Secondary index\<close>

lemma preimage_upd:
  "preimage (m(d \<mapsto> mk_entry t c)) c' =
     (if c' = c then insert d (preimage m c) else preimage m c' - {d})"
  by (auto simp: preimage_def)

lemma preimage_del: "preimage (m(d := None)) c' = preimage m c' - {d}"
  by (auto simp: preimage_def)

lemma preimage_iff: "d \<in> preimage m c \<longleftrightarrow> (\<exists>e. m d = Some e \<and> evalue e = c)"
  by (simp add: preimage_def)

lemma secondary_frames [simp]:
  "entries (remove_from_secondary i c d) = entries i"
  "idx_fully_loaded (remove_from_secondary i c d) = idx_fully_loaded i"
  "entries (add_to_secondary_owned i c d) = entries i"
  "idx_fully_loaded (add_to_secondary_owned i c d) = idx_fully_loaded i"
  by (simp_all add: remove_from_secondary_def add_to_secondary_owned_def Let_def
      split: option.splits)

lemma remove_from_secondary_Some:
  assumes "secondary_index i = Some sec" and "sec_wf sec"
  obtains sec' where "secondary_index (remove_from_secondary i c d) = Some sec'" and "sec_wf sec'"
    and "\<And>c'. hm_group sec' c' = hm_group sec c' - (if c' = c then {d} else {})"
proof (cases "map_of sec c")
  case None
  with assms that show ?thesis
    by (auto simp: remove_from_secondary_def hm_group_def)
next
  case (Some ds)
  let ?ds' = "removeAll d ds"
  let ?sec' = "if ?ds' \<noteq> [] then hm_insert c ?ds' (hm_remove c sec) else hm_remove c sec"
  have empty: "?ds' = [] \<Longrightarrow> set ds - {d} = {}"
    by (metis set_empty2 set_removeAll)
  have "secondary_index (remove_from_secondary i c d) = Some ?sec'"
    using assms(1) Some by (simp add: remove_from_secondary_def Let_def)
  moreover have "sec_wf ?sec'"
    using assms(2) Some by (auto simp: sec_wf_def distinct_removeAll)
  moreover have "hm_group ?sec' c' = hm_group sec c' - (if c' = c then {d} else {})" for c'
    using Some empty by (auto simp: hm_group_def)
  ultimately show ?thesis by (rule that)
qed

lemma add_to_secondary_Some:
  assumes "secondary_index i = Some sec" and "sec_wf sec"
  obtains sec' where "secondary_index (add_to_secondary_owned i c d) = Some sec'" and "sec_wf sec'"
    and "\<And>c'. hm_group sec' c' = hm_group sec c' \<union> (if c' = c then {d} else {})"
proof -
  let ?ds = "List.insert d (case map_of sec c of None \<Rightarrow> [] | Some ds \<Rightarrow> ds)"
  have "secondary_index (add_to_secondary_owned i c d) = Some (hm_insert c ?ds sec)"
    using assms(1) by (simp add: add_to_secondary_owned_def)
  moreover have "sec_wf (hm_insert c ?ds sec)"
    using assms(2) by (auto simp: sec_wf_def split: option.splits)
  moreover have "hm_group (hm_insert c ?ds sec) c' = hm_group sec c' \<union> (if c' = c then {d} else {})"
    for c'
    by (auto simp: hm_group_def split: option.splits)
  ultimately show ?thesis by (rule that)
qed

lemma sir_insert_entry_simps [simp]:
  "entries (fst (sir_insert_entry i t d c)) = hm_insert d (mk_entry t c) (entries i)"
  "idx_fully_loaded (fst (sir_insert_entry i t d c)) = idx_fully_loaded i"
  "snd (sir_insert_entry i t d c) = map_of (entries i) d"
  by (simp_all add: sir_insert_entry_def hri_insert_entry_def Let_def split: option.splits)

lemma sir_insert_tombstone_simps [simp]:
  "entries (fst (sir_insert_tombstone i t d)) = hm_remove d (entries i)"
  "idx_fully_loaded (fst (sir_insert_tombstone i t d)) = idx_fully_loaded i"
  "snd (sir_insert_tombstone i t d) = map_of (entries i) d"
  by (simp_all add: sir_insert_tombstone_def hri_insert_tombstone_def Let_def split: option.splits)

text \<open>Dropping a domain's old value from the secondary index, if it had one.\<close>

lemma sec_drop_old:
  assumes "secondary_index i = Some sec" and "sec_wf sec"
  obtains sec' where
    "secondary_index (case old of None \<Rightarrow> i | Some e \<Rightarrow> remove_from_secondary i (evalue e) d) = Some sec'"
    and "sec_wf sec'"
    and "\<And>c'. hm_group sec' c' =
      hm_group sec c' - (if \<exists>e. old = Some e \<and> evalue e = c' then {d} else {})"
proof (cases old)
  case None
  with assms that show ?thesis by simp
next
  case (Some e)
  from remove_from_secondary_Some [OF assms, of "evalue e" d] obtain sec' where
    "secondary_index (remove_from_secondary i (evalue e) d) = Some sec'" "sec_wf sec'"
    "\<And>c'. hm_group sec' c' = hm_group sec c' - (if c' = evalue e then {d} else {})"
    by blast
  with Some that show ?thesis by auto
qed

lemma sir_ok_insert_entry:
  assumes "sir_ok i"
  shows "sir_ok (fst (sir_insert_entry i t d c))"
proof -
  let ?i1 = "fst (hri_insert_entry i t d c)" and ?old = "map_of (entries i) d"
  let ?i2 = "case ?old of None \<Rightarrow> ?i1 | Some e \<Rightarrow> remove_from_secondary ?i1 (evalue e) d"
  from assms obtain sec where ok: "hm_ok (entries i)" and sec: "secondary_index i = Some sec"
    and wf: "sec_wf sec" and grp: "\<And>c. hm_group sec c = preimage (map_of (entries i)) c"
    by (auto simp: sir_ok_def sec_ok_def)
  from sec have "secondary_index ?i1 = Some sec" by simp
  from sec_drop_old [OF this wf, where old = ?old and d = d] obtain sec2 where
    sec2: "secondary_index ?i2 = Some sec2" "sec_wf sec2"
    "\<And>c'. hm_group sec2 c' = hm_group sec c' - (if \<exists>e. ?old = Some e \<and> evalue e = c' then {d} else {})"
    by blast
  from add_to_secondary_Some [OF sec2(1,2), of c d] obtain sec3 where
    sec3: "secondary_index (add_to_secondary_owned ?i2 c d) = Some sec3" "sec_wf sec3"
    "\<And>c'. hm_group sec3 c' = hm_group sec2 c' \<union> (if c' = c then {d} else {})"
    by blast
  have fst_eq: "fst (sir_insert_entry i t d c) = add_to_secondary_owned ?i2 c d"
    by (simp add: sir_insert_entry_def hri_insert_entry_def Let_def split: option.splits)
  have grp3: "hm_group sec3 c' = preimage ((map_of (entries i))(d \<mapsto> mk_entry t c)) c'" for c'
    using sec3(3) sec2(3) grp by (auto simp: preimage_def)
  from sec3(1) have "secondary_index (fst (sir_insert_entry i t d c)) = Some sec3"
    by (simp only: fst_eq)
  with sec3(2) grp3 ok show ?thesis
    by (simp add: sir_ok_def sec_ok_def)
qed

lemma sir_drop_ok:
  assumes "sir_ok i" and "entries i1 = hm_remove d (entries i)"
    and "secondary_index i1 = secondary_index i"
  shows "sir_ok (case map_of (entries i) d of
      None \<Rightarrow> i1 | Some e \<Rightarrow> remove_from_secondary i1 (evalue e) d)" (is "sir_ok ?i2")
proof -
  let ?old = "map_of (entries i) d"
  from assms obtain sec where ok: "hm_ok (entries i)" and sec: "secondary_index i1 = Some sec"
    and wf: "sec_wf sec" and grp: "\<And>c. hm_group sec c = preimage (map_of (entries i)) c"
    by (auto simp: sir_ok_def sec_ok_def)
  from sec_drop_old [OF sec wf, where old = ?old and d = d] obtain sec2 where
    sec2: "secondary_index ?i2 = Some sec2" "sec_wf sec2"
    "\<And>c'. hm_group sec2 c' = hm_group sec c' - (if \<exists>e. ?old = Some e \<and> evalue e = c' then {d} else {})"
    by blast
  have "hm_group sec2 c' = preimage ((map_of (entries i))(d := None)) c'" for c'
    using sec2(3) grp by (auto simp: preimage_def)
  moreover have "entries ?i2 = hm_remove d (entries i)"
    using assms(2) by (simp split: option.splits)
  ultimately show ?thesis
    using sec2 ok by (simp add: sir_ok_def sec_ok_def)
qed

lemma sir_ok_insert_tombstone: "sir_ok i \<Longrightarrow> sir_ok (fst (sir_insert_tombstone i t d))"
  using sir_drop_ok [of i "i\<lparr>entries := hm_remove d (entries i)\<rparr>" d]
  by (simp add: sir_insert_tombstone_def hri_insert_tombstone_def Let_def)

lemma sir_ok_remove_entry: "sir_ok i \<Longrightarrow> sir_ok (fst (sir_remove_entry i d))"
  using sir_drop_ok [of i "i\<lparr>entries := hm_remove d (entries i)\<rparr>" d]
  by (simp add: sir_remove_entry_def Let_def)

text \<open>The collecting loops of \<open>apply_batch\<close>.\<close>

lemma sir_batch_inserts_Cons:
  "sir_batch_inserts ((t, d, c) # xs) (i, R, A) =
     sir_batch_inserts xs (fst (hri_insert_entry i t d c),
       (case map_of (entries i) d of
          Some e \<Rightarrow> if evalue e \<noteq> c then hm_push (evalue e) d R else R | None \<Rightarrow> R),
       if d \<in> preimage (map_of (entries i)) c then A else hm_push c d A)"
  by (simp add: Let_def hri_insert_entry_def preimage_def split: option.splits)

declare sir_batch_inserts.simps(2) [simp del]

lemma sir_batch_inserts_index:
  "sir_batch_inserts xs (i, R, A) = (i', R', A') \<Longrightarrow>
     i' = foldl (\<lambda>i (t, d, c). fst (hri_insert_entry i t d c)) i xs"
proof (induction xs arbitrary: i R A)
  case (Cons x xs)
  obtain t d c where "x = (t, d, c)" by (cases x)
  with Cons.prems Cons.IH show ?case
    by (simp only: sir_batch_inserts_Cons foldl_Cons prod.case)
qed simp

lemma sir_batch_inserts_removals:
  assumes "distinct (map ins_dom xs)"
    and "sir_batch_inserts xs (i, R, A) = (i', R', A')"
  shows "hm_group R' c = hm_group R c \<union>
      {d. \<exists>t c'. (t, d, c') \<in> set xs \<and> d \<in> preimage (map_of (entries i)) c \<and> c \<noteq> c'}"
  using assms
proof (induction xs arbitrary: i R A)
  case (Cons x xs)
  obtain t d c0 where x: "x = (t, d, c0)" by (cases x)
  have dist: "distinct (map ins_dom xs)" and new: "\<And>t' c'. (t', d, c') \<notin> set xs"
    using Cons.prems(1) x by (force simp: image_iff)+
  from Cons.prems(2) [unfolded x sir_batch_inserts_Cons]
  have "hm_group R' c = hm_group (case map_of (entries i) d of
          Some e \<Rightarrow> if evalue e \<noteq> c0 then hm_push (evalue e) d R else R | None \<Rightarrow> R) c \<union>
      {d'. \<exists>t' c'. (t', d', c') \<in> set xs
         \<and> d' \<in> preimage ((map_of (entries i))(d \<mapsto> mk_entry t c0)) c \<and> c \<noteq> c'}"
    using Cons.IH [OF dist] by fastforce
  also have "\<dots> = hm_group R c \<union> {d'. \<exists>t' c'. (t', d', c') \<in> set (x # xs)
         \<and> d' \<in> preimage (map_of (entries i)) c \<and> c \<noteq> c'}"
    using new x by (auto simp: preimage_def split: option.splits if_splits)
  finally show ?case .
qed simp

lemma sir_batch_inserts_additions:
  assumes "distinct (map ins_dom xs)"
    and "sir_batch_inserts xs (i, R, A) = (i', R', A')"
  shows "hm_group A' c = hm_group A c \<union>
      {d. (\<exists>t. (t, d, c) \<in> set xs) \<and> d \<notin> preimage (map_of (entries i)) c}"
  using assms
proof (induction xs arbitrary: i R A)
  case (Cons x xs)
  obtain t d c0 where x: "x = (t, d, c0)" by (cases x)
  have dist: "distinct (map ins_dom xs)" and new: "\<And>t' c'. (t', d, c') \<notin> set xs"
    using Cons.prems(1) x by (force simp: image_iff)+
  from Cons.prems(2) [unfolded x sir_batch_inserts_Cons]
  have "hm_group A' c =
      hm_group (if d \<in> preimage (map_of (entries i)) c0 then A else hm_push c0 d A) c \<union>
      {d'. (\<exists>t'. (t', d', c) \<in> set xs)
         \<and> d' \<notin> preimage ((map_of (entries i))(d \<mapsto> mk_entry t c0)) c}"
    using Cons.IH [OF dist] by fastforce
  also have "\<dots> = hm_group A c \<union> {d'. (\<exists>t'. (t', d', c) \<in> set (x # xs))
         \<and> d' \<notin> preimage (map_of (entries i)) c}"
    using new x by (auto simp: preimage_def)
  finally show ?case .
qed simp

lemma sir_batch_tombstones_Cons:
  "sir_batch_tombstones ((t, d) # ts) (i, R) =
     sir_batch_tombstones ts (fst (hri_insert_tombstone i t d),
       case map_of (entries i) d of None \<Rightarrow> R | Some old \<Rightarrow> hm_push (evalue old) d R)"
  by (simp add: Let_def hri_insert_tombstone_def)

declare sir_batch_tombstones.simps(2) [simp del]

lemma sir_batch_tombstones_index:
  "sir_batch_tombstones ts (i, R) = (i', R') \<Longrightarrow>
     i' = foldl (\<lambda>i (t, d). fst (hri_insert_tombstone i t d)) i ts"
proof (induction ts arbitrary: i R)
  case (Cons x ts)
  obtain t d where "x = (t, d)" by (cases x)
  with Cons.prems Cons.IH show ?case
    by (simp only: sir_batch_tombstones_Cons foldl_Cons prod.case)
qed simp

lemma sir_batch_tombstones_groups:
  assumes "sir_batch_tombstones ts (i, R) = (i', R')"
  shows "hm_group R' c = hm_group R c \<union> (snd ` set ts \<inter> preimage (map_of (entries i)) c)"
  using assms
proof (induction ts arbitrary: i R)
  case (Cons x ts)
  obtain t d where x: "x = (t, d)" by (cases x)
  let ?i1 = "fst (hri_insert_tombstone i t d)"
  let ?R1 = "case map_of (entries i) d of None \<Rightarrow> R | Some old \<Rightarrow> hm_push (evalue old) d R"
  have "sir_batch_tombstones ts (?i1, ?R1) = (i', R')"
    using Cons.prems by (simp only: x sir_batch_tombstones_Cons)
  moreover have ents: "map_of (entries ?i1) = (map_of (entries i))(d := None)" by simp
  ultimately
  have "hm_group R' c = hm_group ?R1 c \<union> (snd ` set ts \<inter> (preimage (map_of (entries i)) c - {d}))"
    using Cons.IH by (simp only: preimage_del)
  also have "hm_group ?R1 c =
      hm_group R c \<union> (if d \<in> preimage (map_of (entries i)) c then {d} else {})"
    by (auto simp: preimage_iff split: option.splits)
  finally show ?case using x by auto
qed simp

lemma foldl_removeAll: "set (foldl (\<lambda>s d. removeAll d s) s ds) = set s - set ds"
  by (induction ds arbitrary: s) auto

lemma foldl_removeAll_distinct: "distinct s \<Longrightarrow> distinct (foldl (\<lambda>s d. removeAll d s) s ds)"
  by (induction ds arbitrary: s) (auto simp: distinct_removeAll)

lemma foldl_insert: "set (foldl (\<lambda>s d. List.insert d s) s ds) = set s \<union> set ds"
  by (induction ds arbitrary: s) auto

lemma foldl_insert_distinct: "distinct s \<Longrightarrow> distinct (foldl (\<lambda>s d. List.insert d s) s ds)"
  by (induction ds arbitrary: s) auto

lemma foldl_insert_not_Nil: "s \<noteq> [] \<or> ds \<noteq> [] \<Longrightarrow> foldl (\<lambda>s d. List.insert d s) s ds \<noteq> []"
  by (metis foldl_insert set_empty2 sup_eq_bot_iff)

lemma sec_apply_removals_groups:
  assumes "sec_wf sec" and "hm_ok R"
  shows "sec_wf (sec_apply_removals R sec)
    \<and> (\<forall>c. hm_group (sec_apply_removals R sec) c = hm_group sec c - hm_group R c)"
  using assms
proof (induction R arbitrary: sec)
  case (Cons x R)
  obtain c0 ds where x: "x = (c0, ds)" by (cases x)
  let ?s = "\<lambda>s. foldl (\<lambda>s d. removeAll d s) s ds"
  let ?sec1 = "case map_of sec c0 of None \<Rightarrow> sec
     | Some s \<Rightarrow> if ?s s \<noteq> [] then hm_insert c0 (?s s) (hm_remove c0 sec) else hm_remove c0 sec"
  have wf1: "sec_wf ?sec1"
    using Cons.prems(1)
    by (auto simp: sec_wf_def foldl_removeAll_distinct split: option.splits if_splits)
  have empty: "?s s = [] \<Longrightarrow> set s - set ds = {}" for s
    by (metis foldl_removeAll set_empty2)
  have grp1: "hm_group ?sec1 c = hm_group sec c - (if c = c0 then set ds else {})" for c
    using empty by (auto simp: hm_group_def foldl_removeAll split: option.splits)
  have R: "hm_group R c0 = {}" "hm_ok R"
    using Cons.prems(2) x by (auto simp: hm_group_None map_of_eq_None_iff)
  have "sec_apply_removals (x # R) sec = sec_apply_removals R ?sec1"
    by (simp only: x sec_apply_removals.simps Let_def)
  with Cons.IH [OF wf1 R(2)] grp1 R(1) show ?case
    by (auto simp: x hm_group_Cons)
qed (simp add: hm_group_def)

lemma sec_apply_additions_groups:
  assumes "sec_wf sec" and "hm_ok A" and "\<And>c ds. map_of A c = Some ds \<Longrightarrow> ds \<noteq> []"
  shows "sec_wf (sec_apply_additions A sec)
    \<and> (\<forall>c. hm_group (sec_apply_additions A sec) c = hm_group sec c \<union> hm_group A c)"
  using assms
proof (induction A arbitrary: sec)
  case (Cons x A)
  obtain c0 ds where x: "x = (c0, ds)" by (cases x)
  let ?s = "case map_of sec c0 of None \<Rightarrow> [] | Some s \<Rightarrow> s"
  let ?sec1 = "hm_insert c0 (foldl (\<lambda>s d. List.insert d s) ?s ds) (hm_remove c0 sec)"
  have ds: "ds \<noteq> []" using Cons.prems(3) [of c0 ds] x by simp
  have wf1: "sec_wf ?sec1"
    using Cons.prems(1) ds
    by (auto simp: sec_wf_def foldl_insert_not_Nil foldl_insert_distinct split: option.splits if_splits)
  have grp1: "hm_group ?sec1 c = hm_group sec c \<union> (if c = c0 then set ds else {})" for c
    by (auto simp: hm_group_def foldl_insert split: option.splits)
  have A0: "map_of A c0 = None" and A: "hm_group A c0 = {}" "hm_ok A"
    using Cons.prems(2) x by (auto simp: hm_group_None map_of_eq_None_iff)
  have ne: "ds' \<noteq> []" if "map_of A c = Some ds'" for c ds'
  proof -
    from that A0 have "c \<noteq> c0" by auto
    with that x have "map_of (x # A) c = Some ds'" by simp
    then show ?thesis by (rule Cons.prems(3))
  qed
  have "sec_apply_additions (x # A) sec = sec_apply_additions A ?sec1"
    by (simp add: x Let_def)
  with Cons.IH [OF wf1 A(2) ne] grp1 A(1) show ?case
    by (auto simp: x hm_group_Cons)
qed (simp add: hm_group_def)

lemma sir_batch_inserts_groups_ok:
  "groups_ok R \<Longrightarrow> groups_ok A \<Longrightarrow> sir_batch_inserts xs (i, R, A) = (i', R', A') \<Longrightarrow>
     groups_ok R' \<and> groups_ok A'"
proof (induction xs arbitrary: i R A)
  case (Cons x xs)
  obtain t d c where x: "x = (t, d, c)" by (cases x)
  show ?case
    using Cons.prems(3) unfolding x sir_batch_inserts_Cons
    by (rule Cons.IH [rotated 2]) (use Cons.prems in \<open>auto split: option.splits\<close>)
qed simp

lemma sir_batch_tombstones_groups_ok:
  "groups_ok R \<Longrightarrow> sir_batch_tombstones ts (i, R) = (i', R') \<Longrightarrow> groups_ok R'"
proof (induction ts arbitrary: i R)
  case (Cons x ts)
  obtain t d where x: "x = (t, d)" by (cases x)
  show ?case
    using Cons.prems(2) unfolding x sir_batch_tombstones_Cons
    by (rule Cons.IH [rotated]) (use Cons.prems in \<open>auto split: option.splits\<close>)
qed simp

lemma hri_foldl_inserts_sec:
  "secondary_index (foldl (\<lambda>i (t, d, c). fst (hri_insert_entry i t d c)) i xs) = secondary_index i"
  by (induction "map_of (entries i)" xs arbitrary: i rule: spec_inserts.induct) simp_all

lemma hri_foldl_tombstones_sec:
  "secondary_index (foldl (\<lambda>i (t, d). fst (hri_insert_tombstone i t d)) i ts) = secondary_index i"
  by (induction "map_of (entries i)" ts arbitrary: i rule: spec_tombstones.induct) simp_all

lemma sir_apply_batch_unfold:
  assumes "sir_batch_inserts xs (i, [], []) = (i1, R1, A)"
    and "sir_batch_tombstones ts (i1, R1) = (i2, R)"
  shows "sir_apply_batch i xs ts = (case secondary_index i of None \<Rightarrow> hri_apply_batch i xs ts
    | Some sec \<Rightarrow> (hri_apply_batch i xs ts)
        \<lparr>secondary_index := Some (sec_apply_additions A (sec_apply_removals R sec))\<rparr>)"
proof -
  have i1: "i1 = foldl (\<lambda>i (t, d, c). fst (hri_insert_entry i t d c)) i xs"
    using assms(1) by (rule sir_batch_inserts_index)
  have i2: "i2 = foldl (\<lambda>i (t, d). fst (hri_insert_tombstone i t d)) i1 ts"
    using assms(2) by (rule sir_batch_tombstones_index)
  have eq: "i2 = hri_apply_batch i xs ts"
    by (simp add: hri_apply_batch_def i1 i2)
  have sec: "secondary_index i2 = secondary_index i"
    by (simp add: i1 i2 hri_foldl_inserts_sec hri_foldl_tombstones_sec)
  show ?thesis
    by (simp add: sir_apply_batch_def assms sec flip: eq split: option.splits)
qed

lemma sir_apply_batch_simps [simp]:
  "entries (sir_apply_batch i xs ts) = entries (hri_apply_batch i xs ts)"
  "idx_fully_loaded (sir_apply_batch i xs ts) = idx_fully_loaded i"
proof -
  obtain i1 R1 A where 1: "sir_batch_inserts xs (i, [], []) = (i1, R1, A)"
    by (cases "sir_batch_inserts xs (i, [], [])") auto
  obtain i2 R where 2: "sir_batch_tombstones ts (i1, R1) = (i2, R)"
    by (cases "sir_batch_tombstones ts (i1, R1)") auto
  note unf = sir_apply_batch_unfold [OF 1 2]
  show "entries (sir_apply_batch i xs ts) = entries (hri_apply_batch i xs ts)"
    and "idx_fully_loaded (sir_apply_batch i xs ts) = idx_fully_loaded i"
    by (simp_all add: unf hri.apply_batch_loaded split: option.splits)
qed

text \<open>
  The net effect of a batch on a preimage: the collected removals and additions are exactly
  the difference between the two preimages, when no domain occurs twice in the batch.
\<close>

lemma preimage_batch:
  assumes dist: "distinct (batch_doms xs ts)"
  shows "preimage (spec_tombstones (spec_inserts m xs) ts) c =
    (preimage m c - ({d. \<exists>t c'. (t, d, c') \<in> set xs \<and> d \<in> preimage m c \<and> c \<noteq> c'}
        \<union> (snd ` set ts \<inter> preimage (spec_inserts m xs) c)))
      \<union> {d. (\<exists>t. (t, d, c) \<in> set xs) \<and> d \<notin> preimage m c}" (is "?L = ?R")
proof (rule set_eqI)
  fix d
  have xs: "distinct (map ins_dom xs)" using dist by simp
  have L: "d \<in> ?L \<longleftrightarrow> d \<notin> snd ` set ts \<and> d \<in> preimage (spec_inserts m xs) c"
    by (auto simp: preimage_iff spec_tombstones_eq)
  show "d \<in> ?L \<longleftrightarrow> d \<in> ?R"
  proof (cases "d \<in> ins_dom ` set xs")
    case True
    then obtain t c' where mem: "(t, d, c') \<in> set xs" by force
    have new: "spec_inserts m xs d = Some (mk_entry t c')" by (rule spec_inserts_in [OF xs mem])
    have uniq: "c'' = c'" if "(t'', d, c'') \<in> set xs" for t'' c''
      using spec_inserts_in [OF xs that, of m] new by simp
    have "d \<notin> snd ` set ts" using dist True by auto
    moreover have "d \<in> preimage (spec_inserts m xs) c \<longleftrightarrow> c' = c"
      by (simp add: preimage_iff new)
    moreover have "(\<exists>t. (t, d, c) \<in> set xs) \<longleftrightarrow> c' = c" using mem uniq by blast
    moreover have "(\<exists>t c''. (t, d, c'') \<in> set xs \<and> d \<in> preimage m c \<and> c \<noteq> c'') \<longleftrightarrow>
        d \<in> preimage m c \<and> c \<noteq> c'" using mem uniq by blast
    ultimately show ?thesis unfolding L by blast
  next
    case False
    then have no: "(t', d, c') \<notin> set xs" for t' c' by force
    have "d \<in> preimage (spec_inserts m xs) c \<longleftrightarrow> d \<in> preimage m c"
      by (simp add: preimage_iff spec_inserts_other [OF False])
    then show ?thesis unfolding L using no by blast
  qed
qed

lemma sir_ok_apply_batch:
  assumes ok: "sir_ok i" and dist: "distinct (batch_doms xs ts)"
  shows "sir_ok (sir_apply_batch i xs ts)"
proof -
  obtain i1 R1 A where 1: "sir_batch_inserts xs (i, [], []) = (i1, R1, A)"
    by (cases "sir_batch_inserts xs (i, [], [])") auto
  obtain i2 R where 2: "sir_batch_tombstones ts (i1, R1) = (i2, R)"
    by (cases "sir_batch_tombstones ts (i1, R1)") auto
  from ok obtain sec where sec: "secondary_index i = Some sec" and wf: "sec_wf sec"
    and grp: "\<And>c. hm_group sec c = preimage (map_of (entries i)) c" and hm: "hm_ok (entries i)"
    by (auto simp: sir_ok_def sec_ok_def)
  have xs: "distinct (map ins_dom xs)" using dist by simp
  have gok: "groups_ok R1" "groups_ok A"
    using sir_batch_inserts_groups_ok [OF _ _ 1] by simp_all
  then have R: "groups_ok R" using 2 by (auto intro: sir_batch_tombstones_groups_ok)
  let ?sec = "sec_apply_additions A (sec_apply_removals R sec)"
  have rem: "sec_wf (sec_apply_removals R sec)"
    "\<And>c. hm_group (sec_apply_removals R sec) c = hm_group sec c - hm_group R c"
    using sec_apply_removals_groups [OF wf] R by (auto simp: groups_ok_def)
  have add: "sec_wf ?sec" "\<And>c. hm_group ?sec c = (hm_group sec c - hm_group R c) \<union> hm_group A c"
    using sec_apply_additions_groups [OF rem(1)] gok(2) rem(2) by (auto simp: groups_ok_def)
  have ents: "map_of (entries i1) = spec_inserts (map_of (entries i)) xs"
    using sir_batch_inserts_index [OF 1] by (simp add: hri_foldl_inserts)
  have "hm_group ?sec c = preimage (map_of (entries (sir_apply_batch i xs ts))) c" for c
    unfolding add(2) sir_batch_tombstones_groups [OF 2] sir_batch_inserts_removals [OF xs 1]
      sir_batch_inserts_additions [OF xs 1] ents grp
    by (simp add: hri.apply_batch_lookup preimage_batch [OF dist])
  moreover have "secondary_index (sir_apply_batch i xs ts) = Some ?sec"
    by (simp add: sir_apply_batch_unfold [OF 1 2] sec)
  moreover have "hm_ok (entries (sir_apply_batch i xs ts))"
    using hm by (simp add: hri_apply_batch_def hri_foldl)
  ultimately show ?thesis using add(1) by (simp add: sir_ok_def sec_ok_def)
qed

interpretation sir: relation_index_laws sir_insert_entry sir_insert_tombstone sir_apply_batch
  "\<lambda>i. map_of (entries i)" idx_fully_loaded sir_ok
  by unfold_locales
    (simp_all add: sir_ok_insert_entry sir_ok_insert_tombstone sir_ok_apply_batch
      hri.apply_batch_lookup)

section \<open>The trait object satisfies the contract\<close>

lemma idx_new_ok [simp]:
  "idx_ok (HashRelationIndex hri_new)"
  "idx_ok (SecondaryIndexRelation hri_new_with_secondary)"
  by (simp_all add: hri_new_def hri_new_with_secondary_def hri_ok_def sir_ok_def sec_ok_def
      sec_wf_def preimage_def)

lemma idx_ok_keys: "idx_ok i \<Longrightarrow> hm_ok (idx_iter i)"
  by (cases i) (auto simp: idx_iter_def hri_ok_def sir_ok_def)

lemma idx_iter_lookup: "idx_ok i \<Longrightarrow> (d, e) \<in> set (idx_iter i) \<longleftrightarrow> idx_lookup i d = Some e"
  using in_set_hm_iff [OF idx_ok_keys] by (simp only: idx_lookup_def idx_iter_def)

lemma idx_set_loaded_simps [simp]:
  "idx_lookup (idx_set_provider_fully_loaded i b) = idx_lookup i"
  "idx_is_provider_fully_loaded (idx_set_provider_fully_loaded i b) = b"
  "idx_ok (idx_set_provider_fully_loaded i b) = idx_ok i"
  "idx_iter (idx_set_provider_fully_loaded i b) = idx_iter i"
  by (cases i; simp add: idx_lookup_def [abs_def] idx_is_provider_fully_loaded_def hri_ok_def
      sir_ok_def idx_iter_def)+

lemma idx_is_secondary_iff: "idx_is_secondary i \<longleftrightarrow> (\<exists>h. i = SecondaryIndexRelation h)"
  by (cases i) simp_all

lemma idx_is_secondary_simps [simp]:
  "idx_is_secondary (fst (idx_insert_entry i t d c)) = idx_is_secondary i"
  "idx_is_secondary (idx_apply_batch i xs ts) = idx_is_secondary i"
  "idx_is_secondary (idx_set_provider_fully_loaded i b) = idx_is_secondary i"
  by (cases i; simp add: Let_def case_prod_unfold)+

lemma idx_is_secondary_foldl [simp]:
  "idx_is_secondary (foldl (\<lambda>i (t, d, c). fst (idx_insert_entry i t d c)) i rows) = idx_is_secondary i"
proof (induction rows arbitrary: i)
  case (Cons row rows)
  then show ?case by (cases row) simp
qed simp

interpretation idx: relation_index_laws idx_insert_entry idx_insert_tombstone idx_apply_batch
  idx_lookup idx_is_provider_fully_loaded idx_ok
proof unfold_locales
  fix i :: "('d, 'c) relation_index" and t d c xs and ts :: "'d index_tombstone list"
  note split = case_prod_unfold idx_lookup_def [abs_def] idx_is_provider_fully_loaded_def
  show "snd (idx_insert_entry i t d c) = idx_lookup i d"
    by (cases i) (simp_all add: split)
  show "idx_lookup (fst (idx_insert_entry i t d c)) = (idx_lookup i)(d \<mapsto> mk_entry t c)"
    by (cases i) (simp_all add: split)
  show "idx_ok i \<Longrightarrow> idx_ok (fst (idx_insert_entry i t d c))"
    by (cases i) (simp_all add: split hri.insert_entry_invar sir.insert_entry_invar)
  show "idx_is_provider_fully_loaded (fst (idx_insert_entry i t d c)) =
      idx_is_provider_fully_loaded i"
    by (cases i) (simp_all add: split)
  show "snd (idx_insert_tombstone i t d) = idx_lookup i d"
    by (cases i) (simp_all add: split)
  show "idx_lookup (fst (idx_insert_tombstone i t d)) = (idx_lookup i)(d := None)"
    by (cases i) (simp_all add: split)
  show "idx_ok i \<Longrightarrow> idx_ok (fst (idx_insert_tombstone i t d))"
    by (cases i) (simp_all add: split hri.insert_tombstone_invar sir.insert_tombstone_invar)
  show "idx_is_provider_fully_loaded (fst (idx_insert_tombstone i t d)) =
      idx_is_provider_fully_loaded i"
    by (cases i) (simp_all add: split)
  show "idx_lookup (idx_apply_batch i xs ts) = spec_tombstones (spec_inserts (idx_lookup i) xs) ts"
    by (cases i) (simp_all add: split hri.apply_batch_lookup)
  show "idx_ok i \<Longrightarrow> distinct (batch_doms xs ts) \<Longrightarrow> idx_ok (idx_apply_batch i xs ts)"
    by (cases i) (simp_all add: hri.apply_batch_invar sir.apply_batch_invar)
  show "idx_is_provider_fully_loaded (idx_apply_batch i xs ts) = idx_is_provider_fully_loaded i"
    by (cases i) (simp_all add: split hri.apply_batch_loaded)
qed

section \<open>Properties\<close>

text \<open>The indexes that the operations of \<open>SecondaryIndexRelation\<close> build, starting from \<open>new()\<close>.\<close>

inductive sir_reachable :: "('d, 'c) hash_relation_index \<Rightarrow> bool" where
  new: "sir_reachable hri_new_with_secondary"
| insert_entry: "sir_reachable i \<Longrightarrow> sir_reachable (fst (sir_insert_entry i t d c))"
| insert_tombstone: "sir_reachable i \<Longrightarrow> sir_reachable (fst (sir_insert_tombstone i t d))"
| remove_entry: "sir_reachable i \<Longrightarrow> sir_reachable (fst (sir_remove_entry i d))"
| apply_batch: "sir_reachable i \<Longrightarrow> distinct (batch_doms xs ts) \<Longrightarrow>
    sir_reachable (sir_apply_batch i xs ts)"

lemma sir_reachable_ok: "sir_reachable i \<Longrightarrow> sir_ok i"
proof (induction rule: sir_reachable.induct)
  case new
  show ?case using idx_new_ok(2) by simp
qed (simp_all add: sir_ok_insert_entry sir_ok_insert_tombstone sir_ok_remove_entry
    sir_ok_apply_batch)

lemma sir_get_by_codomain_group:
  assumes "sir_ok i"
  shows "distinct (sir_get_by_codomain i c)"
    and "set (sir_get_by_codomain i c) = preimage (map_of (entries i)) c"
proof -
  from assms obtain sec where sec: "secondary_index i = Some sec" "sec_wf sec"
    and grp: "hm_group sec c = preimage (map_of (entries i)) c"
    by (auto simp: sir_ok_def sec_ok_def)
  show "distinct (sir_get_by_codomain i c)"
    using sec by (auto simp: sir_get_by_codomain_def sec_wf_def split: option.splits)
  show "set (sir_get_by_codomain i c) = preimage (map_of (entries i)) c"
    using sec(1) by (simp add: sir_get_by_codomain_def hm_group_def split: option.splits flip: grp)
qed





end
