(* ===== verification/Obj.thy ===== *)
theory Obj
  imports Prelude
begin

text \<open>
  Object references, \<open>crates/var/src/obj.rs\<close>: a 64 bit word whose top two bits are a type code.
\<close>

unbundle bit_operations_syntax

datatype obj = Obj (obj_word: "64 word")

type_synonym uuid = "128 word"

definition OBJID_TYPE_CODE :: "8 word" where
  "OBJID_TYPE_CODE = 0"

definition UUOBJID_TYPE_CODE :: "8 word" where
  "UUOBJID_TYPE_CODE = 1"

definition ANONYMOUS_TYPE_CODE :: "8 word" where
  "ANONYMOUS_TYPE_CODE = 2"

definition object_type_code :: "obj \<Rightarrow> 8 word" where
  "object_type_code ob = ucast (drop_bit 62 (obj_word ob))"

definition decode_as_objid :: "obj \<Rightarrow> 32 word" where
  "decode_as_objid ob = ucast (obj_word ob AND 0x0000ffffffff)"

definition encode_as_objid :: "32 word \<Rightarrow> obj" where
  "encode_as_objid n =
     (let as_u64 = (ucast n :: 64 word)
      in Obj ((as_u64 AND 0x0000ffffffff) OR push_bit 62 (ucast OBJID_TYPE_CODE)))"

definition mk_id :: "32 word \<Rightarrow> obj" where
  "mk_id n = encode_as_objid n"

text \<open>The low 62 bits of the other kinds of references.\<close>

definition decode_as_uuobjid :: "obj \<Rightarrow> 64 word" where
  "decode_as_uuobjid ob = obj_word ob AND 0x3FFFFFFFFFFFFFFF"

definition mk_uuobjid :: "64 word \<Rightarrow> obj" where
  "mk_uuobjid u = Obj ((u AND 0x3FFFFFFFFFFFFFFF) OR push_bit 62 (ucast UUOBJID_TYPE_CODE))"

definition decode_as_anonymous :: "obj \<Rightarrow> 64 word" where
  "decode_as_anonymous ob = obj_word ob AND 0x3FFFFFFFFFFFFFFF"

definition mk_anonymous :: "64 word \<Rightarrow> obj" where
  "mk_anonymous a = Obj ((a AND 0x3FFFFFFFFFFFFFFF) OR push_bit 62 (ucast ANONYMOUS_TYPE_CODE))"

definition is_sysobj :: "obj \<Rightarrow> bool" where
  "is_sysobj ob \<longleftrightarrow> object_type_code ob = OBJID_TYPE_CODE \<and> decode_as_objid ob = 0"

definition is_nothing :: "obj \<Rightarrow> bool" where
  "is_nothing ob \<longleftrightarrow> object_type_code ob = OBJID_TYPE_CODE \<and> decode_as_objid ob = -1"

definition is_positive :: "obj \<Rightarrow> bool" where
  "is_positive ob =
     (if object_type_code ob = OBJID_TYPE_CODE then 0 \<le> sint (decode_as_objid ob) else True)"

text \<open>\<open>id()\<close> asserts the kind of the reference: \<open>None\<close> is the panic.\<close>

definition objid :: "obj \<Rightarrow> 32 word option" where
  "objid ob = (if object_type_code ob = OBJID_TYPE_CODE then Some (decode_as_objid ob) else None)"

definition is_oid :: "obj \<Rightarrow> bool" where
  "is_oid ob \<longleftrightarrow> object_type_code ob = OBJID_TYPE_CODE"

definition is_uuobjid :: "obj \<Rightarrow> bool" where
  "is_uuobjid ob \<longleftrightarrow> object_type_code ob = UUOBJID_TYPE_CODE"

definition uuobjid :: "obj \<Rightarrow> 64 word option" where
  "uuobjid ob = (if object_type_code ob = UUOBJID_TYPE_CODE then Some (decode_as_uuobjid ob) else None)"

definition is_anonymous :: "obj \<Rightarrow> bool" where
  "is_anonymous ob \<longleftrightarrow> object_type_code ob = ANONYMOUS_TYPE_CODE"

definition anonymous_objid :: "obj \<Rightarrow> 64 word option" where
  "anonymous_objid ob =
     (if object_type_code ob = ANONYMOUS_TYPE_CODE then Some (decode_as_anonymous ob) else None)"

definition is_valid_object :: "obj \<Rightarrow> bool" where
  "is_valid_object ob =
     (let code = object_type_code ob
      in if code = OBJID_TYPE_CODE then 0 \<le> sint (decode_as_objid ob)
         else code = UUOBJID_TYPE_CODE \<or> code = ANONYMOUS_TYPE_CODE)"

definition NOTHING :: obj where
  "NOTHING = mk_id (-1)"

definition SYSTEM_OBJECT :: obj where
  "SYSTEM_OBJECT = mk_id 0"

definition AMBIGUOUS :: obj where
  "AMBIGUOUS = mk_id (-2)"

definition FAILED_MATCH :: obj where
  "FAILED_MATCH = mk_id (-3)"

section \<open>Kinds of references\<close>

lemma word_bit_bound: "bit (w :: 32 word) n \<Longrightarrow> n < 32"
  using bit_imp_le_length [of w n] by simp

lemma low_mask: "(0x0000ffffffff :: 64 word) = mask 32"
  by (simp add: mask_eq_exp_minus_1)

lemma mk_id_word: "obj_word (mk_id n) = ucast n"
  unfolding mk_id_def encode_as_objid_def OBJID_TYPE_CODE_def low_mask
  by (rule bit_word_eqI) (auto simp: bit_simps word_bit_bound)

lemma objid_mk_id [simp]: "object_type_code (mk_id n) = OBJID_TYPE_CODE" "decode_as_objid (mk_id n) = n"
  "objid (mk_id n) = Some n"
proof -
  show code: "object_type_code (mk_id n) = OBJID_TYPE_CODE"
    by (rule bit_word_eqI)
      (auto simp: object_type_code_def mk_id_word OBJID_TYPE_CODE_def bit_simps dest: word_bit_bound)
  show dec: "decode_as_objid (mk_id n) = n"
    unfolding decode_as_objid_def mk_id_word low_mask by (rule bit_word_eqI) (auto simp: bit_simps)
  show "objid (mk_id n) = Some n" by (simp add: objid_def code dec)
qed

lemma mk_id_inject [simp]: "mk_id m = mk_id n \<longleftrightarrow> m = n"
  by (metis objid_mk_id(2))

lemma is_nothing_mk_id [simp]: "is_nothing (mk_id n) \<longleftrightarrow> n = -1"
  by (simp add: is_nothing_def)

lemma is_nothing_NOTHING [simp]: "is_nothing NOTHING"
  by (simp add: NOTHING_def)

end
