(* ===== verification/Symbols.thy ===== *)
theory Symbols
  imports Prelude "HOL-Library.Word"
begin

unbundle bit_operations_syntax

text \<open>
  Symbol interning, \<^verbatim>\<open>var/src/symbol.rs\<close>. A symbol is a pair of 32-bit numbers: \<open>compare_id\<close>
  decides equality and is shared by all case variants of a text, \<open>repr_id\<close> indexes the table of
  original spellings. Strings are lists of bytes. Case folding is that of the \<^verbatim>\<open>unicase\<close>
  library: the parameter \<open>fc\<close> gives the folded text, and two \<open>UniCase\<close> keys are equal when their
  folded texts are. The maps and vectors of the interner are shared by all threads; each thread
  has its own small cache, so an operation names the thread that runs it.

  Shown for any history of \<open>Symbol::mk\<close> calls on any threads: two symbols are equal exactly when
  their texts fold alike, they have the same spelling exactly when the texts are equal, a symbol
  gives back its text, and \<open>mk\<close> returns while fewer than \<open>2 ^ 32\<close> texts have been interned.
\<close>

section \<open>Data\<close>

definition SYMBOL_CACHE_SIZE :: nat where
  "SYMBOL_CACHE_SIZE = 16"

record symbol_id =
  compare_id :: "32 word"
  repr_id :: "32 word"

definition symbol_eq :: "symbol_id \<Rightarrow> symbol_id \<Rightarrow> bool" where
  "symbol_eq a b \<longleftrightarrow> compare_id a = compare_id b"

definition symbol_less :: "symbol_id \<Rightarrow> symbol_id \<Rightarrow> bool" where
  "symbol_less a b \<longleftrightarrow> compare_id a < compare_id b"

type_synonym cache_entry = "string \<times> symbol_id"

record symbol_cache =
  sc_entries :: "cache_entry option list"
  next_slot :: nat

record symbol_data =
  original_string :: string
  sd_repr_id :: "32 word"
  sd_compare_id :: "32 word"

record symbol_repr_data =
  rd_original_string :: string
  byte_len :: nat
  char_len :: nat
  is_ascii :: bool

record symbol_group =
  sg_compare_id :: "32 word"
  first_variant :: "symbol_data option"
  overflow_variants :: "symbol_data list"

record interner =
  groups :: "(string, symbol_group) hmap"
  repr_id_to_symbol :: "symbol_repr_data list"
  compare_ids :: "(32 word, string) hmap"

section \<open>The thread-local cache\<close>

definition symbol_cache_new :: symbol_cache where
  "symbol_cache_new = \<lparr>sc_entries = replicate SYMBOL_CACHE_SIZE None, next_slot = 0\<rparr>"

fun cache_find :: "cache_entry option list \<Rightarrow> string \<Rightarrow> symbol_id option" where
  "cache_find [] s = None"
| "cache_find (None # es) s = cache_find es s"
| "cache_find (Some (t, y) # es) s = (if t = s then Some y else cache_find es s)"

definition symbol_cache_get :: "symbol_cache \<Rightarrow> string \<Rightarrow> symbol_id option" where
  "symbol_cache_get c s = cache_find (sc_entries c) s"

text \<open>The in-place update of \<open>insert\<close>: the first entry for the text, if there is one.\<close>

fun cache_update :: "cache_entry option list \<Rightarrow> string \<Rightarrow> symbol_id \<Rightarrow> cache_entry option list option" where
  "cache_update [] s y = None"
| "cache_update (None # es) s y = map_option ((#) None) (cache_update es s y)"
| "cache_update (Some (t, old) # es) s y =
     (if t = s then Some (Some (t, y) # es)
      else map_option ((#) (Some (t, old))) (cache_update es s y))"

definition symbol_cache_insert :: "symbol_cache \<Rightarrow> string \<Rightarrow> symbol_id \<Rightarrow> symbol_cache" where
  "symbol_cache_insert c s y =
     (case cache_update (sc_entries c) s y of
        Some es \<Rightarrow> c\<lparr>sc_entries := es\<rparr>
      | None \<Rightarrow> c\<lparr>sc_entries := (sc_entries c)[next_slot c := Some (s, y)],
                  next_slot := (next_slot c + 1) mod SYMBOL_CACHE_SIZE\<rparr>)"

section \<open>The global interner\<close>

definition symbol_group_new :: "32 word \<Rightarrow> symbol_group" where
  "symbol_group_new cid = \<lparr>sg_compare_id = cid, first_variant = None, overflow_variants = []\<rparr>"

definition find_overflow_variant :: "symbol_group \<Rightarrow> string \<Rightarrow> symbol_data option" where
  "find_overflow_variant g s = find (\<lambda>v. original_string v = s) (overflow_variants g)"

definition stable_hash :: "8 word list \<Rightarrow> 32 word" where
  "stable_hash bytes =
     foldl (\<lambda>hash byte. (hash XOR ucast byte) * 0x01000193) 0x811c9dc5 bytes"

definition byte_of :: "char \<Rightarrow> 8 word" where
  "byte_of c = of_nat (of_char c)"

definition str_is_ascii :: "string \<Rightarrow> bool" where
  "str_is_ascii s \<longleftrightarrow> list_all (\<lambda>c. of_char c < (128 :: nat)) s"

definition to_ascii_lowercase :: "8 word \<Rightarrow> 8 word" where
  "to_ascii_lowercase b = (if 65 \<le> b \<and> b \<le> 90 then b + 32 else b)"

definition preferred_compare_id :: "(string \<Rightarrow> string) \<Rightarrow> string \<Rightarrow> 32 word" where
  "preferred_compare_id fc text =
     (if str_is_ascii text then stable_hash (map (\<lambda>c. to_ascii_lowercase (byte_of c)) text)
      else stable_hash (map byte_of (fc text)))"

definition interner_new :: interner where
  "interner_new = \<lparr>groups = [], repr_id_to_symbol = [], compare_ids = []\<rparr>"

text \<open>
  The loop of \<open>claim_compare_id\<close>. It ends at the first number that is free or held by a text that
  folds alike; it would not end if all \<open>2 ^ 32\<close> numbers were held by others.
\<close>

partial_function (option) claim_loop ::
  "(string \<Rightarrow> string) \<Rightarrow> (32 word, string) hmap \<Rightarrow> string \<Rightarrow> 32 word
     \<Rightarrow> ((32 word, string) hmap \<times> 32 word) option" where
  "claim_loop fc ids text cid =
     (let (ids', holder) =
        (case map_of ids cid of None \<Rightarrow> (hm_insert cid text ids, text) | Some h \<Rightarrow> (ids, h))
      in if fc holder = fc text then Some (ids', cid) else claim_loop fc ids' text (cid + 1))"

definition claim_compare_id :: "(string \<Rightarrow> string) \<Rightarrow> interner \<Rightarrow> string \<Rightarrow> (interner \<times> 32 word) option" where
  "claim_compare_id fc st text =
     (case claim_loop fc (compare_ids st) text (preferred_compare_id fc text) of
        None \<Rightarrow> None
      | Some (ids, cid) \<Rightarrow> Some (st\<lparr>compare_ids := ids\<rparr>, cid))"

text \<open>The number of characters of a UTF-8 text is the number of its non-continuation bytes.\<close>

definition chars_count :: "string \<Rightarrow> nat" where
  "chars_count s =
     length (filter (\<lambda>c. \<not> (128 \<le> (of_char c :: nat) \<and> (of_char c :: nat) < 192)) s)"

definition make_symbol_data :: "interner \<Rightarrow> string \<Rightarrow> 32 word \<Rightarrow> interner \<times> symbol_data" where
  "make_symbol_data st s cid =
     (let ascii = str_is_ascii s;
          d = \<lparr>rd_original_string = s, byte_len = length s,
               char_len = (if ascii then length s else chars_count s), is_ascii = ascii\<rparr>
      in (st\<lparr>repr_id_to_symbol := repr_id_to_symbol st @ [d]\<rparr>,
          \<lparr>original_string = s, sd_repr_id = of_nat (length (repr_id_to_symbol st)),
           sd_compare_id = cid\<rparr>))"

text \<open>
  \<open>get_or_insert_variant\<close>: the second pair of probes, under the group's lock, is the first pair
  again, so it appears once.
\<close>

definition get_or_insert_variant ::
  "interner \<Rightarrow> symbol_group \<Rightarrow> string \<Rightarrow> interner \<times> symbol_group \<times> symbol_data" where
  "get_or_insert_variant st g s =
     (case (case first_variant g of
              None \<Rightarrow> None
            | Some v \<Rightarrow> if original_string v = s then Some v else None) of
        Some v \<Rightarrow> (st, g, v)
      | None \<Rightarrow>
          (case find_overflow_variant g s of
             Some v \<Rightarrow> (st, g, v)
           | None \<Rightarrow>
               (let (st', d) = make_symbol_data st s (sg_compare_id g)
                in if first_variant g = None then (st', g\<lparr>first_variant := Some d\<rparr>, d)
                   else (st', g\<lparr>overflow_variants := overflow_variants g @ [d]\<rparr>, d))))"

definition intern_group :: "(string \<Rightarrow> string) \<Rightarrow> interner \<Rightarrow> string \<Rightarrow> (interner \<times> symbol_group) option" where
  "intern_group fc st s =
     (case map_of (groups st) (fc s) of
        Some g \<Rightarrow> Some (st, g)
      | None \<Rightarrow>
          (case claim_compare_id fc st s of
             None \<Rightarrow> None
           | Some (st', cid) \<Rightarrow>
               (let g = symbol_group_new cid
                in Some (st'\<lparr>groups := hm_insert (fc s) g (groups st')\<rparr>, g))))"

definition intern :: "(string \<Rightarrow> string) \<Rightarrow> interner \<Rightarrow> string \<Rightarrow> (interner \<times> 32 word \<times> 32 word) option" where
  "intern fc st s =
     (case intern_group fc st s of
        None \<Rightarrow> None
      | Some (st', g) \<Rightarrow>
          (let (st'', g', d) = get_or_insert_variant st' g s
           in Some (st''\<lparr>groups := hm_insert (fc s) g' (groups st'')\<rparr>, sd_compare_id d, sd_repr_id d)))"

definition get_repr_data_by_repr_id :: "interner \<Rightarrow> 32 word \<Rightarrow> symbol_repr_data option" where
  "get_repr_data_by_repr_id st r =
     (if unat r < length (repr_id_to_symbol st) then Some (repr_id_to_symbol st ! unat r) else None)"

section \<open>Symbols\<close>

record symbol_world =
  sw_interner :: interner
  sw_caches :: "nat \<Rightarrow> symbol_cache"

definition symbol_world_new :: symbol_world where
  "symbol_world_new = \<lparr>sw_interner = interner_new, sw_caches = (\<lambda>_. symbol_cache_new)\<rparr>"

definition symbol_mk ::
  "(string \<Rightarrow> string) \<Rightarrow> symbol_world \<Rightarrow> nat \<Rightarrow> string \<Rightarrow> (symbol_world \<times> symbol_id) option" where
  "symbol_mk fc w th s =
     (case symbol_cache_get (sw_caches w th) s of
        Some y \<Rightarrow> Some (w, y)
      | None \<Rightarrow>
          (case intern fc (sw_interner w) s of
             None \<Rightarrow> None
           | Some (st, cid, rid) \<Rightarrow>
               (let y = \<lparr>compare_id = cid, repr_id = rid\<rparr>
                in Some (w\<lparr>sw_interner := st,
                          sw_caches := (sw_caches w)
                            (th := symbol_cache_insert (sw_caches w th) s y)\<rparr>, y))))"

text \<open>\<open>as_string\<close> and its relatives panic (here: None) on a number that is not in the table.\<close>

definition symbol_as_string :: "interner \<Rightarrow> symbol_id \<Rightarrow> string option" where
  "symbol_as_string st y = map_option rd_original_string (get_repr_data_by_repr_id st (repr_id y))"

definition symbol_to_folded_case :: "(string \<Rightarrow> string) \<Rightarrow> interner \<Rightarrow> symbol_id \<Rightarrow> string option" where
  "symbol_to_folded_case fc st y = map_option fc (symbol_as_string st y)"

definition str_metadata :: "interner \<Rightarrow> symbol_id \<Rightarrow> (nat \<times> nat \<times> bool) option" where
  "str_metadata st y =
     map_option (\<lambda>d. (byte_len d, char_len d, is_ascii d)) (get_repr_data_by_repr_id st (repr_id y))"

text \<open>A history: calls of \<open>Symbol::mk\<close>, each on a thread, and the symbols they return.\<close>

fun symbol_mks ::
  "(string \<Rightarrow> string) \<Rightarrow> symbol_world \<Rightarrow> (nat \<times> string) list \<Rightarrow> (symbol_world \<times> symbol_id list) option" where
  "symbol_mks fc w [] = Some (w, [])"
| "symbol_mks fc w ((th, s) # cs) =
     (case symbol_mk fc w th s of
        None \<Rightarrow> None
      | Some (w', y) \<Rightarrow>
          (case symbol_mks fc w' cs of
             None \<Rightarrow> None
           | Some (w'', syms) \<Rightarrow> Some (w'', y # syms)))"

section \<open>The claim loop\<close>

definition claim_post :: "(string \<Rightarrow> string) \<Rightarrow> (32 word, string) hmap \<Rightarrow> string
    \<Rightarrow> (32 word, string) hmap \<times> 32 word \<Rightarrow> bool" where
  "claim_post fc ids text r \<longleftrightarrow>
     (\<exists>t. map_of (fst r) (snd r) = Some t \<and> fc t = fc text) \<and> map_of ids \<subseteq>\<^sub>m map_of (fst r)
     \<and> length (fst r) \<le> Suc (length ids)"

lemma claim_loop_result:
  assumes "claim_loop fc ids s cid = Some r"
  shows "claim_post fc ids s r"
proof (rule claim_loop.raw_induct [where P = "\<lambda>fc ids s cid r. claim_post fc ids s r", OF _ assms])
  fix loop and fc :: "string \<Rightarrow> string" and ids s cid r
  assume IH: "\<And>fc ids s cid r. loop fc ids s cid = Some r \<Longrightarrow> claim_post fc ids s r"
    and body: "(let (ids', holder) = (case map_of ids cid of None \<Rightarrow> (hm_insert cid s ids, s) | Some h \<Rightarrow> (ids, h))
      in if fc holder = fc s then Some (ids', cid) else loop fc ids' s (cid + 1)) = Some r"
  show "claim_post fc ids s r"
  proof (cases "map_of ids cid")
    case None
    then have "r = (hm_insert cid s ids, cid)" using body by simp
    with None show ?thesis by (auto simp: claim_post_def map_le_def hm_insert_length_new)
  next
    case (Some h)
    then show ?thesis using body IH by (cases "fc h = fc s") (auto simp: claim_post_def)
  qed
qed

lemma claim_loop_free:
  "map_of ids (cid + of_nat k) = None \<Longrightarrow> \<exists>r. claim_loop fc ids text cid = Some r"
proof (induction k arbitrary: cid)
  case 0
  then show ?case by (subst claim_loop.simps) simp
next
  case (Suc k)
  then have "\<exists>r. claim_loop fc ids text (cid + 1) = Some r" by (simp add: algebra_simps)
  then show ?case by (subst claim_loop.simps) (auto simp: Let_def split: option.split)
qed

lemma claim_loop_returns:
  assumes "length ids < 2 ^ 32"
  shows "\<exists>r. claim_loop fc ids text cid = Some r"
proof -
  have "card (dom (map_of ids)) \<le> length ids"
    by (metis card_length dom_map_of_conv_image_fst length_map set_map)
  then have "card (dom (map_of ids)) < card (UNIV :: 32 word set)"
    using assms by (simp add: card_word)
  then obtain c where c: "map_of ids c = None"
    by (metis UNIV_eq_I domIff less_irrefl)
  have "cid + of_nat (unat (c - cid)) = c" by simp
  with c show ?thesis using claim_loop_free [of ids cid "unat (c - cid)"] by simp
qed

section \<open>The invariant\<close>

definition variants :: "symbol_group \<Rightarrow> symbol_data list" where
  "variants g = (case first_variant g of None \<Rightarrow> [] | Some v \<Rightarrow> [v]) @ overflow_variants g"

definition symbol_of :: "symbol_data \<Rightarrow> symbol_id" where
  "symbol_of d = \<lparr>compare_id = sd_compare_id d, repr_id = sd_repr_id d\<rparr>"

definition symbol_lookup :: "(string \<Rightarrow> string) \<Rightarrow> interner \<Rightarrow> string \<Rightarrow> symbol_id option" where
  "symbol_lookup fc st s =
     (case map_of (groups st) (fc s) of
        None \<Rightarrow> None
      | Some g \<Rightarrow> map_option symbol_of (find (\<lambda>v. original_string v = s) (variants g)))"

definition variant_ok :: "(string \<Rightarrow> string) \<Rightarrow> symbol_repr_data list \<Rightarrow> string \<Rightarrow> 32 word \<Rightarrow> symbol_data \<Rightarrow> bool" where
  "variant_ok fc rs k cid v \<longleftrightarrow>
     fc (original_string v) = k \<and> sd_compare_id v = cid \<and> unat (sd_repr_id v) < length rs
     \<and> rd_original_string (rs ! unat (sd_repr_id v)) = original_string v"

definition group_ok :: "(string \<Rightarrow> string) \<Rightarrow> interner \<Rightarrow> string \<Rightarrow> symbol_group \<Rightarrow> bool" where
  "group_ok fc st k g \<longleftrightarrow>
     (\<exists>t. map_of (compare_ids st) (sg_compare_id g) = Some t \<and> fc t = k)
     \<and> (first_variant g = None \<longrightarrow> overflow_variants g = [])
     \<and> list_all (variant_ok fc (repr_id_to_symbol st) k (sg_compare_id g)) (variants g)"

definition interner_ok :: "(string \<Rightarrow> string) \<Rightarrow> interner \<Rightarrow> bool" where
  "interner_ok fc st \<longleftrightarrow> (\<forall>k g. map_of (groups st) k = Some g \<longrightarrow> group_ok fc st k g)"

text \<open>Later states know everything that earlier states know.\<close>

definition interner_extends :: "(string \<Rightarrow> string) \<Rightarrow> interner \<Rightarrow> interner \<Rightarrow> bool" where
  "interner_extends fc st st' \<longleftrightarrow>
     (\<forall>s y. symbol_lookup fc st s = Some y \<longrightarrow> symbol_lookup fc st' s = Some y)
     \<and> length (repr_id_to_symbol st') \<le> Suc (length (repr_id_to_symbol st))
     \<and> length (compare_ids st') \<le> Suc (length (compare_ids st))"

lemma find_append: "find P (xs @ ys) = (case find P xs of None \<Rightarrow> find P ys | Some x \<Rightarrow> Some x)"
  by (induction xs) auto

lemma get_or_insert_variant_nf:
  assumes "first_variant g = None \<longrightarrow> overflow_variants g = []"
  shows "get_or_insert_variant st g s =
    (case find (\<lambda>v. original_string v = s) (variants g) of
       Some v \<Rightarrow> (st, g, v)
     | None \<Rightarrow> (let (st', d) = make_symbol_data st s (sg_compare_id g)
               in (st', if first_variant g = None then g\<lparr>first_variant := Some d\<rparr>
                        else g\<lparr>overflow_variants := overflow_variants g @ [d]\<rparr>, d)))"
  using assms
  by (auto simp: get_or_insert_variant_def find_overflow_variant_def variants_def Let_def
      split: option.splits prod.splits)

lemma group_ok_mono:
  assumes "group_ok fc st k g" and "map_of (compare_ids st) \<subseteq>\<^sub>m map_of (compare_ids st')"
    and "\<exists>ds. repr_id_to_symbol st' = repr_id_to_symbol st @ ds"
  shows "group_ok fc st' k g"
proof -
  have "map_of (compare_ids st') c = Some t" if "map_of (compare_ids st) c = Some t" for c t
    using assms(2) that by (metis domI map_le_def)
  moreover have "list_all (variant_ok fc (repr_id_to_symbol st') k (sg_compare_id g)) (variants g)"
    using assms(1, 3) by (auto simp: group_ok_def list_all_iff variant_ok_def nth_append)
  ultimately show ?thesis using assms(1) by (auto simp: group_ok_def)
qed

lemma intern_group_ok:
  assumes ok: "interner_ok fc st" and run: "intern_group fc st s = Some (st', g)"
  shows "interner_ok fc st' \<and> map_of (groups st') (fc s) = Some g
    \<and> repr_id_to_symbol st' = repr_id_to_symbol st \<and> interner_extends fc st st'"
proof (cases "map_of (groups st) (fc s)")
  case (Some h)
  then show ?thesis
    using ok run by (auto simp: intern_group_def interner_extends_def)
next
  case None
  then obtain ids cid where
    claim: "claim_loop fc (compare_ids st) s (preferred_compare_id fc s) = Some (ids, cid)"
    and g: "g = symbol_group_new cid"
    and st': "st' = st\<lparr>compare_ids := ids, groups := hm_insert (fc s) g (groups st)\<rparr>"
    using run by (auto simp: intern_group_def claim_compare_id_def Let_def split: option.splits)
  note post = claim_loop_result [OF claim, unfolded claim_post_def, simplified]
  have "group_ok fc st' (fc s) g"
    using post by (auto simp: group_ok_def st' g symbol_group_new_def variants_def)
  moreover have "group_ok fc st' k h" if "map_of (groups st) k = Some h" for k h
    by (rule group_ok_mono [of fc st]) (use ok that post in \<open>auto simp: interner_ok_def st'\<close>)
  ultimately show ?thesis
    using post None
    by (auto simp: interner_ok_def st' interner_extends_def symbol_lookup_def split: option.splits)
qed

lemma group_ok_add_variant:
  assumes "group_ok fc st k g" and "fc s = k" and "length (repr_id_to_symbol st) < 2 ^ 32"
    and "make_symbol_data st s (sg_compare_id g) = (st', d)"
    and "g' = (if first_variant g = None then g\<lparr>first_variant := Some d\<rparr>
               else g\<lparr>overflow_variants := overflow_variants g @ [d]\<rparr>)"
  shows "group_ok fc st' k g'" "variants g' = variants g @ [d]" "original_string d = s"
    "compare_ids st' = compare_ids st" "groups st' = groups st"
    "\<exists>x. repr_id_to_symbol st' = repr_id_to_symbol st @ [x]"
proof -
  show v: "variants g' = variants g @ [d]"
    using assms(1, 5) by (auto simp: variants_def group_ok_def split: option.splits)
  show st': "original_string d = s" "compare_ids st' = compare_ids st" "groups st' = groups st"
    and grow: "\<exists>x. repr_id_to_symbol st' = repr_id_to_symbol st @ [x]"
    using assms(4) by (auto simp: make_symbol_data_def Let_def)
  have "group_ok fc st' k g"
    using assms(1) by (rule group_ok_mono) (use st' grow in auto)
  moreover have "variant_ok fc (repr_id_to_symbol st') k (sg_compare_id g) d"
    using assms(2-4)
    by (auto simp: make_symbol_data_def Let_def variant_ok_def unat_of_nat take_bit_nat_eq_self)
  moreover have "sg_compare_id g' = sg_compare_id g" "first_variant g' \<noteq> None"
    using assms(5) by auto
  ultimately show "group_ok fc st' k g'" by (auto simp: group_ok_def v)
qed

lemma interner_extends_trans:
  assumes "interner_extends fc a b" and "interner_extends fc b c"
    and "repr_id_to_symbol b = repr_id_to_symbol a" and "compare_ids c = compare_ids b"
  shows "interner_extends fc a c"
  using assms by (auto simp: interner_extends_def)

lemma intern_ok:
  assumes ok: "interner_ok fc st" and room: "length (repr_id_to_symbol st) < 2 ^ 32"
    and run: "intern fc st s = Some (st', c, r)"
  shows "interner_ok fc st' \<and> symbol_lookup fc st' s = Some \<lparr>compare_id = c, repr_id = r\<rparr>
    \<and> interner_extends fc st st'"
proof -
  obtain st1 g where g1: "intern_group fc st s = Some (st1, g)"
    using run by (auto simp: intern_def split: option.splits)
  obtain st2 g' d where v: "get_or_insert_variant st1 g s = (st2, g', d)"
    by (metis prod_cases3)
  have st': "st' = st2\<lparr>groups := hm_insert (fc s) g' (groups st2)\<rparr>"
    and cr: "\<lparr>compare_id = c, repr_id = r\<rparr> = symbol_of d"
    using run g1 v by (auto simp: intern_def symbol_of_def)
  have G: "interner_ok fc st1" "map_of (groups st1) (fc s) = Some g"
    "repr_id_to_symbol st1 = repr_id_to_symbol st" "interner_extends fc st st1"
    using intern_group_ok [OF ok g1] by auto
  have gok: "group_ok fc st1 (fc s) g" using G(1, 2) by (auto simp: interner_ok_def)
  have first: "first_variant g = None \<longrightarrow> overflow_variants g = []"
    using gok by (simp add: group_ok_def)
  show ?thesis
  proof (cases "find (\<lambda>v. original_string v = s) (variants g)")
    case (Some w)
    then have eq: "st2 = st1" "g' = g" "d = w"
      using v by (auto simp: get_or_insert_variant_nf [OF first])
    have "map_of (groups st') = map_of (groups st1)" "compare_ids st' = compare_ids st1"
      "repr_id_to_symbol st' = repr_id_to_symbol st1"
      using G(2) by (auto simp: st' eq)
    then show ?thesis using G Some
      by (auto simp: cr eq interner_ok_def group_ok_def interner_extends_def symbol_lookup_def)
  next
    case None
    then obtain mk: "make_symbol_data st1 s (sg_compare_id g) = (st2, d)"
      and g': "g' = (if first_variant g = None then g\<lparr>first_variant := Some d\<rparr>
               else g\<lparr>overflow_variants := overflow_variants g @ [d]\<rparr>)"
      using v by (auto simp: get_or_insert_variant_nf [OF first] Let_def split: prod.splits)
    have "length (repr_id_to_symbol st1) < 2 ^ 32" using room G(3) by simp
    note A = group_ok_add_variant [OF gok refl this mk g']
    have old: "group_ok fc st2 k h" if "map_of (groups st1) k = Some h" for k h
      by (rule group_ok_mono [of fc st1]) (use G(1) that A(4, 6) in \<open>auto simp: interner_ok_def\<close>)
    have sub: "group_ok fc st' k h \<longleftrightarrow> group_ok fc st2 k h" for k h
      by (simp add: group_ok_def st')
    have "interner_ok fc st'"
      using A(1) old sub by (auto simp: interner_ok_def st' A(5))
    moreover have "symbol_lookup fc st' s = Some (symbol_of d)"
      using None by (simp add: symbol_lookup_def st' A(2, 3) find_append)
    moreover have "interner_extends fc st1 st'"
      using G(2) A by (auto simp: interner_extends_def symbol_lookup_def st' find_append
          split: option.splits)
    then have "interner_extends fc st st'"
      by (rule interner_extends_trans [OF G(4)]) (simp_all add: G(3) st' A(4))
    ultimately show ?thesis by (simp add: cr)
  qed
qed

lemma intern_returns:
  assumes "length (compare_ids st) < 2 ^ 32"
  shows "\<exists>st' c r. intern fc st s = Some (st', c, r)"
proof -
  have "\<exists>x. intern_group fc st s = Some x"
    using claim_loop_returns [OF assms, of fc s "preferred_compare_id fc s"]
    by (auto simp: intern_group_def claim_compare_id_def Let_def split: option.split)
  then show ?thesis by (auto simp: intern_def Let_def split: prod.split)
qed

lemma symbol_lookup_string:
  assumes "interner_ok fc st" and "symbol_lookup fc st s = Some y"
  shows "symbol_as_string st y = Some s"
    and "\<exists>t. map_of (compare_ids st) (compare_id y) = Some t \<and> fc t = fc s"
    and "\<exists>g. map_of (groups st) (fc s) = Some g \<and> compare_id y = sg_compare_id g"
proof -
  obtain g v where g: "map_of (groups st) (fc s) = Some g" and y: "y = symbol_of v"
    and v: "v \<in> set (variants g)" "original_string v = s"
    using assms(2) by (auto simp: symbol_lookup_def find_Some_iff split: option.splits)
  have gok: "group_ok fc st (fc s) g" using assms(1) g by (simp add: interner_ok_def)
  then have "variant_ok fc (repr_id_to_symbol st) (fc s) (sg_compare_id g) v"
    using v by (simp add: group_ok_def list_all_iff)
  then show "symbol_as_string st y = Some s"
    "\<exists>g. map_of (groups st) (fc s) = Some g \<and> compare_id y = sg_compare_id g"
    using g v by (auto simp: symbol_as_string_def get_repr_data_by_repr_id_def variant_ok_def y
        symbol_of_def)
  then show "\<exists>t. map_of (compare_ids st) (compare_id y) = Some t \<and> fc t = fc s"
    using gok g by (auto simp: group_ok_def)
qed

section \<open>Histories\<close>

definition cache_ok :: "(string \<Rightarrow> string) \<Rightarrow> interner \<Rightarrow> symbol_cache \<Rightarrow> bool" where
  "cache_ok fc st c \<longleftrightarrow> (\<forall>s y. Some (s, y) \<in> set (sc_entries c) \<longrightarrow> symbol_lookup fc st s = Some y)"

definition symbol_world_ok :: "(string \<Rightarrow> string) \<Rightarrow> symbol_world \<Rightarrow> bool" where
  "symbol_world_ok fc w \<longleftrightarrow>
     interner_ok fc (sw_interner w) \<and> (\<forall>th. cache_ok fc (sw_interner w) (sw_caches w th))"

lemma cache_find_in: "cache_find es s = Some y \<Longrightarrow> Some (s, y) \<in> set es"
  by (induction es s rule: cache_find.induct) (auto split: if_splits)

lemma cache_update_set: "cache_update es s y = Some es' \<Longrightarrow> set es' \<subseteq> insert (Some (s, y)) (set es)"
  by (induction es s y arbitrary: es' rule: cache_update.induct) (auto split: if_splits)

lemma cache_insert_ok:
  assumes "cache_ok fc st c" and "symbol_lookup fc st s = Some y"
  shows "cache_ok fc st (symbol_cache_insert c s y)"
proof -
  have "set (sc_entries (symbol_cache_insert c s y)) \<subseteq> insert (Some (s, y)) (set (sc_entries c))"
    using cache_update_set [of "sc_entries c" s y]
      set_update_subset_insert [of "sc_entries c" "next_slot c" "Some (s, y)"]
    by (auto simp: symbol_cache_insert_def split: option.splits)
  then show ?thesis using assms by (fastforce simp: cache_ok_def)
qed

lemma cache_ok_mono: "cache_ok fc st c \<Longrightarrow> interner_extends fc st st' \<Longrightarrow> cache_ok fc st' c"
  by (auto simp: cache_ok_def interner_extends_def)

lemma symbol_world_new_ok: "symbol_world_ok fc symbol_world_new"
  by (auto simp: symbol_world_ok_def symbol_world_new_def interner_ok_def interner_new_def
      cache_ok_def symbol_cache_new_def)

lemma symbol_mk_ok:
  assumes ok: "symbol_world_ok fc w" and room: "length (repr_id_to_symbol (sw_interner w)) < 2 ^ 32"
    and run: "symbol_mk fc w th s = Some (w', y)"
  shows "symbol_world_ok fc w' \<and> symbol_lookup fc (sw_interner w') s = Some y
    \<and> interner_extends fc (sw_interner w) (sw_interner w')"
proof (cases "symbol_cache_get (sw_caches w th) s")
  case (Some z)
  then have "symbol_lookup fc (sw_interner w) s = Some z"
    using ok cache_find_in by (fastforce simp: symbol_world_ok_def cache_ok_def symbol_cache_get_def)
  then show ?thesis using ok run Some by (auto simp: symbol_mk_def interner_extends_def)
next
  case None
  then obtain st c r where i: "intern fc (sw_interner w) s = Some (st, c, r)"
    and y: "y = \<lparr>compare_id = c, repr_id = r\<rparr>"
    and w': "w' = w\<lparr>sw_interner := st,
        sw_caches := (sw_caches w)(th := symbol_cache_insert (sw_caches w th) s y)\<rparr>"
    using run by (auto simp: symbol_mk_def Let_def split: option.splits)
  from ok have iok: "interner_ok fc (sw_interner w)" by (simp add: symbol_world_ok_def)
  from intern_ok [OF iok room i] show ?thesis
    using ok by (auto simp: symbol_world_ok_def w' y intro: cache_ok_mono cache_insert_ok)
qed

lemma symbol_mk_returns:
  "length (compare_ids (sw_interner w)) < 2 ^ 32 \<Longrightarrow> \<exists>w' y. symbol_mk fc w th s = Some (w', y)"
  using intern_returns [of "sw_interner w" fc s]
  by (auto simp: symbol_mk_def Let_def split: option.split)

definition world_room :: "symbol_world \<Rightarrow> nat \<Rightarrow> bool" where
  "world_room w n \<longleftrightarrow> length (repr_id_to_symbol (sw_interner w)) + n \<le> 2 ^ 32
     \<and> length (compare_ids (sw_interner w)) + n \<le> 2 ^ 32"

lemma symbol_mks_ok:
  assumes "symbol_world_ok fc w" and "world_room w (length cs)"
  shows "\<exists>w' ys. symbol_mks fc w cs = Some (w', ys) \<and> symbol_world_ok fc w'
    \<and> length ys = length cs
    \<and> (\<forall>i < length cs. symbol_lookup fc (sw_interner w') (snd (cs ! i)) = Some (ys ! i))
    \<and> (\<forall>s y. symbol_lookup fc (sw_interner w) s = Some y
         \<longrightarrow> symbol_lookup fc (sw_interner w') s = Some y)"
  using assms
proof (induction cs arbitrary: w)
  case (Cons c cs)
  obtain th s where c: "c = (th, s)" by fastforce
  have room: "length (repr_id_to_symbol (sw_interner w)) < 2 ^ 32"
    "length (compare_ids (sw_interner w)) < 2 ^ 32"
    using Cons.prems(2) by (auto simp: world_room_def)
  obtain w1 y where mk: "symbol_mk fc w th s = Some (w1, y)"
    using symbol_mk_returns [OF room(2)] by blast
  note m = symbol_mk_ok [OF Cons.prems(1) room(1) mk]
  have "world_room w1 (length cs)"
    using m Cons.prems(2) by (auto simp: world_room_def interner_extends_def)
  from Cons.IH [OF _ this] m obtain w' ys where "symbol_mks fc w1 cs = Some (w', ys)"
    "symbol_world_ok fc w'" "length ys = length cs"
    "\<forall>i < length cs. symbol_lookup fc (sw_interner w') (snd (cs ! i)) = Some (ys ! i)"
    "\<forall>s y. symbol_lookup fc (sw_interner w1) s = Some y
       \<longrightarrow> symbol_lookup fc (sw_interner w') s = Some y"
    by blast
  with m mk show ?case
    by (auto simp: c nth_Cons interner_extends_def split: nat.split)
qed simp

section \<open>Properties\<close>

text \<open>
  C33. For every history of at most \<open>2 ^ 32\<close> calls of \<open>Symbol::mk\<close>, on any threads, every call
  returns; two of the symbols are equal exactly when their texts are the same up to case, they
  have the same spelling exactly when the texts are equal, and each symbol gives back the text it
  was made from. Colliding hashes do not confuse two texts.
\<close>

theorem symbols_identify_texts:
  assumes "length cs \<le> 2 ^ 32"
  shows "\<exists>w ys. symbol_mks fc symbol_world_new cs = Some (w, ys) \<and> length ys = length cs
    \<and> (\<forall>i < length cs. symbol_as_string (sw_interner w) (ys ! i) = Some (snd (cs ! i)))
    \<and> (\<forall>i < length cs. \<forall>j < length cs.
         (symbol_eq (ys ! i) (ys ! j) \<longleftrightarrow> fc (snd (cs ! i)) = fc (snd (cs ! j)))
         \<and> (repr_id (ys ! i) = repr_id (ys ! j) \<longleftrightarrow> snd (cs ! i) = snd (cs ! j)))"
proof -
  have "world_room symbol_world_new (length cs)"
    using assms by (simp add: world_room_def symbol_world_new_def interner_new_def)
  from symbol_mks_ok [OF symbol_world_new_ok this] obtain w ys
    where run: "symbol_mks fc symbol_world_new cs = Some (w, ys)" and len: "length ys = length cs"
      and ok: "interner_ok fc (sw_interner w)"
      and lk: "\<And>i. i < length cs \<Longrightarrow> symbol_lookup fc (sw_interner w) (snd (cs ! i)) = Some (ys ! i)"
    unfolding symbol_world_ok_def by blast
  note str = symbol_lookup_string(1) [OF ok lk]
  have "(symbol_eq (ys ! i) (ys ! j) \<longleftrightarrow> fc (snd (cs ! i)) = fc (snd (cs ! j)))
      \<and> (repr_id (ys ! i) = repr_id (ys ! j) \<longleftrightarrow> snd (cs ! i) = snd (cs ! j))"
    if i: "i < length cs" and j: "j < length cs" for i j
  proof
    show "symbol_eq (ys ! i) (ys ! j) \<longleftrightarrow> fc (snd (cs ! i)) = fc (snd (cs ! j))"
      unfolding symbol_eq_def
      using symbol_lookup_string(2, 3) [OF ok lk [OF i]] symbol_lookup_string(2, 3) [OF ok lk [OF j]]
      by (metis option.inject)
    show "repr_id (ys ! i) = repr_id (ys ! j) \<longleftrightarrow> snd (cs ! i) = snd (cs ! j)"
      using str [OF i] str [OF j] lk [OF i] lk [OF j]
      unfolding symbol_as_string_def by (metis option.inject)
  qed
  with run len str show ?thesis by blast
qed

theorem symbols_identify_texts_witness:
  "\<exists>w ys. symbol_mks (map (\<lambda>c. if c = CHR ''A'' then CHR ''a'' else c)) symbol_world_new
       [(0, ''Aa''), (1, ''aA''), (0, ''b'')] = Some (w, ys)
     \<and> symbol_eq (ys ! 0) (ys ! Suc 0) \<and> \<not> symbol_eq (ys ! 0) (ys ! 2)
     \<and> symbol_as_string (sw_interner w) (ys ! Suc 0) = Some ''aA''"
proof -
  let ?fc = "map (\<lambda>c. if c = CHR ''A'' then CHR ''a'' else c)"
  let ?cs = "[(0 :: nat, ''Aa''), (1, ''aA''), (0, ''b'')]"
  have "length ?cs \<le> 2 ^ 32" by simp
  from symbols_identify_texts [OF this, of ?fc] obtain w ys
    where run: "symbol_mks ?fc symbol_world_new ?cs = Some (w, ys)"
      and str: "\<And>i. i < length ?cs \<Longrightarrow> symbol_as_string (sw_interner w) (ys ! i) = Some (snd (?cs ! i))"
      and eq: "\<And>i j. i < length ?cs \<Longrightarrow> j < length ?cs \<Longrightarrow>
        symbol_eq (ys ! i) (ys ! j) \<longleftrightarrow> ?fc (snd (?cs ! i)) = ?fc (snd (?cs ! j))"
    by blast
  have "symbol_eq (ys ! 0) (ys ! Suc 0)" "\<not> symbol_eq (ys ! 0) (ys ! 2)"
    using eq [of 0 1] eq [of 0 2] by simp_all
  moreover have "symbol_as_string (sw_interner w) (ys ! Suc 0) = Some ''aA''"
    using str [of 1] by simp
  ultimately show ?thesis using run by blast
qed

end
