(* ===== verification/TxTypes.thy ===== *)
theory TxTypes
  imports Index Obj Symbols
begin

text \<open>
  The vocabulary of the transaction layer: \<open>crates/db/src/tx/mod.rs\<close> (transactions, errors),
  \<open>ConflictInfo\<close> of \<open>crates/common/src/model/mod.rs\<close>, the operation log entries and working sets
  of \<open>crates/db/src/tx/transaction.rs\<close>, and the \<open>Provider\<close> trait of
  \<open>crates/db/src/provider/mod.rs\<close>.

  A trait a generic parameter must implement is a record of the functions the code calls:
  \<open>relation_domain\<close> for the \<open>Display\<close> and \<open>KeyTarget\<close> of a key, \<open>provider\<close> for the reading half
  of the backing store. The store itself is a third-party database: the record's functions are
  arbitrary, and \<open>provider_ok\<close> states what the interface documents of them.
\<close>

section \<open>Transactions, conflicts and errors\<close>

record tx =
  tx_ts :: timestamp
  tx_visible_ts :: timestamp
  tx_snapshot_version :: nat

datatype conflict_target =
    TargetObject obj
  | TargetProperty obj uuid "symbol_id option"

datatype conflict_type = InsertDuplicate | ConcurrentWrite | StaleRead | UpdateNonExistent

record conflict_info =
  ci_relation_name :: symbol
  ci_domain_key :: string
  ci_target :: "conflict_target option"
  ci_conflict_type :: conflict_type

datatype tx_error =
    Duplicate
  | Conflict conflict_info
  | RetrievalFailure string
  | StorageFailure string
  | EncodingFailure

record 'd relation_domain =
  rd_display :: "'d \<Rightarrow> string"
  rd_target :: "'d \<Rightarrow> conflict_target option"

definition make_conflict_info ::
  "'d relation_domain \<Rightarrow> symbol \<Rightarrow> 'd \<Rightarrow> conflict_type \<Rightarrow> conflict_info" where
  "make_conflict_info rd name d ct =
     \<lparr>ci_relation_name = name, ci_domain_key = rd_display rd d, ci_target = rd_target rd d,
      ci_conflict_type = ct\<rparr>"

section \<open>Operations and working sets\<close>

datatype 'c op_type = Insert 'c | Update 'c | Delete

definition is_insert :: "'c op_type \<Rightarrow> bool" where
  "is_insert ot \<longleftrightarrow> (case ot of Insert _ \<Rightarrow> True | _ \<Rightarrow> False)"

definition is_update :: "'c op_type \<Rightarrow> bool" where
  "is_update ot \<longleftrightarrow> (case ot of Update _ \<Rightarrow> True | _ \<Rightarrow> False)"

definition is_delete :: "'c op_type \<Rightarrow> bool" where
  "is_delete ot \<longleftrightarrow> (case ot of Delete \<Rightarrow> True | _ \<Rightarrow> False)"

record 'c op =
  read_ts :: timestamp
  write_ts :: timestamp
  operation :: "'c op_type"
  guaranteed_unique :: bool

record ('d, 'c) working_set =
  tuples :: "('d, 'c op) hmap"
  base_index :: "('d, 'c) relation_index"
  ws_fully_loaded :: bool

definition ws_new :: "('d, 'c op) hmap \<Rightarrow> ('d, 'c) relation_index \<Rightarrow> ('d, 'c) working_set" where
  "ws_new ts i = \<lparr>tuples = ts, base_index = i, ws_fully_loaded = False\<rparr>"

definition ws_new_shared ::
  "('d, 'c op) hmap \<Rightarrow> ('d, 'c) relation_index \<Rightarrow> bool \<Rightarrow> ('d, 'c) working_set" where
  "ws_new_shared ts i l = \<lparr>tuples = ts, base_index = i, ws_fully_loaded = l\<rparr>"

definition ws_len :: "('d, 'c) working_set \<Rightarrow> nat" where
  "ws_len ws = length (tuples ws)"

definition ws_is_empty :: "('d, 'c) working_set \<Rightarrow> bool" where
  "ws_is_empty ws \<longleftrightarrow> tuples ws = []"

definition base_value :: "('d, 'c) working_set \<Rightarrow> 'd \<Rightarrow> (timestamp \<times> 'c) option" where
  "base_value ws d = map_option (\<lambda>e. (ets e, evalue e)) (idx_lookup (base_index ws) d)"

text \<open>The value an operation leaves behind, \<open>None\<close> for a deletion.\<close>

fun op_type_value :: "'c op_type \<Rightarrow> 'c option" where
  "op_type_value (Insert c) = Some c"
| "op_type_value (Update c) = Some c"
| "op_type_value Delete = None"

abbreviation op_value :: "'c op \<Rightarrow> 'c option" where
  "op_value x \<equiv> op_type_value (operation x)"

lemma is_insert_simps [simp]:
  "is_insert (Insert c)" "\<not> is_insert (Update c)" "\<not> is_insert Delete"
  by (simp_all add: is_insert_def)

lemma is_update_simps [simp]:
  "\<not> is_update (Insert c)" "is_update (Update c)" "\<not> is_update Delete"
  by (simp_all add: is_update_def)

lemma is_delete_simps [simp]:
  "\<not> is_delete (Insert c)" "\<not> is_delete (Update c)" "is_delete Delete"
  by (simp_all add: is_delete_def)

lemma is_delete_iff_value: "is_delete ot \<longleftrightarrow> op_type_value ot = None"
  by (cases ot) simp_all

lemma is_delete_iff: "is_delete ot \<longleftrightarrow> ot = Delete"
  by (cases ot) simp_all

section \<open>Providers\<close>

record ('d, 'c) provider =
  src_get :: "'d \<Rightarrow> tx_error + (timestamp \<times> 'c) option"
  src_scan :: "('d \<Rightarrow> 'c \<Rightarrow> bool) \<Rightarrow> tx_error + (timestamp \<times> 'd \<times> 'c) list"

text \<open>
  The contract of a provider: a scan that succeeds returns one row for each key whose stored value
  satisfies the predicate, the row that \<open>get\<close> returns for that key.
\<close>

definition provider_ok :: "('d, 'c) provider \<Rightarrow> bool" where
  "provider_ok p \<longleftrightarrow> (\<forall>P rows. src_scan p P = Inr rows \<longrightarrow>
     distinct (map ins_dom rows) \<and>
     (\<forall>t d c. (t, d, c) \<in> set rows \<longleftrightarrow> src_get p d = Inr (Some (t, c)) \<and> P d c))"

text \<open>\<open>Provider::seed\<close>: load every stored row into an index and return the highest timestamp.\<close>

definition seed_row ::
  "timestamp \<times> ('d, 'c) relation_index \<Rightarrow> timestamp \<times> 'd \<times> 'c \<Rightarrow> timestamp \<times> ('d, 'c) relation_index"
  where
  "seed_row s row = (case row of (t, d, c) \<Rightarrow> (max (fst s) t, fst (idx_insert_entry (snd s) t d c)))"

definition provider_seed ::
  "('d, 'c) provider \<Rightarrow> ('d, 'c) relation_index \<Rightarrow> tx_error + timestamp \<times> ('d, 'c) relation_index"
  where
  "provider_seed p i =
     rbind (src_scan p (\<lambda>_ _. True)) (\<lambda>rows. Inr (foldl seed_row (0, i) rows))"

text \<open>A provider over an in-memory list of rows: an instance of the contract.\<close>

definition list_provider :: "(timestamp \<times> 'd \<times> 'c) list \<Rightarrow> ('d, 'c) provider" where
  "list_provider rows =
     \<lparr>src_get = (\<lambda>d. Inr (map_of (map (\<lambda>(t, d, c). (d, t, c)) rows) d)),
      src_scan = (\<lambda>P. Inr (filter (\<lambda>(t, d, c). P d c) rows))\<rparr>"

lemma list_provider_ok:
  assumes "distinct (map ins_dom rows)"
  shows "provider_ok (list_provider rows)"
proof -
  let ?m = "map (\<lambda>(t, d, c). (d, t, c)) rows"
  have ok: "hm_ok ?m"
    using assms by (simp add: comp_def case_prod_unfold)
  have mem: "(t, d, c) \<in> set rows \<longleftrightarrow> map_of ?m d = Some (t, c)" for t d c
    unfolding in_set_hm_iff [OF ok, symmetric] by (force simp: case_prod_unfold)
  have filt: "distinct (map ins_dom (filter P rows))" for P
    using assms by (simp add: distinct_map_filter)
  show ?thesis
    unfolding provider_ok_def list_provider_def
    by (auto simp: filt mem)
qed

lemma provider_scan_row:
  assumes "provider_ok p" "src_scan p P = Inr rows"
  shows "(t, d, c) \<in> set rows \<longleftrightarrow> src_get p d = Inr (Some (t, c)) \<and> P d c"
    and "distinct (map ins_dom rows)"
  using assms by (simp_all add: provider_ok_def)

end
