(* ===== verification/LocalOps.thy ===== *)
theory LocalOps
  imports TxTypes
begin

text \<open>
  The operation log of a transaction on one relation,
  \<open>crates/db/src/tx/transaction/local_operations.rs\<close>: a map from keys to operations and a cache of
  its reverse index, which is built at the first reverse lookup and dropped by every mutable
  access. \<open>get_mut\<close> returns a mutable borrow; in the model it returns the entry together with the
  log whose cache is dropped, and \<open>lo_assign\<close> is the assignment through the borrow. The cache sits
  in a \<open>RefCell\<close>, so a reverse lookup also returns the log.
\<close>

section \<open>Model\<close>

record ('d, 'c) local_operations =
  lo_entries :: "('d, 'c op) hmap"
  lo_codomains :: "('c, 'd list) hmap option"

definition lo_new :: "('d, 'c) local_operations" where
  "lo_new = \<lparr>lo_entries = [], lo_codomains = None\<rparr>"

definition lo_is_empty :: "('d, 'c) local_operations \<Rightarrow> bool" where
  "lo_is_empty lo \<longleftrightarrow> lo_entries lo = []"

abbreviation lo_get :: "('d, 'c) local_operations \<Rightarrow> 'd \<Rightarrow> 'c op option" where
  "lo_get lo \<equiv> map_of (lo_entries lo)"

definition lo_insert :: "('d, 'c) local_operations \<Rightarrow> 'd \<Rightarrow> 'c op \<Rightarrow> ('d, 'c) local_operations" where
  "lo_insert lo d x = lo\<lparr>lo_entries := hm_insert d x (lo_entries lo), lo_codomains := None\<rparr>"

definition lo_get_mut ::
  "('d, 'c) local_operations \<Rightarrow> 'd \<Rightarrow> ('c op \<times> ('d, 'c) local_operations) option" where
  "lo_get_mut lo d = map_option (\<lambda>x. (x, lo\<lparr>lo_codomains := None\<rparr>)) (lo_get lo d)"

definition lo_assign :: "('d, 'c) local_operations \<Rightarrow> 'd \<Rightarrow> 'c op \<Rightarrow> ('d, 'c) local_operations" where
  "lo_assign lo d x = lo\<lparr>lo_entries := hm_insert d x (lo_entries lo)\<rparr>"

definition lo_into_map :: "('d, 'c) local_operations \<Rightarrow> ('d, 'c op) hmap" where
  "lo_into_map lo = lo_entries lo"

definition lo_bucket :: "('c, 'd list) hmap \<Rightarrow> 'd \<times> 'c op \<Rightarrow> ('c, 'd list) hmap" where
  "lo_bucket buckets x =
     (case operation (snd x) of
        Insert v \<Rightarrow> hm_push v (fst x) buckets
      | Update v \<Rightarrow> hm_push v (fst x) buckets
      | Delete \<Rightarrow> buckets)"

definition lo_buckets :: "('d, 'c op) hmap \<Rightarrow> ('c, 'd list) hmap" where
  "lo_buckets m = foldl lo_bucket [] m"

definition lo_for_each_by_codomain ::
  "('d, 'c) local_operations \<Rightarrow> 'c \<Rightarrow> ('d, 'c) local_operations \<times> 'd list" where
  "lo_for_each_by_codomain lo c =
     (let lo' = (case lo_codomains lo of
                   None \<Rightarrow> lo\<lparr>lo_codomains := Some (lo_buckets (lo_entries lo))\<rparr>
                 | Some _ \<Rightarrow> lo)
      in (lo', case lo_codomains lo' of
                 None \<Rightarrow> []
               | Some cache \<Rightarrow> (case map_of cache c of None \<Rightarrow> [] | Some ds \<Rightarrow> ds)))"

section \<open>Invariant and reverse lookup\<close>

definition lo_ok :: "('d, 'c) local_operations \<Rightarrow> bool" where
  "lo_ok lo \<longleftrightarrow> hm_ok (lo_entries lo) \<and>
     (\<forall>cache. lo_codomains lo = Some cache \<longrightarrow> cache = lo_buckets (lo_entries lo))"

lemma lo_new_simps [simp]: "lo_entries lo_new = []" "lo_ok lo_new" "lo_is_empty lo_new"
  by (simp_all add: lo_new_def lo_ok_def lo_is_empty_def)

lemma lo_is_empty_get [simp]: "lo_is_empty lo \<Longrightarrow> lo_get lo d = None"
  by (simp add: lo_is_empty_def)

lemma lo_get_insert [simp]: "lo_get (lo_insert lo d x) = (lo_get lo)(d \<mapsto> x)"
  by (simp add: lo_insert_def)

lemma lo_get_assign [simp]: "lo_get (lo_assign lo d x) = (lo_get lo)(d \<mapsto> x)"
  by (simp add: lo_assign_def)

lemma lo_ok_insert [simp]: "lo_ok lo \<Longrightarrow> lo_ok (lo_insert lo d x)"
  by (simp add: lo_ok_def lo_insert_def)

lemma lo_get_mut_None [simp]: "lo_get_mut lo d = None \<longleftrightarrow> lo_get lo d = None"
  by (simp add: lo_get_mut_def)

lemma lo_get_mut_SomeD:
  "lo_get_mut lo d = Some (x, lo') \<Longrightarrow> lo_get lo d = Some x \<and> lo' = lo\<lparr>lo_codomains := None\<rparr>"
  by (auto simp: lo_get_mut_def)

lemma lo_drop_cache [simp]:
  "lo_ok lo \<Longrightarrow> lo_ok (lo\<lparr>lo_codomains := None\<rparr>)"
  "lo_ok lo \<Longrightarrow> lo_ok (lo_assign (lo\<lparr>lo_codomains := None\<rparr>) d x)"
  by (simp_all add: lo_ok_def lo_assign_def)

lemma lo_bucket_group:
  "hm_group (lo_bucket b x) c =
     (if op_value (snd x) = Some c then insert (fst x) (hm_group b c) else hm_group b c)"
  by (auto simp: lo_bucket_def split: op_type.splits)

lemma foldl_lo_bucket_group:
  "hm_group (foldl lo_bucket b m) c = hm_group b c \<union> {d. \<exists>x. (d, x) \<in> set m \<and> op_value x = Some c}"
proof (induction m arbitrary: b)
  case (Cons x m)
  then show ?case by (cases x) (auto simp: lo_bucket_group)
qed simp

lemma hm_push_distinct:
  assumes "\<forall>c ds. map_of b c = Some ds \<longrightarrow> distinct ds \<and> set ds \<subseteq> D" and "d \<notin> D"
  shows "\<forall>c ds. map_of (hm_push v d b) c = Some ds \<longrightarrow> distinct ds \<and> set ds \<subseteq> insert d D"
  using assms by (auto simp: hm_push_def split: if_splits option.splits)

lemma lo_bucket_distinct:
  assumes "\<forall>c ds. map_of b c = Some ds \<longrightarrow> distinct ds \<and> set ds \<subseteq> D" and "fst x \<notin> D"
  shows "\<forall>c ds. map_of (lo_bucket b x) c = Some ds \<longrightarrow> distinct ds \<and> set ds \<subseteq> insert (fst x) D"
proof (cases "operation (snd x)")
  case Delete
  then show ?thesis using assms(1) by (simp add: lo_bucket_def) blast
qed (use hm_push_distinct [OF assms] in \<open>simp_all add: lo_bucket_def\<close>)

lemma foldl_lo_bucket_distinct:
  assumes "\<forall>c ds. map_of b c = Some ds \<longrightarrow> distinct ds \<and> set ds \<subseteq> D"
    and "distinct (map fst m)" and "set (map fst m) \<inter> D = {}"
    and "map_of (foldl lo_bucket b m) c = Some ds"
  shows "distinct ds"
  using assms
proof (induction m arbitrary: b D)
  case (Cons x m)
  have "\<forall>c ds. map_of (lo_bucket b x) c = Some ds \<longrightarrow> distinct ds \<and> set ds \<subseteq> insert (fst x) D"
    using Cons.prems by (intro lo_bucket_distinct) auto
  then show ?case
    by (rule Cons.IH) (use Cons.prems in auto)
qed auto

lemma lo_for_each_entries [simp]: "lo_entries (fst (lo_for_each_by_codomain lo c)) = lo_entries lo"
  by (simp add: lo_for_each_by_codomain_def Let_def split: option.splits)

lemma lo_for_each_ok [simp]: "lo_ok lo \<Longrightarrow> lo_ok (fst (lo_for_each_by_codomain lo c))"
  by (auto simp: lo_ok_def lo_for_each_by_codomain_def Let_def split: option.splits)

lemma lo_for_each_result:
  assumes "lo_ok lo"
  shows "snd (lo_for_each_by_codomain lo c) =
    (case map_of (lo_buckets (lo_entries lo)) c of None \<Rightarrow> [] | Some ds \<Rightarrow> ds)"
  using assms by (auto simp: lo_ok_def lo_for_each_by_codomain_def Let_def split: option.splits)

lemma lo_for_each_exact:
  assumes "lo_ok lo"
  shows "distinct (snd (lo_for_each_by_codomain lo c))"
    and "d \<in> set (snd (lo_for_each_by_codomain lo c)) \<longleftrightarrow>
      (\<exists>x. lo_get lo d = Some x \<and> op_value x = Some c)"
proof -
  have ok: "hm_ok (lo_entries lo)"
    using assms by (simp add: lo_ok_def)
  show "distinct (snd (lo_for_each_by_codomain lo c))"
    unfolding lo_for_each_result [OF assms] lo_buckets_def
    using foldl_lo_bucket_distinct [of "[]" "{}" "lo_entries lo" c] ok
    by (auto split: option.splits)
  have "set (snd (lo_for_each_by_codomain lo c)) = hm_group (lo_buckets (lo_entries lo)) c"
    by (simp add: lo_for_each_result [OF assms] hm_group_def split: option.splits)
  then show "d \<in> set (snd (lo_for_each_by_codomain lo c)) \<longleftrightarrow>
      (\<exists>x. lo_get lo d = Some x \<and> op_value x = Some c)"
    by (simp add: lo_buckets_def foldl_lo_bucket_group in_set_hm_iff [OF ok])
qed

end
