(* ===== verification/RelTx.thy ===== *)
theory RelTx
  imports LocalOps
begin

text \<open>
  A transaction on one relation, \<open>RelationTransaction\<close> of \<open>crates/db/src/tx/transaction.rs\<close>: the
  snapshot's index (copied on the first write to it), the log of local operations and the backing
  source for rows the index does not hold. The record \<open>relation_transaction\<close> has the fields of
  \<open>RelationTransaction\<close> and of its \<open>Inner\<close>. An operation on \<open>&mut self\<close> returns the new
  transaction and its result; so does one on \<open>&self\<close> that fills the reverse lookup cache.

  \<open>rt_view\<close> is the specification: the map from keys to values a transaction sees. The lemmas show
  that every read agrees with the view, that every write refines an update of it, and that the log
  keeps the provenance the commit's conflict check relies on (\<open>rt_ok\<close>).
\<close>

section \<open>Model\<close>

datatype ('d, 'c, 'o) transaction_index =
    TIShared "('d, 'c) relation_index"
  | TIBorrowed 'o "'o \<Rightarrow> ('d, 'c) relation_index"
  | TIOwned "('d, 'c) relation_index"

fun ti_into_shared :: "('d, 'c, 'o) transaction_index \<Rightarrow> ('d, 'c) relation_index" where
  "ti_into_shared (TIShared i) = i"
| "ti_into_shared (TIBorrowed owner i) = i owner"
| "ti_into_shared (TIOwned i) = i"

fun ti_deref :: "('d, 'c, 'o) transaction_index \<Rightarrow> ('d, 'c) relation_index" where
  "ti_deref (TIShared i) = i"
| "ti_deref (TIBorrowed owner i) = i owner"
| "ti_deref (TIOwned i) = i"

text \<open>\<open>deref_mut\<close>: an index that is not owned is forked first.\<close>

fun ti_deref_mut :: "('d, 'c, 'o) transaction_index \<Rightarrow> ('d, 'c, 'o) transaction_index" where
  "ti_deref_mut (TIShared i) = TIOwned i"
| "ti_deref_mut (TIBorrowed owner i) = TIOwned (i owner)"
| "ti_deref_mut (TIOwned i) = TIOwned i"

definition ti_modify ::
  "(('d, 'c) relation_index \<Rightarrow> ('d, 'c) relation_index)
     \<Rightarrow> ('d, 'c, 'o) transaction_index \<Rightarrow> ('d, 'c, 'o) transaction_index" where
  "ti_modify f ti = TIOwned (f (ti_deref (ti_deref_mut ti)))"

datatype ('d, 'c, 'o) backing_source =
    BSShared "('d, 'c) provider"
  | BSBorrowed 'o "'o \<Rightarrow> ('d, 'c) provider"

fun bs_deref :: "('d, 'c, 'o) backing_source \<Rightarrow> ('d, 'c) provider" where
  "bs_deref (BSShared p) = p"
| "bs_deref (BSBorrowed owner p) = p owner"

record ('d, 'c, 'o) relation_transaction =
  rt_tx :: tx
  rt_relation_name :: symbol
  rt_domain :: "'d relation_domain"
  rt_local :: "('d, 'c) local_operations"
  rt_master :: "('d, 'c, 'o) transaction_index"
  rt_loaded :: bool
  rt_source :: "('d, 'c, 'o) backing_source"

definition rt_new_shared ::
  "tx \<Rightarrow> symbol \<Rightarrow> 'd relation_domain \<Rightarrow> ('d, 'c) relation_index \<Rightarrow> ('d, 'c) provider
     \<Rightarrow> ('d, 'c, 'o) relation_transaction" where
  "rt_new_shared tx name rd canonical source =
     \<lparr>rt_tx = tx, rt_relation_name = name, rt_domain = rd, rt_local = lo_new,
      rt_master = TIShared canonical,
      rt_loaded = idx_is_provider_fully_loaded canonical, rt_source = BSShared source\<rparr>"

definition rt_new_borrowed ::
  "tx \<Rightarrow> symbol \<Rightarrow> 'd relation_domain \<Rightarrow> 'o \<Rightarrow> ('o \<Rightarrow> ('d, 'c) relation_index)
     \<Rightarrow> ('o \<Rightarrow> ('d, 'c) provider) \<Rightarrow> ('d, 'c, 'o) relation_transaction" where
  "rt_new_borrowed tx name rd owner index source =
     \<lparr>rt_tx = tx, rt_relation_name = name, rt_domain = rd, rt_local = lo_new,
      rt_master = TIBorrowed owner index,
      rt_loaded = idx_is_provider_fully_loaded (index owner), rt_source = BSBorrowed owner source\<rparr>"

abbreviation visible_ts :: "('d, 'c, 'o) relation_transaction \<Rightarrow> timestamp" where
  "visible_ts t \<equiv> tx_visible_ts (rt_tx t)"

abbreviation rt_write_ts :: "('d, 'c, 'o) relation_transaction \<Rightarrow> timestamp" where
  "rt_write_ts t \<equiv> tx_ts (rt_tx t)"

abbreviation master_lookup :: "('d, 'c, 'o) relation_transaction \<Rightarrow> 'd \<Rightarrow> 'c entry option" where
  "master_lookup t \<equiv> idx_lookup (ti_deref (rt_master t))"

abbreviation mk_op :: "timestamp \<Rightarrow> timestamp \<Rightarrow> 'c op_type \<Rightarrow> bool \<Rightarrow> 'c op" where
  "mk_op r w ot g \<equiv> \<lparr>read_ts = r, write_ts = w, operation = ot, guaranteed_unique = g\<rparr>"

text \<open>\<open>local_operations.insert(domain, Op { .. })\<close>.\<close>

definition rt_log ::
  "('d, 'c, 'o) relation_transaction \<Rightarrow> 'd \<Rightarrow> 'c op \<Rightarrow> ('d, 'c, 'o) relation_transaction" where
  "rt_log t d x = t\<lparr>rt_local := lo_insert (rt_local t) d x\<rparr>"

definition rt_conflict :: "('d, 'c, 'o) relation_transaction \<Rightarrow> 'd \<Rightarrow> conflict_type \<Rightarrow> tx_error" where
  "rt_conflict t d ct = Conflict (make_conflict_info (rt_domain t) (rt_relation_name t) d ct)"

definition backing_get ::
  "('d, 'c, 'o) relation_transaction \<Rightarrow> 'd \<Rightarrow> tx_error + (timestamp \<times> 'c) option" where
  "backing_get t d =
     rbind (src_get (bs_deref (rt_source t)) d) (\<lambda>r.
       case r of
         None \<Rightarrow> Inr None
       | Some (ts, v) \<Rightarrow>
           if ts > visible_ts t then Inl (rt_conflict t d ConcurrentWrite) else Inr (Some (ts, v)))"

definition backing_scan ::
  "('d, 'c, 'o) relation_transaction \<Rightarrow> ('d \<Rightarrow> 'c \<Rightarrow> bool)
     \<Rightarrow> tx_error + (timestamp \<times> 'd \<times> 'c) list" where
  "backing_scan t P =
     rbind (src_scan (bs_deref (rt_source t)) P) (\<lambda>rows.
       case find (\<lambda>(ts, d, _). ts > visible_ts t \<and> master_lookup t d = None) rows of
         Some (_, d, _) \<Rightarrow> Inl (rt_conflict t d ConcurrentWrite)
       | None \<Rightarrow> Inr rows)"

subsection \<open>Writes\<close>

type_synonym ('d, 'c, 'o, 'r) rt_result = "('d, 'c, 'o) relation_transaction \<times> (tx_error + 'r)"

text \<open>The part of \<open>insert\<close> that follows the check of the local operations.\<close>

definition rt_insert_base ::
  "('d, 'c, 'o) relation_transaction \<Rightarrow> 'd \<Rightarrow> 'c \<Rightarrow> ('d, 'c, 'o, unit) rt_result" where
  "rt_insert_base t d v =
     (if master_lookup t d \<noteq> None then (t, Inl Duplicate)
      else case (if \<not> rt_loaded t then backing_get t d else Inr None) of
             Inl e \<Rightarrow> (t, Inl e)
           | Inr (Some _) \<Rightarrow> (t, Inl Duplicate)
           | Inr None \<Rightarrow>
               (rt_log t d (mk_op (rt_write_ts t) (rt_write_ts t) (Insert v) False), Inr ()))"

definition rt_insert ::
  "('d, 'c, 'o) relation_transaction \<Rightarrow> 'd \<Rightarrow> 'c \<Rightarrow> ('d, 'c, 'o, unit) rt_result" where
  "rt_insert t d v =
     (if lo_is_empty (rt_local t) then rt_insert_base t d v
      else case lo_get_mut (rt_local t) d of
             Some (x, lo) \<Rightarrow>
               if is_delete (operation x) then
                 (t\<lparr>rt_local := lo_assign lo d
                      (if read_ts x \<le> visible_ts t
                       then x\<lparr>write_ts := rt_write_ts t, operation := Update v\<rparr>
                       else x\<lparr>write_ts := rt_write_ts t, read_ts := rt_write_ts t,
                              operation := Insert v\<rparr>)\<rparr>, Inr ())
               else (t\<lparr>rt_local := lo\<rparr>, Inl Duplicate)
           | None \<Rightarrow> rt_insert_base t d v)"

definition rt_insert_guaranteed_unique ::
  "('d, 'c, 'o) relation_transaction \<Rightarrow> 'd \<Rightarrow> 'c \<Rightarrow> ('d, 'c, 'o, unit) rt_result" where
  "rt_insert_guaranteed_unique t d v =
     (rt_log t d (mk_op (rt_write_ts t) (rt_write_ts t) (Insert v) True), Inr ())"

text \<open>
  \<open>!local_operations.is_empty() && let Some(entry) = local_operations.get_mut(domain)\<close>, the guard
  of \<open>update\<close>, \<open>upsert\<close>, \<open>upsert_with\<close> and \<open>delete\<close>.
\<close>

definition rt_local_mut ::
  "('d, 'c, 'o) relation_transaction \<Rightarrow> 'd \<Rightarrow> ('c op \<times> ('d, 'c) local_operations) option" where
  "rt_local_mut t d = (if lo_is_empty (rt_local t) then None else lo_get_mut (rt_local t) d)"

definition rt_update ::
  "('d, 'c, 'o) relation_transaction \<Rightarrow> 'd \<Rightarrow> 'c \<Rightarrow> ('d, 'c, 'o, 'c option) rt_result" where
  "rt_update t d v =
     (case rt_local_mut t d of
        Some (x, lo) \<Rightarrow>
          (case operation x of
             Delete \<Rightarrow> (t\<lparr>rt_local := lo\<rparr>, Inr None)
           | Insert old \<Rightarrow>
               (t\<lparr>rt_local := lo_assign lo d (x\<lparr>write_ts := rt_write_ts t, operation := Insert v\<rparr>)\<rparr>,
                Inr (Some old))
           | Update old \<Rightarrow>
               (t\<lparr>rt_local := lo_assign lo d (x\<lparr>write_ts := rt_write_ts t, operation := Update v\<rparr>)\<rparr>,
                Inr (Some old)))
      | None \<Rightarrow>
          (case master_lookup t d of
             Some e \<Rightarrow>
               if ets e > visible_ts t then (t, Inr None)
               else (rt_log t d (mk_op (ets e) (rt_write_ts t) (Update v) False),
                     Inr (Some (evalue e)))
           | None \<Rightarrow>
               if rt_loaded t then (t, Inr None)
               else (case backing_get t d of
                       Inl e \<Rightarrow> (t, Inl e)
                     | Inr None \<Rightarrow> (t, Inr None)
                     | Inr (Some (rts, bv)) \<Rightarrow>
                         (rt_log t d (mk_op rts (rt_write_ts t) (Update v) False), Inr (Some bv)))))"

definition rt_upsert ::
  "('d, 'c, 'o) relation_transaction \<Rightarrow> 'd \<Rightarrow> 'c \<Rightarrow> ('d, 'c, 'o, 'c option) rt_result" where
  "rt_upsert t d v =
     (case rt_local_mut t d of
        Some (x, lo) \<Rightarrow>
          (case operation x of
             Delete \<Rightarrow>
               (t\<lparr>rt_local := lo_assign lo d
                    (if read_ts x \<le> visible_ts t
                     then x\<lparr>write_ts := rt_write_ts t, operation := Update v\<rparr>
                     else x\<lparr>read_ts := rt_write_ts t, write_ts := rt_write_ts t,
                            operation := Insert v\<rparr>)\<rparr>, Inr None)
           | Insert old \<Rightarrow>
               (t\<lparr>rt_local := lo_assign lo d (x\<lparr>write_ts := rt_write_ts t, operation := Insert v\<rparr>)\<rparr>,
                Inr (Some old))
           | Update old \<Rightarrow>
               (t\<lparr>rt_local := lo_assign lo d (x\<lparr>write_ts := rt_write_ts t, operation := Update v\<rparr>)\<rparr>,
                Inr (Some old)))
      | None \<Rightarrow>
          (case master_lookup t d of
             Some e \<Rightarrow>
               (rt_log t d (mk_op (ets e) (rt_write_ts t) (Update v) False), Inr (Some (evalue e)))
           | None \<Rightarrow>
               (case (if \<not> rt_loaded t then backing_get t d else Inr None) of
                  Inl e \<Rightarrow> (t, Inl e)
                | Inr (Some (rts, bv)) \<Rightarrow>
                    (rt_log t d (mk_op rts (rt_write_ts t) (Update v) False), Inr (Some bv))
                | Inr None \<Rightarrow>
                    (rt_log t d (mk_op (rt_write_ts t) (rt_write_ts t) (Insert v) False), Inr None))))"

definition rt_upsert_with ::
  "('d, 'c, 'o) relation_transaction \<Rightarrow> 'd \<Rightarrow> ('c option \<Rightarrow> 'c option)
     \<Rightarrow> ('d, 'c, 'o, 'c option) rt_result" where
  "rt_upsert_with t d f =
     (case rt_local_mut t d of
        Some (x, lo) \<Rightarrow>
          (case operation x of
             Delete \<Rightarrow>
               (case f None of
                  None \<Rightarrow> (t\<lparr>rt_local := lo\<rparr>, Inr None)
                | Some v \<Rightarrow>
                    (t\<lparr>rt_local := lo_assign lo d
                         (if read_ts x \<le> visible_ts t
                          then x\<lparr>write_ts := rt_write_ts t, operation := Update v\<rparr>
                          else x\<lparr>read_ts := rt_write_ts t, write_ts := rt_write_ts t,
                                 operation := Insert v\<rparr>)\<rparr>, Inr None))
           | Insert old \<Rightarrow>
               (case f (Some old) of
                  None \<Rightarrow> (t\<lparr>rt_local := lo\<rparr>, Inr (Some old))
                | Some v \<Rightarrow>
                    (t\<lparr>rt_local := lo_assign lo d
                         (x\<lparr>write_ts := rt_write_ts t, operation := Insert v\<rparr>)\<rparr>, Inr (Some old)))
           | Update old \<Rightarrow>
               (case f (Some old) of
                  None \<Rightarrow> (t\<lparr>rt_local := lo\<rparr>, Inr (Some old))
                | Some v \<Rightarrow>
                    (t\<lparr>rt_local := lo_assign lo d
                         (x\<lparr>write_ts := rt_write_ts t, operation := Update v\<rparr>)\<rparr>, Inr (Some old))))
      | None \<Rightarrow>
          (case master_lookup t d of
             Some e \<Rightarrow>
               (case f (Some (evalue e)) of
                  None \<Rightarrow> (t, Inr (Some (evalue e)))
                | Some v \<Rightarrow>
                    (rt_log t d (mk_op (ets e) (rt_write_ts t) (Update v) False),
                     Inr (Some (evalue e))))
           | None \<Rightarrow>
               (case (if \<not> rt_loaded t then backing_get t d else Inr None) of
                  Inl e \<Rightarrow> (t, Inl e)
                | Inr (Some (rts, bv)) \<Rightarrow>
                    (case f (Some bv) of
                       None \<Rightarrow> (t, Inr (Some bv))
                     | Some v \<Rightarrow>
                         (rt_log t d (mk_op rts (rt_write_ts t) (Update v) False), Inr (Some bv)))
                | Inr None \<Rightarrow>
                    (case f None of
                       None \<Rightarrow> (t, Inr None)
                     | Some v \<Rightarrow>
                         (rt_log t d (mk_op (rt_write_ts t) (rt_write_ts t) (Insert v) False),
                          Inr None)))))"

definition rt_update_with ::
  "('d, 'c, 'o) relation_transaction \<Rightarrow> 'd \<Rightarrow> ('c \<Rightarrow> 'c option)
     \<Rightarrow> ('d, 'c, 'o, 'c option) rt_result" where
  "rt_update_with t d f = rt_upsert_with t d (\<lambda>current. Option.bind current f)"

definition rt_delete ::
  "('d, 'c, 'o) relation_transaction \<Rightarrow> 'd \<Rightarrow> ('d, 'c, 'o, 'c option) rt_result" where
  "rt_delete t d =
     (case rt_local_mut t d of
        Some (x, lo) \<Rightarrow>
          (case operation x of
             Delete \<Rightarrow> (t\<lparr>rt_local := lo\<rparr>, Inr None)
           | Insert old \<Rightarrow>
               (t\<lparr>rt_local := lo_assign lo d (x\<lparr>write_ts := rt_write_ts t, operation := Delete\<rparr>)\<rparr>,
                Inr (Some old))
           | Update old \<Rightarrow>
               (t\<lparr>rt_local := lo_assign lo d (x\<lparr>write_ts := rt_write_ts t, operation := Delete\<rparr>)\<rparr>,
                Inr (Some old)))
      | None \<Rightarrow>
          (case master_lookup t d of
             Some e \<Rightarrow>
               (rt_log t d (mk_op (ets e) (rt_write_ts t) Delete False), Inr (Some (evalue e)))
           | None \<Rightarrow>
               if rt_loaded t then (t, Inr None)
               else (case backing_get t d of
                       Inl e \<Rightarrow> (t, Inl e)
                     | Inr None \<Rightarrow> (t, Inr None)
                     | Inr (Some (rts, bv)) \<Rightarrow>
                         (rt_log t d (mk_op rts (rt_write_ts t) Delete False), Inr (Some bv)))))"

subsection \<open>Reads\<close>

definition rt_has_domain :: "('d, 'c, 'o) relation_transaction \<Rightarrow> 'd \<Rightarrow> tx_error + bool" where
  "rt_has_domain t d =
     (case (if lo_is_empty (rt_local t) then None else lo_get (rt_local t) d) of
        Some x \<Rightarrow> Inr (\<not> is_delete (operation x))
      | None \<Rightarrow>
          if master_lookup t d \<noteq> None then Inr True
          else if rt_loaded t then Inr False
          else rbind (backing_get t d) (\<lambda>r. Inr (r \<noteq> None)))"

text \<open>The loop of \<open>check_domains\<close>; \<open>valid\<close> is the hash set built so far.\<close>

fun rt_check_domains_loop ::
  "('d, 'c, 'o) relation_transaction \<Rightarrow> 'd list \<Rightarrow> 'd list \<Rightarrow> tx_error + 'd list" where
  "rt_check_domains_loop t valid [] = Inr valid"
| "rt_check_domains_loop t valid (d # ds) =
     (case (if lo_is_empty (rt_local t) then None else lo_get (rt_local t) d) of
        Some x \<Rightarrow>
          (case operation x of
             Delete \<Rightarrow> rt_check_domains_loop t valid ds
           | _ \<Rightarrow> rt_check_domains_loop t (List.insert d valid) ds)
      | None \<Rightarrow>
          if master_lookup t d \<noteq> None then rt_check_domains_loop t (List.insert d valid) ds
          else if rt_loaded t then rt_check_domains_loop t valid ds
          else rbind (backing_get t d) (\<lambda>r.
                 rt_check_domains_loop t (if r \<noteq> None then List.insert d valid else valid) ds))"

definition rt_check_domains ::
  "('d, 'c, 'o) relation_transaction \<Rightarrow> 'd list \<Rightarrow> tx_error + 'd list" where
  "rt_check_domains t ds = rt_check_domains_loop t [] ds"

definition rt_get :: "('d, 'c, 'o) relation_transaction \<Rightarrow> 'd \<Rightarrow> tx_error + 'c option" where
  "rt_get t d =
     (if lo_is_empty (rt_local t) then
        (case master_lookup t d of
           Some e \<Rightarrow> Inr (Some (evalue e))
         | None \<Rightarrow>
             if rt_loaded t then Inr None
             else rbind (backing_get t d) (\<lambda>r. Inr (map_option snd r)))
      else
        (case lo_get (rt_local t) d of
           Some x \<Rightarrow>
             (case operation x of
                Delete \<Rightarrow> Inr None
              | Insert v \<Rightarrow> Inr (Some v)
              | Update v \<Rightarrow> Inr (Some v))
         | None \<Rightarrow>
             (case master_lookup t d of
                Some e \<Rightarrow> Inr (Some (evalue e))
              | None \<Rightarrow>
                  if rt_loaded t then Inr None
                  else rbind (backing_get t d) (\<lambda>r. Inr (map_option snd r)))))"

definition rt_with_domain_value ::
  "('d, 'c, 'o) relation_transaction \<Rightarrow> 'd \<Rightarrow> ('c \<Rightarrow> 'r) \<Rightarrow> tx_error + 'r option" where
  "rt_with_domain_value t d f =
     (if lo_is_empty (rt_local t) then
        (case master_lookup t d of
           Some e \<Rightarrow> Inr (Some (f (evalue e)))
         | None \<Rightarrow>
             if rt_loaded t then Inr None
             else rbind (backing_get t d) (\<lambda>r. Inr (map_option (\<lambda>p. f (snd p)) r)))
      else
        (case lo_get (rt_local t) d of
           Some x \<Rightarrow>
             (case operation x of
                Delete \<Rightarrow> Inr None
              | Insert v \<Rightarrow> Inr (Some (f v))
              | Update v \<Rightarrow> Inr (Some (f v)))
         | None \<Rightarrow>
             (case master_lookup t d of
                Some e \<Rightarrow> Inr (Some (f (evalue e)))
              | None \<Rightarrow>
                  if rt_loaded t then Inr None
                  else rbind (backing_get t d) (\<lambda>r. Inr (map_option (\<lambda>p. f (snd p)) r)))))"

text \<open>\<open>seen.insert(d)\<close> guarding a visit: the set of seen domains is the list of visited ones.\<close>

definition visit :: "('d \<Rightarrow> bool) \<Rightarrow> 'd list \<Rightarrow> 'd \<Rightarrow> 'd list" where
  "visit keep seen d = (if keep d \<and> d \<notin> set seen then seen @ [d] else seen)"

definition rt_for_each_unloaded_by_codomain ::
  "('d, 'c, 'o) relation_transaction \<Rightarrow> 'c \<Rightarrow> tx_error + 'd list" where
  "rt_for_each_unloaded_by_codomain t c =
     rbind (backing_scan t (\<lambda>_ v. v = c)) (\<lambda>rows.
       let seen = foldl (visit (\<lambda>d.
                      \<not> (case master_lookup t d of None \<Rightarrow> False | Some e \<Rightarrow> evalue e \<noteq> c)
                      \<and> lo_get (rt_local t) d = None)) [] (map ins_dom rows)
       in Inr (foldl (visit (\<lambda>d. lo_get (rt_local t) d = None)) seen
            (idx_for_each_by_codomain (ti_deref (rt_master t)) c)))"

text \<open>The domains \<open>for_each_by_codomain\<close> visits, in order; \<open>get_by_codomain\<close> collects them.\<close>

definition rt_for_each_by_codomain ::
  "('d, 'c, 'o) relation_transaction \<Rightarrow> 'c \<Rightarrow> ('d, 'c, 'o, 'd list) rt_result" where
  "rt_for_each_by_codomain t c =
     (case (if rt_loaded t
            then Inr (filter (\<lambda>d. lo_get (rt_local t) d = None)
                   (idx_for_each_by_codomain (ti_deref (rt_master t)) c))
            else rt_for_each_unloaded_by_codomain t c) of
        Inl e \<Rightarrow> (t, Inl e)
      | Inr base \<Rightarrow>
          if lo_is_empty (rt_local t) then (t, Inr base)
          else (let (lo, mine) = lo_for_each_by_codomain (rt_local t) c
                in (t\<lparr>rt_local := lo\<rparr>, Inr (base @ mine))))"

definition rt_get_by_codomain ::
  "('d, 'c, 'o) relation_transaction \<Rightarrow> 'c \<Rightarrow> ('d, 'c, 'o, 'd list) rt_result" where
  "rt_get_by_codomain t c = rt_for_each_by_codomain t c"

text \<open>The loops of \<open>scan\<close>; \<open>res\<close> is the hash map of results.\<close>

definition scan_rows ::
  "('d, 'c, 'o) relation_transaction \<Rightarrow> ('d \<Rightarrow> 'c \<Rightarrow> bool) \<Rightarrow> ('d, 'c) hmap
     \<Rightarrow> (timestamp \<times> 'd \<times> 'c) list \<Rightarrow> ('d, 'c) hmap" where
  "scan_rows t P = foldl (\<lambda>res (_, d, v).
     if master_lookup t d = None \<and> P d v then hm_insert d v res else res)"

definition scan_master ::
  "('d, 'c, 'o) relation_transaction \<Rightarrow> ('d \<Rightarrow> 'c \<Rightarrow> bool) \<Rightarrow> ('d, 'c) hmap
     \<Rightarrow> ('d \<times> 'c entry) list \<Rightarrow> ('d, 'c) hmap" where
  "scan_master t P = foldl (\<lambda>res (d, e).
     if ets e \<le> visible_ts t \<and> P d (evalue e) then hm_insert d (evalue e) res else res)"

definition scan_local ::
  "('d \<Rightarrow> 'c \<Rightarrow> bool) \<Rightarrow> ('d, 'c) hmap \<Rightarrow> ('d \<times> 'c op) list \<Rightarrow> ('d, 'c) hmap" where
  "scan_local P = foldl (\<lambda>res (d, x).
     case operation x of
       Insert v \<Rightarrow> if P d v then hm_insert d v res else res
     | Update v \<Rightarrow> if P d v then hm_insert d v res else res
     | Delete \<Rightarrow> hm_remove d res)"

definition rt_scan ::
  "('d, 'c, 'o) relation_transaction \<Rightarrow> ('d \<Rightarrow> 'c \<Rightarrow> bool) \<Rightarrow> tx_error + ('d \<times> 'c) list" where
  "rt_scan t P =
     rbind (if rt_loaded t
            then Inr (scan_master t P [] (idx_iter (ti_deref (rt_master t))))
            else rbind (backing_scan t P) (\<lambda>rows.
                   Inr (scan_master t P (scan_rows t P [] rows)
                     (idx_iter (ti_deref (rt_master t))))))
       (\<lambda>res. Inr (scan_local P res (lo_entries (rt_local t))))"

definition fill_missing ::
  "('d, 'c) relation_index \<Rightarrow> timestamp \<times> 'd \<times> 'c \<Rightarrow> ('d, 'c) relation_index" where
  "fill_missing i row = (case row of (ts, d, c) \<Rightarrow>
     if idx_lookup i d = None then fst (idx_insert_entry i ts d c) else i)"

definition rt_fully_load_from_provider ::
  "('d, 'c, 'o) relation_transaction \<Rightarrow> ('d, 'c, 'o, unit) rt_result" where
  "rt_fully_load_from_provider t =
     (case backing_scan t (\<lambda>_ _. True) of
        Inl e \<Rightarrow> (t, Inl e)
      | Inr rows \<Rightarrow>
          (t\<lparr>rt_master := ti_modify (\<lambda>i. idx_set_provider_fully_loaded (foldl fill_missing i rows) True)
                           (rt_master t)\<rparr>, Inr ()))"

text \<open>The loops of \<open>get_all\<close>.\<close>

definition rt_get_all ::
  "('d, 'c, 'o) relation_transaction \<Rightarrow> ('d, 'c, 'o, ('d \<times> 'c) list) rt_result" where
  "rt_get_all t =
     (case (if \<not> rt_loaded t
            then (case rt_fully_load_from_provider t of
                    (t', Inl e) \<Rightarrow> (t', Inl e)
                  | (t', Inr u) \<Rightarrow> (t'\<lparr>rt_loaded := True\<rparr>, Inr u))
            else (t, Inr ())) of
        (t', Inl e) \<Rightarrow> (t', Inl e)
      | (t', Inr _) \<Rightarrow>
          (t', Inr (scan_local (\<lambda>_ _. True)
                     (foldl (\<lambda>res (d, e).
                        if ets e \<le> visible_ts t' then hm_insert d (evalue e) res else res) []
                        (idx_iter (ti_deref (rt_master t'))))
                     (lo_entries (rt_local t')))))"

fun rt_bulk_get_loop ::
  "('d, 'c, 'o) relation_transaction \<Rightarrow> ('d, 'c) hmap \<Rightarrow> 'd list \<Rightarrow> tx_error + ('d \<times> 'c) list" where
  "rt_bulk_get_loop t res [] = Inr res"
| "rt_bulk_get_loop t res (d # ds) =
     (case (if lo_is_empty (rt_local t) then None else lo_get (rt_local t) d) of
        Some x \<Rightarrow>
          (case operation x of
             Delete \<Rightarrow> rt_bulk_get_loop t res ds
           | Insert v \<Rightarrow> rt_bulk_get_loop t (hm_insert d v res) ds
           | Update v \<Rightarrow> rt_bulk_get_loop t (hm_insert d v res) ds)
      | None \<Rightarrow>
          (case (case master_lookup t d of
                   None \<Rightarrow> None
                 | Some e \<Rightarrow> if ets e \<le> visible_ts t then Some e else None) of
             Some e \<Rightarrow> rt_bulk_get_loop t (hm_insert d (evalue e) res) ds
           | None \<Rightarrow>
               if rt_loaded t then rt_bulk_get_loop t res ds
               else rbind (backing_get t d) (\<lambda>r.
                      rt_bulk_get_loop t
                        (case r of None \<Rightarrow> res | Some (_, v) \<Rightarrow> hm_insert d v res) ds)))"

definition rt_bulk_get ::
  "('d, 'c, 'o) relation_transaction \<Rightarrow> 'd list \<Rightarrow> tx_error + ('d \<times> 'c) list" where
  "rt_bulk_get t ds = rt_bulk_get_loop t [] ds"

definition rt_has_mutations :: "('d, 'c, 'o) relation_transaction \<Rightarrow> bool" where
  "rt_has_mutations t \<longleftrightarrow> \<not> lo_is_empty (rt_local t)"

definition rt_working_set :: "('d, 'c, 'o) relation_transaction \<Rightarrow> ('d, 'c) working_set" where
  "rt_working_set t =
     ws_new_shared (lo_into_map (rt_local t)) (ti_into_shared (rt_master t)) (rt_loaded t)"

section \<open>The view of a transaction\<close>

text \<open>
  \<open>rt_base\<close> is what a transaction saw of a key at its start, with the timestamp it read;
  \<open>rt_view\<close> lays the local operations over it.
\<close>

definition rt_base ::
  "('d, 'c, 'o) relation_transaction \<Rightarrow> 'd \<Rightarrow> tx_error + (timestamp \<times> 'c) option" where
  "rt_base t d =
     (case master_lookup t d of
        Some e \<Rightarrow> Inr (Some (ets e, evalue e))
      | None \<Rightarrow> if rt_loaded t then Inr None else backing_get t d)"

definition rt_view :: "('d, 'c, 'o) relation_transaction \<Rightarrow> 'd \<Rightarrow> tx_error + 'c option" where
  "rt_view t d =
     (case lo_get (rt_local t) d of
        Some x \<Rightarrow> Inr (op_value x)
      | None \<Rightarrow> rbind (rt_base t d) (\<lambda>r. Inr (map_option snd r)))"

text \<open>
  The invariant. Every operation of the log carries the transaction's write timestamp, and its
  read timestamp tells what the transaction saw of the key: that of the base row it replaces, or
  the transaction's own timestamp for a key it found absent.
\<close>

definition op_ok :: "('d, 'c, 'o) relation_transaction \<Rightarrow> 'd \<Rightarrow> 'c op \<Rightarrow> bool" where
  "op_ok t d x \<longleftrightarrow> write_ts x = rt_write_ts t
     \<and> (is_insert (operation x) \<longrightarrow> read_ts x = rt_write_ts t)
     \<and> (is_update (operation x) \<longrightarrow> read_ts x \<noteq> rt_write_ts t)
     \<and> (guaranteed_unique x \<longrightarrow> read_ts x = rt_write_ts t)
     \<and> (read_ts x = rt_write_ts t \<longrightarrow> \<not> guaranteed_unique x \<longrightarrow> rt_base t d = Inr None)
     \<and> (read_ts x \<noteq> rt_write_ts t \<longrightarrow>
          read_ts x \<le> visible_ts t \<and> (\<exists>v. rt_base t d = Inr (Some (read_ts x, v))))"

definition rt_ok :: "('d, 'c, 'o) relation_transaction \<Rightarrow> bool" where
  "rt_ok t \<longleftrightarrow> idx_ok (ti_deref (rt_master t)) \<and> lo_ok (rt_local t)
     \<and> visible_ts t < rt_write_ts t
     \<and> rt_loaded t = idx_is_provider_fully_loaded (ti_deref (rt_master t))
     \<and> (\<forall>d e. master_lookup t d = Some e \<longrightarrow> ets e \<le> visible_ts t)
     \<and> (\<forall>d x. lo_get (rt_local t) d = Some x \<longrightarrow> op_ok t d x)"

subsection \<open>Frames\<close>

lemma ti_simps [simp]:
  "ti_deref (ti_deref_mut ti) = ti_deref ti"
  "ti_into_shared ti = ti_deref ti"
  "ti_deref (ti_modify f ti) = f (ti_deref ti)"
  by (cases ti; simp add: ti_modify_def)+

lemma rt_local_mut_eq [simp]: "rt_local_mut t d = lo_get_mut (rt_local t) d"
  by (simp add: rt_local_mut_def lo_get_mut_def)

lemma lo_get_guard [simp]: "(if lo_is_empty lo then None else lo_get lo d) = lo_get lo d"
  by simp

lemma rt_log_simps [simp]:
  "rt_local (rt_log t d x) = lo_insert (rt_local t) d x"
  "rt_master (rt_log t d x) = rt_master t" "rt_tx (rt_log t d x) = rt_tx t"
  "rt_loaded (rt_log t d x) = rt_loaded t" "rt_source (rt_log t d x) = rt_source t"
  "rt_relation_name (rt_log t d x) = rt_relation_name t" "rt_domain (rt_log t d x) = rt_domain t"
  by (simp_all add: rt_log_def)

lemma backing_get_frame [simp]:
  "backing_get (t\<lparr>rt_local := lo\<rparr>) = backing_get t"
  "backing_get (t\<lparr>rt_master := m\<rparr>) = backing_get t"
  "backing_get (t\<lparr>rt_loaded := b\<rparr>) = backing_get t"
  "backing_get (rt_log t d x) = backing_get t"
  by (intro ext; simp add: backing_get_def rt_conflict_def cong: option.case_cong if_cong)+

lemma rt_base_frame [simp]:
  "rt_base (t\<lparr>rt_local := lo\<rparr>) = rt_base t" "rt_base (rt_log t d x) = rt_base t"
  by (intro ext; simp add: rt_base_def split: option.splits)+

lemma rt_view_assign [simp]:
  "rt_view (t\<lparr>rt_local := lo_assign (lo\<lparr>lo_codomains := c\<rparr>) d x\<rparr>) =
     (rt_view (t\<lparr>rt_local := lo\<rparr>))(d := Inr (op_value x))"
  by (intro ext) (simp add: rt_view_def lo_assign_def split: option.splits)

lemma rt_view_log [simp]: "rt_view (rt_log t d x) = (rt_view t)(d := Inr (op_value x))"
  by (intro ext) (simp add: rt_view_def split: option.splits)

lemma rt_view_drop_cache [simp]: "rt_view (t\<lparr>rt_local := lo\<lparr>lo_codomains := c\<rparr>\<rparr>) = rt_view (t\<lparr>rt_local := lo\<rparr>)"
  by (intro ext) (simp add: rt_view_def split: option.splits)

lemma rt_local_same [simp]: "t\<lparr>rt_local := rt_local t\<rparr> = t"
  by simp

subsection \<open>Reads agree with the view\<close>

lemma rt_get_eq_view: "rt_get t d = rt_view t d"
  by (auto simp: rt_get_def rt_view_def rt_base_def split: option.splits op_type.splits)

lemma rt_with_domain_value_eq_view:
  "rt_with_domain_value t d f = rbind (rt_view t d) (\<lambda>r. Inr (map_option f r))"
  by (cases "backing_get t d")
    (auto simp: rt_with_domain_value_def rt_view_def rt_base_def option.map_comp comp_def
      split: option.splits op_type.splits)

lemma rt_has_domain_eq_view: "rt_has_domain t d = rbind (rt_view t d) (\<lambda>r. Inr (r \<noteq> None))"
  by (cases "backing_get t d")
    (auto simp: rt_has_domain_def rt_view_def rt_base_def is_delete_iff_value split: option.splits)

subsection \<open>Normal forms of the writes\<close>

text \<open>
  The fast paths disappear: a write looks at the local operation of its key and, when there is
  none, at the base. \<open>fresh_op\<close> is the operation logged for a key without one, \<open>rewrite_op\<close> the
  one that replaces an operation.
\<close>

definition fresh_op ::
  "('d, 'c, 'o) relation_transaction \<Rightarrow> (timestamp \<times> 'c) option \<Rightarrow> 'c \<Rightarrow> 'c op" where
  "fresh_op t r v =
     (case r of
        None \<Rightarrow> mk_op (rt_write_ts t) (rt_write_ts t) (Insert v) False
      | Some (rts, _) \<Rightarrow> mk_op rts (rt_write_ts t) (Update v) False)"

definition rewrite_op :: "('d, 'c, 'o) relation_transaction \<Rightarrow> 'c op \<Rightarrow> 'c \<Rightarrow> 'c op" where
  "rewrite_op t x v =
     (case operation x of
        Delete \<Rightarrow> if read_ts x \<le> visible_ts t
                  then x\<lparr>write_ts := rt_write_ts t, operation := Update v\<rparr>
                  else x\<lparr>read_ts := rt_write_ts t, write_ts := rt_write_ts t, operation := Insert v\<rparr>
      | Insert _ \<Rightarrow> x\<lparr>write_ts := rt_write_ts t, operation := Insert v\<rparr>
      | Update _ \<Rightarrow> x\<lparr>write_ts := rt_write_ts t, operation := Update v\<rparr>)"

definition rt_touch :: "('d, 'c, 'o) relation_transaction \<Rightarrow> ('d, 'c, 'o) relation_transaction" where
  "rt_touch t = t\<lparr>rt_local := (rt_local t)\<lparr>lo_codomains := None\<rparr>\<rparr>"

definition rt_assign ::
  "('d, 'c, 'o) relation_transaction \<Rightarrow> 'd \<Rightarrow> 'c op \<Rightarrow> ('d, 'c, 'o) relation_transaction" where
  "rt_assign t d x = t\<lparr>rt_local := lo_assign ((rt_local t)\<lparr>lo_codomains := None\<rparr>) d x\<rparr>"

lemma fresh_op_value [simp]: "op_value (fresh_op t r v) = Some v"
  by (simp add: fresh_op_def split: option.splits prod.splits)

lemma rewrite_op_value [simp]: "op_value (rewrite_op t x v) = Some v"
  by (simp add: rewrite_op_def split: op_type.splits)

lemma rt_view_touch [simp]: "rt_view (rt_touch t) = rt_view t"
  by (simp add: rt_touch_def)

lemma rt_view_rt_assign [simp]: "rt_view (rt_assign t d x) = (rt_view t)(d := Inr (op_value x))"
  by (simp add: rt_assign_def)

lemma op_update_order:
  "x\<lparr>write_ts := a, read_ts := b, operation := z\<rparr> = x\<lparr>read_ts := b, write_ts := a, operation := z\<rparr>"
  by (cases x) simp

lemma rt_insert_nf:
  "rt_insert t d v =
     (case lo_get (rt_local t) d of
        Some x \<Rightarrow> if op_value x = None then (rt_assign t d (rewrite_op t x v), Inr ())
                  else (rt_touch t, Inl Duplicate)
      | None \<Rightarrow>
          (case rt_base t d of
             Inl e \<Rightarrow> (t, Inl e)
           | Inr (Some _) \<Rightarrow> (t, Inl Duplicate)
           | Inr None \<Rightarrow> (rt_log t d (fresh_op t None v), Inr ())))"
  by (auto simp: rt_insert_def rt_insert_base_def rt_base_def lo_get_mut_def fresh_op_def
      op_update_order rewrite_op_def rt_touch_def rt_assign_def split: option.splits op_type.splits sum.splits)

lemma rt_update_nf:
  assumes "\<And>e. master_lookup t d = Some e \<Longrightarrow> ets e \<le> visible_ts t"
  shows "rt_update t d v =
     (case lo_get (rt_local t) d of
        Some x \<Rightarrow> if op_value x = None then (rt_touch t, Inr None)
                  else (rt_assign t d (rewrite_op t x v), Inr (op_value x))
      | None \<Rightarrow>
          (case rt_base t d of
             Inl e \<Rightarrow> (t, Inl e)
           | Inr None \<Rightarrow> (t, Inr None)
           | Inr (Some r) \<Rightarrow> (rt_log t d (fresh_op t (Some r) v), Inr (Some (snd r)))))"
  using assms by (auto simp: rt_update_def rt_base_def lo_get_mut_def fresh_op_def
      rewrite_op_def rt_touch_def rt_assign_def split: option.splits op_type.splits sum.splits)

lemma rt_upsert_nf:
  "rt_upsert t d v =
     (case lo_get (rt_local t) d of
        Some x \<Rightarrow> (rt_assign t d (rewrite_op t x v), Inr (op_value x))
      | None \<Rightarrow>
          (case rt_base t d of
             Inl e \<Rightarrow> (t, Inl e)
           | Inr r \<Rightarrow> (rt_log t d (fresh_op t r v), Inr (map_option snd r))))"
  by (auto simp: rt_upsert_def rt_base_def lo_get_mut_def fresh_op_def
      rewrite_op_def rt_touch_def rt_assign_def split: option.splits op_type.splits sum.splits)

lemma rt_upsert_with_nf:
  "rt_upsert_with t d f =
     (case lo_get (rt_local t) d of
        Some x \<Rightarrow> (case f (op_value x) of
                     None \<Rightarrow> rt_touch t
                   | Some v \<Rightarrow> rt_assign t d (rewrite_op t x v), Inr (op_value x))
      | None \<Rightarrow>
          (case rt_base t d of
             Inl e \<Rightarrow> (t, Inl e)
           | Inr r \<Rightarrow> (case f (map_option snd r) of
                         None \<Rightarrow> t
                       | Some v \<Rightarrow> rt_log t d (fresh_op t r v), Inr (map_option snd r))))"
  by (auto simp: rt_upsert_with_def rt_base_def lo_get_mut_def fresh_op_def
      rewrite_op_def rt_touch_def rt_assign_def split: option.splits op_type.splits sum.splits)

lemma rt_delete_nf:
  "rt_delete t d =
     (case lo_get (rt_local t) d of
        Some x \<Rightarrow> if op_value x = None then (rt_touch t, Inr None)
                  else (rt_assign t d (x\<lparr>write_ts := rt_write_ts t, operation := Delete\<rparr>),
                        Inr (op_value x))
      | None \<Rightarrow>
          (case rt_base t d of
             Inl e \<Rightarrow> (t, Inl e)
           | Inr None \<Rightarrow> (t, Inr None)
           | Inr (Some r) \<Rightarrow>
               (rt_log t d (mk_op (fst r) (rt_write_ts t) Delete False), Inr (Some (snd r)))))"
  by (auto simp: rt_delete_def rt_base_def lo_get_mut_def fresh_op_def
      rewrite_op_def rt_touch_def rt_assign_def split: option.splits op_type.splits sum.splits)

subsection \<open>Writes keep the invariant\<close>

lemma rt_ok_D:
  assumes "rt_ok t"
  shows "idx_ok (ti_deref (rt_master t))" "lo_ok (rt_local t)" "visible_ts t < rt_write_ts t"
    "\<And>d e. master_lookup t d = Some e \<Longrightarrow> ets e \<le> visible_ts t"
    "\<And>d x. lo_get (rt_local t) d = Some x \<Longrightarrow> op_ok t d x"
  using assms by (simp_all add: rt_ok_def)

lemma op_ok_cong:
  "rt_tx t' = rt_tx t \<Longrightarrow> rt_base t' d = rt_base t d \<Longrightarrow> op_ok t' d x = op_ok t d x"
  by (simp add: op_ok_def)

lemma rt_touch_simps [simp]:
  "rt_tx (rt_touch t) = rt_tx t" "rt_base (rt_touch t) = rt_base t"
  "rt_master (rt_touch t) = rt_master t" "lo_get (rt_local (rt_touch t)) = lo_get (rt_local t)"
  by (simp_all add: rt_touch_def)

lemma rt_assign_simps [simp]:
  "rt_tx (rt_assign t d x) = rt_tx t" "rt_base (rt_assign t d x) = rt_base t"
  "rt_master (rt_assign t d x) = rt_master t"
  "lo_get (rt_local (rt_assign t d x)) = (lo_get (rt_local t))(d \<mapsto> x)"
  by (simp_all add: rt_assign_def)

lemma rt_ok_touch: "rt_ok t \<Longrightarrow> rt_ok (rt_touch t)"
  by (simp add: rt_ok_def rt_touch_def op_ok_cong [of "rt_touch t" t, simplified rt_touch_def])

lemma rt_ok_assign: "rt_ok t \<Longrightarrow> op_ok t d x \<Longrightarrow> rt_ok (rt_assign t d x)"
  by (simp add: rt_ok_def rt_assign_def op_ok_cong [of "rt_assign t d x" t, simplified rt_assign_def])

lemma rt_ok_log: "rt_ok t \<Longrightarrow> op_ok t d x \<Longrightarrow> rt_ok (rt_log t d x)"
  by (simp add: rt_ok_def op_ok_cong [of "rt_log t d x" t])

lemma backing_get_SomeD:
  assumes "backing_get t d = Inr (Some (ts, v))"
  shows "src_get (bs_deref (rt_source t)) d = Inr (Some (ts, v)) \<and> ts \<le> visible_ts t"
proof -
  from assms obtain r where r: "src_get (bs_deref (rt_source t)) d = Inr r"
    unfolding backing_get_def by blast
  with assms show ?thesis
    by (cases r) (auto simp: backing_get_def split: prod.splits if_splits)
qed

lemmas backing_get_visible = backing_get_SomeD [THEN conjunct2]

lemma rt_base_visible: "rt_ok t \<Longrightarrow> rt_base t d = Inr (Some (ts, v)) \<Longrightarrow> ts \<le> visible_ts t"
  by (auto simp: rt_base_def rt_ok_def backing_get_visible split: option.splits if_splits)

lemma op_ok_fresh: "rt_ok t \<Longrightarrow> rt_base t d = Inr r \<Longrightarrow> op_ok t d (fresh_op t r v)"
  using rt_ok_D(3) [of t] rt_base_visible [of t d]
  by (fastforce simp: op_ok_def fresh_op_def split: option.splits)

lemma op_ok_rewrite: "rt_ok t \<Longrightarrow> op_ok t d x \<Longrightarrow> op_ok t d (rewrite_op t x v)"
  using rt_ok_D(3) [of t]
  by (auto simp: op_ok_def rewrite_op_def split: op_type.splits)

lemma op_ok_delete:
  "op_ok t d x \<Longrightarrow> op_ok t d (x\<lparr>write_ts := rt_write_ts t, operation := Delete\<rparr>)"
  by (simp add: op_ok_def)

lemma op_ok_fresh_delete:
  "rt_ok t \<Longrightarrow> rt_base t d = Inr (Some r) \<Longrightarrow>
     op_ok t d (mk_op (fst r) (rt_write_ts t) Delete False)"
  using rt_ok_D(3) [of t] rt_base_visible [of t d "fst r" "snd r"]
  by (auto simp: op_ok_def intro!: exI [of _ "snd r"])

lemmas rt_ok_writes = rt_ok_touch rt_ok_assign rt_ok_log op_ok_fresh op_ok_rewrite op_ok_delete
  op_ok_fresh_delete rt_ok_D(5)

lemma rt_ok_insert: "rt_ok t \<Longrightarrow> rt_ok (fst (rt_insert t d v))"
  by (auto simp: rt_insert_nf rt_ok_writes split: option.splits sum.splits)

lemma rt_ok_update: "rt_ok t \<Longrightarrow> rt_ok (fst (rt_update t d v))"
  by (auto simp: rt_update_nf rt_ok_D(4) rt_ok_writes split: option.splits sum.splits)

lemma rt_ok_upsert: "rt_ok t \<Longrightarrow> rt_ok (fst (rt_upsert t d v))"
  by (auto simp: rt_upsert_nf rt_ok_writes split: option.splits sum.splits)

lemma rt_ok_upsert_with: "rt_ok t \<Longrightarrow> rt_ok (fst (rt_upsert_with t d f))"
  by (auto simp: rt_upsert_with_nf rt_ok_writes split: option.splits sum.splits)

lemma rt_ok_delete: "rt_ok t \<Longrightarrow> rt_ok (fst (rt_delete t d))"
  by (auto simp: rt_delete_nf rt_ok_writes split: option.splits sum.splits)

lemma rt_ok_insert_guaranteed_unique: "rt_ok t \<Longrightarrow> rt_ok (fst (rt_insert_guaranteed_unique t d v))"
  by (simp add: rt_insert_guaranteed_unique_def rt_ok_log op_ok_def)

section \<open>The contract of a keyed store\<close>

text \<open>
  What the object layer relies on when it reads and writes through a relation: the writes act on
  the map of visible values as their names say, return the value that was visible before, and
  leave the map unchanged when they fail.
\<close>

locale keyed_store =
  fixes view :: "'s \<Rightarrow> 'd \<Rightarrow> 'e + 'c option"
    and invar :: "'s \<Rightarrow> bool"
    and duplicate :: 'e
    and insert :: "'s \<Rightarrow> 'd \<Rightarrow> 'c \<Rightarrow> 's \<times> ('e + unit)"
    and update :: "'s \<Rightarrow> 'd \<Rightarrow> 'c \<Rightarrow> 's \<times> ('e + 'c option)"
    and upsert :: "'s \<Rightarrow> 'd \<Rightarrow> 'c \<Rightarrow> 's \<times> ('e + 'c option)"
    and delete :: "'s \<Rightarrow> 'd \<Rightarrow> 's \<times> ('e + 'c option)"
  assumes insert_absent: "invar s \<Longrightarrow> view s d = Inr None \<Longrightarrow>
        snd (insert s d v) = Inr () \<and> view (fst (insert s d v)) = (view s)(d := Inr (Some v))"
    and insert_present: "invar s \<Longrightarrow> view s d = Inr (Some u) \<Longrightarrow>
        snd (insert s d v) = Inl duplicate \<and> view (fst (insert s d v)) = view s"
    and insert_error: "invar s \<Longrightarrow> view s d = Inl e \<Longrightarrow>
        snd (insert s d v) = Inl e \<and> view (fst (insert s d v)) = view s"
    and update_absent: "invar s \<Longrightarrow> view s d = Inr None \<Longrightarrow>
        snd (update s d v) = Inr None \<and> view (fst (update s d v)) = view s"
    and update_present: "invar s \<Longrightarrow> view s d = Inr (Some u) \<Longrightarrow>
        snd (update s d v) = Inr (Some u) \<and>
        view (fst (update s d v)) = (view s)(d := Inr (Some v))"
    and update_error: "invar s \<Longrightarrow> view s d = Inl e \<Longrightarrow>
        snd (update s d v) = Inl e \<and> view (fst (update s d v)) = view s"
    and upsert_ok: "invar s \<Longrightarrow> view s d = Inr r \<Longrightarrow>
        snd (upsert s d v) = Inr r \<and> view (fst (upsert s d v)) = (view s)(d := Inr (Some v))"
    and upsert_error: "invar s \<Longrightarrow> view s d = Inl e \<Longrightarrow>
        snd (upsert s d v) = Inl e \<and> view (fst (upsert s d v)) = view s"
    and delete_ok: "invar s \<Longrightarrow> view s d = Inr r \<Longrightarrow>
        snd (delete s d) = Inr r \<and> view (fst (delete s d)) = (view s)(d := Inr None)"
    and delete_error: "invar s \<Longrightarrow> view s d = Inl e \<Longrightarrow>
        snd (delete s d) = Inl e \<and> view (fst (delete s d)) = view s"
    and invar_insert: "invar s \<Longrightarrow> invar (fst (insert s d v))"
    and invar_update: "invar s \<Longrightarrow> invar (fst (update s d v))"
    and invar_upsert: "invar s \<Longrightarrow> invar (fst (upsert s d v))"
    and invar_delete: "invar s \<Longrightarrow> invar (fst (delete s d))"
begin

text \<open>A write of any kind changes the view at its own key only.\<close>

lemma write_frame:
  assumes "invar s" and "d' \<noteq> d"
  shows "view (fst (insert s d v)) d' = view s d'" "view (fst (update s d v)) d' = view s d'"
    "view (fst (upsert s d v)) d' = view s d'" "view (fst (delete s d)) d' = view s d'"
proof -
  show "view (fst (insert s d v)) d' = view s d'"
    using assms insert_absent insert_present insert_error
    by (cases "view s d"; cases "projr (view s d)") auto
  show "view (fst (update s d v)) d' = view s d'"
    using assms update_absent update_present update_error
    by (cases "view s d"; cases "projr (view s d)") auto
  show "view (fst (upsert s d v)) d' = view s d'"
    using assms upsert_ok upsert_error by (cases "view s d") auto
  show "view (fst (delete s d)) d' = view s d'"
    using assms delete_ok delete_error by (cases "view s d") auto
qed

text \<open>Reading back: what was written is seen, until it is written again.\<close>

lemma upsert_delete:
  assumes "invar s" and "view s d = Inr r"
  shows "snd (delete (fst (upsert s d v)) d) = Inr (Some v)
    \<and> view (fst (delete (fst (upsert s d v)) d)) = (view s)(d := Inr None)"
  using delete_ok [OF invar_upsert [OF assms(1)], where d = d] upsert_ok [OF assms] by simp

lemma delete_insert:
  assumes "invar s" and "view s d = Inr r"
  shows "snd (insert (fst (delete s d)) d v) = Inr ()
    \<and> view (fst (insert (fst (delete s d)) d v)) = (view s)(d := Inr (Some v))"
  using insert_absent [OF invar_delete [OF assms(1)], where d = d] delete_ok [OF assms] by simp

lemma upsert_all:
  assumes "invar s" and "\<forall>p \<in> set ps. \<exists>r. view s (fst p) = Inr r"
  shows "view (foldl (\<lambda>s p. fst (upsert s (fst p) (snd p))) s ps) =
      (\<lambda>d. case map_of (rev ps) d of None \<Rightarrow> view s d | Some v \<Rightarrow> Inr (Some v))
    \<and> invar (foldl (\<lambda>s p. fst (upsert s (fst p) (snd p))) s ps)"
  using assms
proof (induction ps arbitrary: s)
  case (Cons p ps)
  from Cons.prems obtain r where r: "view s (fst p) = Inr r" by auto
  have v: "view (fst (upsert s (fst p) (snd p))) = (view s)(fst p := Inr (Some (snd p)))"
    using upsert_ok [OF Cons.prems(1) r] by simp
  have "\<forall>q \<in> set ps. \<exists>r. view (fst (upsert s (fst p) (snd p))) (fst q) = Inr r"
    using Cons.prems(2) by (auto simp: v)
  from Cons.IH [OF invar_upsert [OF Cons.prems(1)] this] show ?case
    by (auto simp: v map_add_def split: option.splits)
qed auto

end

lemmas rt_writes_nf = rt_insert_nf rt_update_nf [OF rt_ok_D(4)] rt_upsert_nf rt_delete_nf

interpretation rt: keyed_store rt_view rt_ok Duplicate rt_insert rt_update rt_upsert rt_delete
proof unfold_locales
  show "rt_ok t \<Longrightarrow> rt_view t d = Inr None \<Longrightarrow> snd (rt_insert t d v) = Inr () \<and>
      rt_view (fst (rt_insert t d v)) = (rt_view t)(d := Inr (Some v))" for t :: "('a, 'b, 'c) relation_transaction" and d v u e r
    by (auto simp: rt_writes_nf rt_view_def [of t d] rbind_Inr_iff split: option.splits sum.splits)
  show "rt_ok t \<Longrightarrow> rt_view t d = Inr (Some u) \<Longrightarrow> snd (rt_insert t d v) = Inl Duplicate \<and>
      rt_view (fst (rt_insert t d v)) = rt_view t" for t :: "('a, 'b, 'c) relation_transaction" and d v u e r
    by (auto simp: rt_writes_nf rt_view_def [of t d] rbind_Inr_iff split: option.splits sum.splits)
  show "rt_ok t \<Longrightarrow> rt_view t d = Inl e \<Longrightarrow> snd (rt_insert t d v) = Inl e \<and>
      rt_view (fst (rt_insert t d v)) = rt_view t" for t :: "('a, 'b, 'c) relation_transaction" and d v u e r
    by (auto simp: rt_writes_nf rt_view_def [of t d] rbind_Inl_iff split: option.splits sum.splits)
  show "rt_ok t \<Longrightarrow> rt_view t d = Inr None \<Longrightarrow> snd (rt_update t d v) = Inr None \<and>
      rt_view (fst (rt_update t d v)) = rt_view t" for t :: "('a, 'b, 'c) relation_transaction" and d v u e r
    by (auto simp: rt_writes_nf rt_view_def [of t d] rbind_Inr_iff split: option.splits sum.splits)
  show "rt_ok t \<Longrightarrow> rt_view t d = Inr (Some u) \<Longrightarrow> snd (rt_update t d v) = Inr (Some u) \<and>
      rt_view (fst (rt_update t d v)) = (rt_view t)(d := Inr (Some v))" for t :: "('a, 'b, 'c) relation_transaction" and d v u e r
    by (auto simp: rt_writes_nf rt_view_def [of t d] rbind_Inr_iff split: option.splits sum.splits)
  show "rt_ok t \<Longrightarrow> rt_view t d = Inl e \<Longrightarrow> snd (rt_update t d v) = Inl e \<and>
      rt_view (fst (rt_update t d v)) = rt_view t" for t :: "('a, 'b, 'c) relation_transaction" and d v u e r
    by (auto simp: rt_writes_nf rt_view_def [of t d] rbind_Inl_iff split: option.splits sum.splits)
  show "rt_ok t \<Longrightarrow> rt_view t d = Inr r \<Longrightarrow> snd (rt_upsert t d v) = Inr r \<and>
      rt_view (fst (rt_upsert t d v)) = (rt_view t)(d := Inr (Some v))" for t :: "('a, 'b, 'c) relation_transaction" and d v u e r
    by (auto simp: rt_writes_nf rt_view_def [of t d] rbind_Inr_iff split: option.splits sum.splits)
  show "rt_ok t \<Longrightarrow> rt_view t d = Inl e \<Longrightarrow> snd (rt_upsert t d v) = Inl e \<and>
      rt_view (fst (rt_upsert t d v)) = rt_view t" for t :: "('a, 'b, 'c) relation_transaction" and d v u e r
    by (auto simp: rt_writes_nf rt_view_def [of t d] rbind_Inl_iff split: option.splits sum.splits)
  show "rt_ok t \<Longrightarrow> rt_view t d = Inr r \<Longrightarrow> snd (rt_delete t d) = Inr r \<and>
      rt_view (fst (rt_delete t d)) = (rt_view t)(d := Inr None)" for t :: "('a, 'b, 'c) relation_transaction" and d v u e r
    by (auto simp: rt_writes_nf rt_view_def [of t d] rbind_Inr_iff fun_upd_idem split: option.splits sum.splits)
  show "rt_ok t \<Longrightarrow> rt_view t d = Inl e \<Longrightarrow> snd (rt_delete t d) = Inl e \<and>
      rt_view (fst (rt_delete t d)) = rt_view t" for t :: "('a, 'b, 'c) relation_transaction" and d v u e r
    by (auto simp: rt_writes_nf rt_view_def [of t d] rbind_Inl_iff split: option.splits sum.splits)
qed (simp_all add: rt_ok_insert rt_ok_update rt_ok_upsert rt_ok_delete)

section \<open>Bulk reads\<close>

abbreviation rt_provider :: "('d, 'c, 'o) relation_transaction \<Rightarrow> ('d, 'c) provider" where
  "rt_provider t \<equiv> bs_deref (rt_source t)"

abbreviation row_map :: "(timestamp \<times> 'd \<times> 'c) list \<Rightarrow> ('d, timestamp \<times> 'c) hmap" where
  "row_map rows \<equiv> map (\<lambda>r. (ins_dom r, fst r, snd (snd r))) rows"

lemma row_map_ok: "distinct (map ins_dom rows) \<Longrightarrow> hm_ok (row_map rows)"
  by (simp add: comp_def)

lemma row_map_iff:
  assumes "distinct (map ins_dom rows)"
  shows "map_of (row_map rows) d = Some (ts, c) \<longleftrightarrow> (ts, d, c) \<in> set rows"
  unfolding in_set_hm_iff [OF row_map_ok [OF assms], symmetric] by force

lemma backing_scan_rows:
  assumes "provider_ok (rt_provider t)" and "backing_scan t P = Inr rows"
  shows "distinct (map ins_dom rows)"
    and "(ts, d, c) \<in> set rows \<longleftrightarrow> src_get (rt_provider t) d = Inr (Some (ts, c)) \<and> P d c"
    and "(ts, d, c) \<in> set rows \<Longrightarrow> master_lookup t d = None \<Longrightarrow> ts \<le> visible_ts t"
proof -
  let ?late = "\<lambda>(ts, d, _). ts > visible_ts t \<and> master_lookup t d = None"
  from assms(2) obtain rs where rs: "src_scan (rt_provider t) P = Inr rs"
    unfolding backing_scan_def by blast
  then have "find ?late rs = None \<and> rs = rows"
    using assms(2) by (cases "find ?late rs") (auto simp: backing_scan_def)
  with rs have scan: "src_scan (rt_provider t) P = Inr rows" and none: "find ?late rows = None"
    by blast+
  show "distinct (map ins_dom rows)"
    and "(ts, d, c) \<in> set rows \<longleftrightarrow> src_get (rt_provider t) d = Inr (Some (ts, c)) \<and> P d c"
    using provider_scan_row [OF assms(1) scan] by simp_all
  assume "(ts, d, c) \<in> set rows" and "master_lookup t d = None"
  then show "ts \<le> visible_ts t"
    using none unfolding find_None_iff by (metis (mono_tags, lifting) case_prod_conv not_le)
qed

text \<open>For a key the index does not hold, a successful scan and \<open>backing_get\<close> agree.\<close>

lemma backing_scan_get:
  assumes "provider_ok (rt_provider t)" and "backing_scan t P = Inr rows"
    and "master_lookup t d = None"
  shows "(\<exists>ts. (ts, d, c) \<in> set rows) \<longleftrightarrow> (\<exists>ts. backing_get t d = Inr (Some (ts, c))) \<and> P d c"
proof
  assume "\<exists>ts. (ts, d, c) \<in> set rows"
  then obtain ts where row: "(ts, d, c) \<in> set rows" by blast
  have "ts \<le> visible_ts t" using backing_scan_rows(3) [OF assms(1,2) row assms(3)] .
  with row show "(\<exists>ts. backing_get t d = Inr (Some (ts, c))) \<and> P d c"
    unfolding backing_scan_rows(2) [OF assms(1,2)] by (auto simp: backing_get_def)
next
  assume "(\<exists>ts. backing_get t d = Inr (Some (ts, c))) \<and> P d c"
  then show "\<exists>ts. (ts, d, c) \<in> set rows"
    unfolding backing_scan_rows(2) [OF assms(1,2)] by (auto dest: backing_get_SomeD)
qed

subsection \<open>Reverse lookup\<close>

lemma visit_set: "set (foldl (visit keep) seen ds) = set seen \<union> {d \<in> set ds. keep d}"
  by (induction ds arbitrary: seen) (auto simp: visit_def)

lemma visit_distinct: "distinct seen \<Longrightarrow> distinct (foldl (visit keep) seen ds)"
  by (induction ds arbitrary: seen) (auto simp: visit_def)

lemma idx_for_each_exact:
  assumes "idx_ok (SecondaryIndexRelation i)"
  shows "distinct (idx_for_each_by_codomain (SecondaryIndexRelation i) c)"
    and "d \<in> set (idx_for_each_by_codomain (SecondaryIndexRelation i) c) \<longleftrightarrow>
      (\<exists>e. idx_lookup (SecondaryIndexRelation i) d = Some e \<and> evalue e = c)"
  using assms sir_get_by_codomain_group [of i c]
  by (simp_all add: idx_for_each_by_codomain_def idx_lookup_def preimage_iff)

lemma rt_for_each_unloaded_exact:
  assumes "rt_ok t" and "provider_ok (rt_provider t)"
    and sec: "ti_deref (rt_master t) = SecondaryIndexRelation i"
    and nl: "\<not> rt_loaded t"
    and res: "rt_for_each_unloaded_by_codomain t c = Inr ds"
  shows "distinct ds"
    and "d \<in> set ds \<longleftrightarrow> lo_get (rt_local t) d = None \<and> (\<exists>ts. rt_base t d = Inr (Some (ts, c)))"
proof -
  have ok: "idx_ok (SecondaryIndexRelation i)"
    using rt_ok_D(1) [OF assms(1)] by (simp add: sec)
  from res obtain rows where rows: "backing_scan t (\<lambda>_ v. v = c) = Inr rows"
    and ds: "ds = foldl (visit (\<lambda>d. lo_get (rt_local t) d = None))
        (foldl (visit (\<lambda>d.
            \<not> (case master_lookup t d of None \<Rightarrow> False | Some e \<Rightarrow> evalue e \<noteq> c)
            \<and> lo_get (rt_local t) d = None)) [] (map ins_dom rows))
        (idx_for_each_by_codomain (SecondaryIndexRelation i) c)"
    by (auto simp: rt_for_each_unloaded_by_codomain_def rbind_Inr_iff sec)
  show "distinct ds"
    unfolding ds by (intro visit_distinct) simp
  have row: "d \<in> ins_dom ` set rows \<longleftrightarrow> (\<exists>ts. (ts, d, c) \<in> set rows)"
    using backing_scan_rows(2) [OF assms(2) rows] by force
  show "d \<in> set ds \<longleftrightarrow> lo_get (rt_local t) d = None \<and> (\<exists>ts. rt_base t d = Inr (Some (ts, c)))"
  proof (cases "master_lookup t d")
    case None
    then show ?thesis
      using backing_scan_get [OF assms(2) rows None, of c] row nl
      by (auto simp: ds visit_set idx_for_each_exact(2) [OF ok] sec rt_base_def)
  next
    case (Some e)
    then show ?thesis
      by (auto simp: ds visit_set idx_for_each_exact(2) [OF ok] sec rt_base_def)
  qed
qed

lemma rt_view_Some_iff:
  "rt_view t d = Inr (Some c) \<longleftrightarrow>
     (\<exists>x. lo_get (rt_local t) d = Some x \<and> op_value x = Some c)
     \<or> lo_get (rt_local t) d = None \<and> (\<exists>ts. rt_base t d = Inr (Some (ts, c)))"
  by (auto simp: rt_view_def rbind_Inr_iff split: option.splits)

lemma rt_get_by_codomain_exact:
  assumes "rt_ok t" and "provider_ok (rt_provider t)"
    and sec: "ti_deref (rt_master t) = SecondaryIndexRelation i"
    and res: "snd (rt_get_by_codomain t c) = Inr ds"
  shows "distinct ds \<and> (\<forall>d. d \<in> set ds \<longleftrightarrow> rt_view t d = Inr (Some c))"
proof -
  let ?base = "if rt_loaded t
      then Inr (filter (\<lambda>d. lo_get (rt_local t) d = None)
             (idx_for_each_by_codomain (ti_deref (rt_master t)) c))
      else rt_for_each_unloaded_by_codomain t c"
  have ok: "idx_ok (SecondaryIndexRelation i)"
    using rt_ok_D(1) [OF assms(1)] by (simp add: sec)
  from res obtain bs where bs: "?base = Inr bs"
    and ds: "ds = bs @ (if lo_is_empty (rt_local t) then []
        else snd (lo_for_each_by_codomain (rt_local t) c))"
    by (cases ?base)
      (auto simp: rt_get_by_codomain_def rt_for_each_by_codomain_def Let_def case_prod_unfold
        split: if_splits)
  have b: "distinct bs \<and> (\<forall>d. d \<in> set bs \<longleftrightarrow>
      lo_get (rt_local t) d = None \<and> (\<exists>ts. rt_base t d = Inr (Some (ts, c))))"
  proof (cases "rt_loaded t")
    case True
    then show ?thesis
      using bs by (auto simp: sec idx_for_each_exact [OF ok] rt_base_def split: option.splits)
  next
    case False
    then show ?thesis
      using bs rt_for_each_unloaded_exact [OF assms(1,2) sec] by simp
  qed
  note lo = lo_for_each_exact [OF rt_ok_D(2) [OF assms(1)], where c = c]
  show ?thesis
    using b lo by (auto simp: ds rt_view_Some_iff)
qed

subsection \<open>Scans\<close>

text \<open>The base row of a key, if it satisfies the predicate.\<close>

definition base_match ::
  "('d, 'c, 'o) relation_transaction \<Rightarrow> ('d \<Rightarrow> 'c \<Rightarrow> bool) \<Rightarrow> 'd \<Rightarrow> 'c option" where
  "base_match t P d =
     (case rt_base t d of Inr (Some (_, v)) \<Rightarrow> if P d v then Some v else None | _ \<Rightarrow> None)"

lemma base_match_iff:
  "base_match t P d = Some c \<longleftrightarrow> (\<exists>ts. rt_base t d = Inr (Some (ts, c))) \<and> P d c"
  by (auto simp: base_match_def split: sum.splits option.splits)

lemma scan_local_lookup:
  assumes "hm_ok m"
  shows "map_of (scan_local P res m) d =
    (case map_of m d of
       None \<Rightarrow> map_of res d
     | Some x \<Rightarrow> (case op_value x of
                    None \<Rightarrow> None
                  | Some v \<Rightarrow> if P d v then Some v else map_of res d))"
  using assms
proof (induction m arbitrary: res)
  case (Cons y m)
  obtain k x where y: "y = (k, x)" by fastforce
  have new: "map_of m k = None" using Cons.prems y by (simp add: map_of_eq_None_iff)
  have "map_of (scan_local P res (y # m)) d = map_of (scan_local P
      (case operation x of Insert v \<Rightarrow> if P k v then hm_insert k v res else res
       | Update v \<Rightarrow> if P k v then hm_insert k v res else res | Delete \<Rightarrow> hm_remove k res) m) d"
    by (simp add: scan_local_def y)
  also have "\<dots> = (case map_of ((k, x) # m) d of
       None \<Rightarrow> map_of res d
     | Some x \<Rightarrow> (case op_value x of
                    None \<Rightarrow> None
                  | Some v \<Rightarrow> if P d v then Some v else map_of res d))"
    using Cons.IH Cons.prems y new by (auto split: op_type.splits option.splits)
  finally show ?case by (simp only: y)
qed (simp add: scan_local_def)

lemma scan_local_ok: "hm_ok res \<Longrightarrow> hm_ok (scan_local P res m)"
  unfolding scan_local_def
  by (induction m arbitrary: res) (auto split: op_type.splits simp: case_prod_unfold)

lemma scan_master_lookup:
  assumes "hm_ok es"
  shows "map_of (scan_master t P res es) d =
    (case map_of es d of
       Some e \<Rightarrow> if ets e \<le> visible_ts t \<and> P d (evalue e) then Some (evalue e) else map_of res d
     | None \<Rightarrow> map_of res d)"
  using assms
proof (induction es arbitrary: res)
  case (Cons y es)
  obtain k e where y: "y = (k, e)" by fastforce
  have new: "map_of es k = None" using Cons.prems y by (simp add: map_of_eq_None_iff)
  have "map_of (scan_master t P res (y # es)) d = map_of (scan_master t P
      (if ets e \<le> visible_ts t \<and> P k (evalue e) then hm_insert k (evalue e) res else res) es) d"
    by (simp add: scan_master_def y)
  also have "\<dots> = (case map_of ((k, e) # es) d of
       Some e \<Rightarrow> if ets e \<le> visible_ts t \<and> P d (evalue e) then Some (evalue e) else map_of res d
     | None \<Rightarrow> map_of res d)"
    using Cons.IH Cons.prems y new by (auto split: option.splits)
  finally show ?case by (simp only: y)
qed (simp add: scan_master_def)

lemma scan_master_ok: "hm_ok res \<Longrightarrow> hm_ok (scan_master t P res es)"
  unfolding scan_master_def by (induction es arbitrary: res) (auto simp: case_prod_unfold)

lemma scan_rows_ok: "hm_ok res \<Longrightarrow> hm_ok (scan_rows t P res rows)"
  unfolding scan_rows_def by (induction rows arbitrary: res) (auto simp: case_prod_unfold)

lemma scan_rows_lookup:
  assumes "distinct (map ins_dom rows)"
  shows "map_of (scan_rows t P res rows) d =
    (case map_of (row_map rows) d of
       Some (_, v) \<Rightarrow> if master_lookup t d = None \<and> P d v then Some v else map_of res d
     | None \<Rightarrow> map_of res d)"
  using assms
proof (induction rows arbitrary: res)
  case (Cons y rows)
  obtain ts k v where y: "y = (ts, k, v)" by (cases y)
  have new: "map_of (row_map rows) k = None"
    using Cons.prems y by (force simp: map_of_eq_None_iff)
  have dist: "distinct (map ins_dom rows)" using Cons.prems by simp
  note IH = Cons.IH [OF dist]
  have "map_of (scan_rows t P res (y # rows)) d = map_of (scan_rows t P
      (if master_lookup t k = None \<and> P k v then hm_insert k v res else res) rows) d"
    by (simp add: scan_rows_def y)
  also have "\<dots> = (case map_of ((k, ts, v) # row_map rows) d of
       Some (_, v) \<Rightarrow> if master_lookup t d = None \<and> P d v then Some v else map_of res d
     | None \<Rightarrow> map_of res d)"
    unfolding IH by (cases "d = k") (auto simp: new split: option.split)
  finally show ?case by (simp add: y)
qed (simp add: scan_rows_def)

lemma rt_scan_base:
  assumes ok: "rt_ok t" and prov: "provider_ok (rt_provider t)"
    and "rt_loaded t \<and> res = scan_master t P [] (idx_iter (ti_deref (rt_master t)))
      \<or> \<not> rt_loaded t \<and> backing_scan t P = Inr rows
        \<and> res = scan_master t P (scan_rows t P [] rows) (idx_iter (ti_deref (rt_master t)))"
  shows "map_of res d = base_match t P d"
proof -
  have iter: "hm_ok (idx_iter (ti_deref (rt_master t)))"
    using rt_ok_D(1) [OF ok] by (rule idx_ok_keys)
  have it: "map_of (idx_iter (ti_deref (rt_master t))) d = master_lookup t d"
    by (simp add: idx_iter_def idx_lookup_def)
  have vis: "master_lookup t d = Some e \<Longrightarrow> ets e \<le> visible_ts t" for e
    using rt_ok_D(4) [OF ok] .
  show ?thesis
  proof (cases "rt_loaded t")
    case True
    then show ?thesis
      using assms(3) vis
      by (auto simp: scan_master_lookup [OF iter] it base_match_def rt_base_def split: option.splits)
  next
    case False
    then have rows: "backing_scan t P = Inr rows"
      and res: "res = scan_master t P (scan_rows t P [] rows) (idx_iter (ti_deref (rt_master t)))"
      using assms(3) by simp_all
    note dist = backing_scan_rows(1) [OF prov rows]
    have none: "map_of res d = base_match t P d" if "master_lookup t d = None"
    proof -
      have "map_of res d = Some c \<longleftrightarrow> (\<exists>ts. map_of (row_map rows) d = Some (ts, c)) \<and> P d c" for c
        by (auto simp: res scan_master_lookup [OF iter] it that scan_rows_lookup [OF dist]
            split: option.splits if_splits)
      also have "\<dots> c \<longleftrightarrow> base_match t P d = Some c" for c
        using backing_scan_get [OF prov rows that, of c] False
        by (auto simp: row_map_iff [OF dist] base_match_iff rt_base_def that)
      finally show ?thesis by (rule option_eqI)
    qed
    have some: "map_of res d = base_match t P d" if e: "master_lookup t d = Some e" for e
      using vis [OF e] e
      by (simp add: res scan_master_lookup [OF iter] it scan_rows_lookup [OF dist] base_match_def
          rt_base_def split: option.splits)
    from none some show ?thesis by (cases "master_lookup t d") auto
  qed
qed

text \<open>
  What \<open>scan\<close> returns for a key: the local value if it satisfies the predicate, nothing if the key
  was deleted locally, and otherwise the base row, if that satisfies the predicate. The last case
  includes keys whose local value does not satisfy it.
\<close>

definition scan_spec ::
  "('d, 'c, 'o) relation_transaction \<Rightarrow> ('d \<Rightarrow> 'c \<Rightarrow> bool) \<Rightarrow> 'd \<Rightarrow> 'c option" where
  "scan_spec t P d =
     (case lo_get (rt_local t) d of
        None \<Rightarrow> base_match t P d
      | Some x \<Rightarrow> (case op_value x of
                     None \<Rightarrow> None
                   | Some v \<Rightarrow> if P d v then Some v else base_match t P d))"

lemma rt_scan_eq_spec:
  assumes "rt_ok t" and "provider_ok (rt_provider t)" and "rt_scan t P = Inr rows"
  shows "hm_ok rows" and "map_of rows d = scan_spec t P d"
proof -
  obtain res where rows: "rows = scan_local P res (lo_entries (rt_local t))"
    and res: "rt_loaded t \<and> res = scan_master t P [] (idx_iter (ti_deref (rt_master t)))
      \<or> (\<exists>bs. \<not> rt_loaded t \<and> backing_scan t P = Inr bs
        \<and> res = scan_master t P (scan_rows t P [] bs) (idx_iter (ti_deref (rt_master t))))"
    using assms(3) by (auto simp: rt_scan_def rbind_Inr_iff split: if_splits)
  have lo: "hm_ok (lo_entries (rt_local t))"
    using rt_ok_D(2) [OF assms(1)] by (simp add: lo_ok_def)
  show "hm_ok rows"
    using res by (auto simp: rows intro!: scan_local_ok scan_master_ok scan_rows_ok)
  have "map_of res d = base_match t P d" for d
    using res rt_scan_base [OF assms(1,2)] by blast
  then show "map_of rows d = scan_spec t P d"
    by (simp add: rows scan_local_lookup [OF lo] scan_spec_def cong: option.case_cong if_cong)
qed

text \<open>When no local write moved a matching row out of the predicate, the scan is exact.\<close>

lemma scan_spec_exact:
  assumes "\<And>d x v. lo_get (rt_local t) d = Some x \<Longrightarrow> op_value x = Some v \<Longrightarrow>
      P d v \<or> base_match t P d = None"
  shows "scan_spec t P d = Some c \<longleftrightarrow> rt_view t d = Inr (Some c) \<and> P d c"
proof (cases "lo_get (rt_local t) d")
  case None
  then show ?thesis by (simp add: scan_spec_def rt_view_Some_iff base_match_iff)
next
  case (Some x)
  show ?thesis
  proof (cases "op_value x")
    case None
    with Some show ?thesis by (simp add: scan_spec_def rt_view_Some_iff)
  next
    case v: (Some v)
    with assms [OF Some v] Some show ?thesis by (auto simp: scan_spec_def rt_view_Some_iff)
  qed
qed

subsection \<open>Loading a relation\<close>

lemma fill_missing_lookup:
  "idx_lookup (fill_missing i (ts, d, c)) =
     (if idx_lookup i d = None then (idx_lookup i)(d \<mapsto> mk_entry ts c) else idx_lookup i)"
  by (simp add: fill_missing_def idx.insert_entry_lookup)

lemma fill_missing_ok: "idx_ok i \<Longrightarrow> idx_ok (fill_missing i row)"
  by (cases row) (simp add: fill_missing_def idx.insert_entry_invar)

lemma foldl_fill_missing_ok: "idx_ok i \<Longrightarrow> idx_ok (foldl fill_missing i rows)"
  by (induction rows arbitrary: i) (simp_all add: fill_missing_ok)

lemma foldl_fill_missing_lookup:
  "idx_lookup (foldl fill_missing i rows) d =
     (case idx_lookup i d of
        Some e \<Rightarrow> Some e
      | None \<Rightarrow> map_option (\<lambda>(ts, c). mk_entry ts c) (map_of (row_map rows) d))"
proof (induction rows arbitrary: i)
  case (Cons row rows)
  obtain ts k c where row: "row = (ts, k, c)" by (cases row)
  show ?case
    by (simp add: Cons.IH row fill_missing_lookup split: option.split)
qed (simp split: option.split)

lemma rt_fully_load_ok:
  assumes ok: "rt_ok t" and prov: "provider_ok (rt_provider t)" and nl: "\<not> rt_loaded t"
    and res: "rt_fully_load_from_provider t = (t', Inr ())"
    and t'': "t'' = t'\<lparr>rt_loaded := True\<rparr>"
  shows "rt_base t d = Inr r \<Longrightarrow> rt_base t'' d = Inr r"
    and "master_lookup t'' d = Some e \<Longrightarrow> ets e \<le> visible_ts t''"
    and "rt_local t'' = rt_local t" and "rt_tx t'' = rt_tx t"
    and "idx_ok (ti_deref (rt_master t''))"
    and "idx_is_provider_fully_loaded (ti_deref (rt_master t''))" and "rt_loaded t''"
proof -
  from res obtain rows where rows: "backing_scan t (\<lambda>_ _. True) = Inr rows"
    and t': "t' = t\<lparr>rt_master := ti_modify (\<lambda>i. idx_set_provider_fully_loaded
        (foldl fill_missing i rows) True) (rt_master t)\<rparr>"
    by (auto simp: rt_fully_load_from_provider_def split: sum.splits)
  note dist = backing_scan_rows(1) [OF prov rows]
  have look: "master_lookup t' d = (case master_lookup t d of
        Some e \<Rightarrow> Some e
      | None \<Rightarrow> map_option (\<lambda>(ts, c). mk_entry ts c) (map_of (row_map rows) d))" for d
    by (simp add: t' foldl_fill_missing_lookup)
  have row: "map_of (row_map rows) d = Some (ts, c) \<longleftrightarrow> backing_get t d = Inr (Some (ts, c))"
    if "master_lookup t d = None" for d ts c
    using backing_scan_rows(2,3) [OF prov rows, of ts d c] that backing_get_SomeD [of t d ts c]
    by (auto simp: row_map_iff [OF dist] backing_get_def)
  show "rt_base t d = Inr r \<Longrightarrow> rt_base t'' d = Inr r"
    using nl row [of d]
    by (cases "master_lookup t d"; cases r; cases "map_of (row_map rows) d")
      (auto simp: rt_base_def look t'', blast+)
  show "master_lookup t'' d = Some e \<Longrightarrow> ets e \<le> visible_ts t''"
    using rt_ok_D(4) [OF ok, of d] row [of d] backing_get_visible [of t d]
    by (auto simp: look t'' split: option.splits) (simp_all add: t')
  show "rt_local t'' = rt_local t" "rt_tx t'' = rt_tx t" "rt_loaded t''"
    by (simp_all add: t'' t')
  show "idx_ok (ti_deref (rt_master t''))"
    using foldl_fill_missing_ok [OF rt_ok_D(1) [OF ok]] by (simp add: t'' t')
  show "idx_is_provider_fully_loaded (ti_deref (rt_master t''))"
    by (simp add: t'' t')
qed

lemma rt_ok_fully_load:
  assumes ok: "rt_ok t" and prov: "provider_ok (rt_provider t)" and nl: "\<not> rt_loaded t"
    and res: "rt_fully_load_from_provider t = (t', Inr ())"
  shows "rt_ok (t'\<lparr>rt_loaded := True\<rparr>)"
proof -
  let ?t = "t'\<lparr>rt_loaded := True\<rparr>"
  note L = rt_fully_load_ok [OF ok prov nl res refl]
  have "op_ok ?t d x" if "lo_get (rt_local t) d = Some x" for d x
    using rt_ok_D(5) [OF ok that] L(1) [of d] L(4) by (auto simp: op_ok_def)
  then show ?thesis
    using L(2-7) rt_ok_D(2,3) [OF ok] by (auto simp: rt_ok_def)
qed

text \<open>
  \<open>get_all\<close> either fails without touching the transaction or returns exactly the visible tuples.
\<close>

definition rt_tuples_of :: "('d, 'c, 'o) relation_transaction \<Rightarrow> ('d \<times> 'c) list" where
  "rt_tuples_of t = scan_local (\<lambda>_ _. True)
     (scan_master t (\<lambda>_ _. True) [] (idx_iter (ti_deref (rt_master t)))) (lo_entries (rt_local t))"

lemma rt_get_all_nf:
  "rt_get_all t =
     (if rt_loaded t then (t, Inr (rt_tuples_of t))
      else (case rt_fully_load_from_provider t of
              (t', Inl e) \<Rightarrow> (t', Inl e)
            | (t', Inr _) \<Rightarrow> (t'\<lparr>rt_loaded := True\<rparr>, Inr (rt_tuples_of (t'\<lparr>rt_loaded := True\<rparr>)))))"
  by (simp add: rt_get_all_def rt_tuples_of_def scan_master_def split: prod.splits sum.splits)

lemma rt_tuples_of_exact:
  assumes "rt_ok t" and "provider_ok (rt_provider t)" and "rt_loaded t"
  shows "hm_ok (rt_tuples_of t)" and "map_of (rt_tuples_of t) d = Some c \<longleftrightarrow> rt_view t d = Inr (Some c)"
proof -
  have "rt_scan t (\<lambda>_ _. True) = Inr (rt_tuples_of t)"
    using assms(3) by (simp add: rt_scan_def rt_tuples_of_def)
  from rt_scan_eq_spec [OF assms(1,2) this]
  show "hm_ok (rt_tuples_of t)" and "map_of (rt_tuples_of t) d = Some c \<longleftrightarrow> rt_view t d = Inr (Some c)"
    by (simp_all add: scan_spec_exact)
qed

lemma rt_view_fully_load:
  assumes "rt_ok t" and "provider_ok (rt_provider t)" and "\<not> rt_loaded t"
    and "rt_fully_load_from_provider t = (t', Inr ())" and "rt_view t d = Inr r"
  shows "rt_view (t'\<lparr>rt_loaded := True\<rparr>) d = Inr r"
  using assms(5) rt_fully_load_ok(1,3) [OF assms(1-4) refl]
  by (auto simp: rt_view_def rbind_Inr_iff split: option.splits)

lemma rt_source_fully_load:
  "rt_fully_load_from_provider t = (t', r) \<Longrightarrow> rt_source t' = rt_source t"
  by (auto simp: rt_fully_load_from_provider_def split: sum.splits)

lemma rt_get_all_exact:
  assumes "rt_ok t" and "provider_ok (rt_provider t)" and "rt_get_all t = (t', Inr rows)"
  shows "rt_ok t' \<and> hm_ok rows \<and> (\<forall>d c. map_of rows d = Some c \<longleftrightarrow> rt_view t' d = Inr (Some c))
    \<and> (\<forall>d r. rt_view t d = Inr r \<longrightarrow> rt_view t' d = Inr r)"
proof (cases "rt_loaded t")
  case True
  with assms show ?thesis by (auto simp: rt_get_all_nf rt_tuples_of_exact)
next
  case False
  with assms(3) obtain t1 where load: "rt_fully_load_from_provider t = (t1, Inr ())"
    and t': "t' = t1\<lparr>rt_loaded := True\<rparr>" and rows: "rows = rt_tuples_of t'"
    by (auto simp: rt_get_all_nf split: prod.splits sum.splits)
  have ok: "rt_ok t'"
    unfolding t' using assms(1,2) False load by (rule rt_ok_fully_load)
  have "provider_ok (rt_provider t')" and "rt_loaded t'"
    using assms(2) rt_source_fully_load [OF load] by (simp_all add: t')
  from rt_tuples_of_exact [OF ok this] show ?thesis
    using ok rt_view_fully_load [OF assms(1,2) False load] by (simp add: rows t')
qed

lemma rt_ok_get_all:
  assumes "rt_ok t" and "provider_ok (rt_provider t)"
  shows "rt_ok (fst (rt_get_all t))"
proof (cases "snd (rt_get_all t)")
  case (Inl e)
  then have "fst (rt_get_all t) = t"
    by (auto simp: rt_get_all_nf rt_fully_load_from_provider_def split: sum.splits if_splits)
  then show ?thesis using assms(1) by simp
next
  case (Inr rows)
  then show ?thesis using rt_get_all_exact [OF assms] by (cases "rt_get_all t") auto
qed

subsection \<open>Bulk lookups\<close>

lemma rt_check_domains_loop_view:
  assumes "distinct valid"
  shows "rt_check_domains_loop t valid ds = Inr r \<Longrightarrow>
    distinct r \<and> set r = set valid \<union> {d \<in> set ds. \<exists>c. rt_view t d = Inr (Some c)}
    \<and> (\<forall>d \<in> set ds. \<exists>v. rt_view t d = Inr v)"
  using assms
proof (induction ds arbitrary: valid)
  case (Cons d ds)
  define valid' where "valid' = (if \<exists>c. rt_view t d = Inr (Some c) then List.insert d valid else valid)"
  have step: "rt_check_domains_loop t valid (d # ds) =
      rbind (rt_view t d) (\<lambda>v. rt_check_domains_loop t
        (if v \<noteq> None then List.insert d valid else valid) ds)"
    by (cases "backing_get t d")
      (auto simp: rt_view_def rt_base_def split: option.splits op_type.splits)
  obtain v where v: "rt_view t d = Inr v"
    and "rt_check_domains_loop t (if v \<noteq> None then List.insert d valid else valid) ds = Inr r"
    using Cons.prems unfolding step rbind_Inr_iff by blast
  then have "rt_check_domains_loop t valid' ds = Inr r"
    by (auto simp: valid'_def split: if_splits)
  moreover have "distinct valid'" using Cons.prems by (simp add: valid'_def)
  ultimately show ?case using Cons.IH [of valid'] v by (auto simp: valid'_def split: if_splits)
qed simp

lemma rt_bulk_get_loop_view:
  assumes ok: "rt_ok t"
  shows "rt_bulk_get_loop t res ds = Inr r \<Longrightarrow> hm_ok res \<Longrightarrow>
    hm_ok r \<and> (\<forall>d c. map_of r d = Some c \<longleftrightarrow>
      (if d \<in> set ds \<and> rt_view t d \<noteq> Inr None then rt_view t d = Inr (Some c)
       else map_of res d = Some c))"
proof (induction ds arbitrary: res)
  case (Cons d ds)
  define res' where
    "res' = (case rt_view t d of Inr (Some v) \<Rightarrow> hm_insert d v res | _ \<Rightarrow> res)"
  have step: "rt_bulk_get_loop t res (d # ds) =
      rbind (rt_view t d) (\<lambda>v. rt_bulk_get_loop t
        (case v of None \<Rightarrow> res | Some v \<Rightarrow> hm_insert d v res) ds)"
    using rt_ok_D(4) [OF ok, of d]
    by (cases "backing_get t d")
      (auto simp: rt_view_def rt_base_def split: option.splits op_type.splits)
  obtain v where v: "rt_view t d = Inr v"
    and "rt_bulk_get_loop t (case v of None \<Rightarrow> res | Some v \<Rightarrow> hm_insert d v res) ds = Inr r"
    using Cons.prems unfolding step rbind_Inr_iff by blast
  then have "rt_bulk_get_loop t res' ds = Inr r"
    by (auto simp: res'_def split: option.splits)
  moreover have "hm_ok res'" using Cons.prems v by (auto simp: res'_def split: option.splits)
  ultimately show ?case
    using Cons.IH [of res'] v by (cases v) (auto simp: res'_def)
qed simp

section \<open>Transactions as sequences of operations\<close>

text \<open>
  A transaction starts from an index whose entries its snapshot sees. The steps are the operations
  that may change the transaction; between two of them any number of reads may happen.
\<close>

definition rt_start :: "('d, 'c, 'o) relation_transaction \<Rightarrow> bool" where
  "rt_start t \<longleftrightarrow>
     (\<exists>tx name rd i p. t = rt_new_shared tx name rd i p \<and> idx_ok i \<and> tx_visible_ts tx < tx_ts tx
        \<and> (\<forall>d e. idx_lookup i d = Some e \<longrightarrow> ets e \<le> tx_visible_ts tx))
     \<or> (\<exists>tx name rd owner index p. t = rt_new_borrowed tx name rd owner index p
        \<and> idx_ok (index owner) \<and> tx_visible_ts tx < tx_ts tx
        \<and> (\<forall>d e. idx_lookup (index owner) d = Some e \<longrightarrow> ets e \<le> tx_visible_ts tx))"

inductive rt_step ::
  "('d, 'c, 'o) relation_transaction \<Rightarrow> ('d, 'c, 'o) relation_transaction \<Rightarrow> bool" where
  insert: "rt_step t (fst (rt_insert t d v))"
| insert_guaranteed_unique: "rt_step t (fst (rt_insert_guaranteed_unique t d v))"
| update: "rt_step t (fst (rt_update t d v))"
| upsert: "rt_step t (fst (rt_upsert t d v))"
| upsert_with: "rt_step t (fst (rt_upsert_with t d f))"
| update_with: "rt_step t (fst (rt_update_with t d g))"
| delete: "rt_step t (fst (rt_delete t d))"
| get_all: "provider_ok (rt_provider t) \<Longrightarrow> rt_step t (fst (rt_get_all t))"
| get_by_codomain: "rt_step t (fst (rt_get_by_codomain t c))"

inductive_cases rt_stepE [elim]: "rt_step t t'"

inductive rt_reachable :: "('d, 'c, 'o) relation_transaction \<Rightarrow> bool" where
  start: "rt_start t \<Longrightarrow> rt_reachable t"
| step: "rt_reachable t \<Longrightarrow> rt_step t t' \<Longrightarrow> rt_reachable t'"

lemma rt_new_frames [simp]:
  "rt_local (rt_new_shared tx name rd i p) = lo_new"
  "rt_master (rt_new_shared tx name rd i p) = TIShared i"
  "rt_tx (rt_new_shared tx name rd i p) = tx"
  "rt_loaded (rt_new_shared tx name rd i p) = idx_is_provider_fully_loaded i"
  "rt_local (rt_new_borrowed tx name rd owner index q) = lo_new"
  "rt_master (rt_new_borrowed tx name rd owner index q) = TIBorrowed owner index"
  "rt_tx (rt_new_borrowed tx name rd owner index q) = tx"
  "rt_loaded (rt_new_borrowed tx name rd owner index q) = idx_is_provider_fully_loaded (index owner)"
  by (simp_all add: rt_new_shared_def rt_new_borrowed_def)

lemma rt_start_ok: "rt_start t \<Longrightarrow> rt_ok t"
  by (auto simp: rt_start_def rt_ok_def)

lemma rt_for_each_frame:
  "rt_tx (fst (rt_get_by_codomain t c)) = rt_tx t"
  "rt_master (fst (rt_get_by_codomain t c)) = rt_master t"
  "rt_loaded (fst (rt_get_by_codomain t c)) = rt_loaded t"
  "rt_base (fst (rt_get_by_codomain t c)) = rt_base t"
  "lo_entries (rt_local (fst (rt_get_by_codomain t c))) = lo_entries (rt_local t)"
  by (simp_all add: rt_get_by_codomain_def rt_for_each_by_codomain_def case_prod_unfold Let_def
      split: sum.split)

lemma rt_ok_get_by_codomain:
  assumes "rt_ok t"
  shows "rt_ok (fst (rt_get_by_codomain t c))"
proof -
  have "lo_ok (rt_local (fst (rt_get_by_codomain t c)))"
    using rt_ok_D(2) [OF assms]
    by (simp add: rt_get_by_codomain_def rt_for_each_by_codomain_def case_prod_unfold Let_def
        split: sum.split)
  moreover have "op_ok (fst (rt_get_by_codomain t c)) d x = op_ok t d x" for d x
    by (rule op_ok_cong) (simp_all add: rt_for_each_frame)
  ultimately show ?thesis
    using assms by (simp add: rt_ok_def rt_for_each_frame)
qed

lemma rt_ok_step: "rt_step t t' \<Longrightarrow> rt_ok t \<Longrightarrow> rt_ok t'"
  by (induction rule: rt_step.induct)
    (simp_all add: rt_ok_insert rt_ok_insert_guaranteed_unique rt_ok_update rt_ok_upsert
      rt_ok_upsert_with rt_update_with_def rt_ok_delete rt_ok_get_all rt_ok_get_by_codomain)

lemma rt_reachable_ok: "rt_reachable t \<Longrightarrow> rt_ok t"
  by (induction rule: rt_reachable.induct) (auto intro: rt_start_ok rt_ok_step)

section \<open>Abstract specification\<close>

type_synonym ('d, 'c) view = "'d \<Rightarrow> tx_error + 'c option"

definition spec_insert :: "('d, 'c) view \<Rightarrow> 'd \<Rightarrow> 'c \<Rightarrow> ('d, 'c) view \<times> (tx_error + unit)" where
  "spec_insert V d v =
     (case V d of
        Inl e \<Rightarrow> (V, Inl e)
      | Inr (Some _) \<Rightarrow> (V, Inl Duplicate)
      | Inr None \<Rightarrow> (V(d := Inr (Some v)), Inr ()))"

definition spec_update :: "('d, 'c) view \<Rightarrow> 'd \<Rightarrow> 'c \<Rightarrow> ('d, 'c) view \<times> (tx_error + 'c option)" where
  "spec_update V d v =
     (case V d of
        Inl e \<Rightarrow> (V, Inl e)
      | Inr None \<Rightarrow> (V, Inr None)
      | Inr (Some u) \<Rightarrow> (V(d := Inr (Some v)), Inr (Some u)))"

definition spec_upsert_with ::
  "('d, 'c) view \<Rightarrow> 'd \<Rightarrow> ('c option \<Rightarrow> 'c option) \<Rightarrow> ('d, 'c) view \<times> (tx_error + 'c option)" where
  "spec_upsert_with V d f =
     (case V d of
        Inl e \<Rightarrow> (V, Inl e)
      | Inr r \<Rightarrow> (case f r of None \<Rightarrow> V | Some v \<Rightarrow> V(d := Inr (Some v)), Inr r))"

definition spec_delete :: "('d, 'c) view \<Rightarrow> 'd \<Rightarrow> ('d, 'c) view \<times> (tx_error + 'c option)" where
  "spec_delete V d =
     (case V d of Inl e \<Rightarrow> (V, Inl e) | Inr r \<Rightarrow> (V(d := Inr None), Inr r))"

lemma rt_insert_refines:
  assumes "rt_ok t"
  shows "map_prod rt_view (\<lambda>r. r) (rt_insert t d v) = spec_insert (rt_view t) d v"
  using rt.insert_absent [OF assms] rt.insert_present [OF assms] rt.insert_error [OF assms]
  by (intro prod_eqI) (simp_all add: spec_insert_def split: sum.split option.split)

lemma rt_update_refines:
  assumes "rt_ok t"
  shows "map_prod rt_view (\<lambda>r. r) (rt_update t d v) = spec_update (rt_view t) d v"
  using rt.update_absent [OF assms] rt.update_present [OF assms] rt.update_error [OF assms]
  by (intro prod_eqI) (simp_all add: spec_update_def split: sum.split option.split)

lemma rt_upsert_refines:
  assumes "rt_ok t"
  shows "map_prod rt_view (\<lambda>r. r) (rt_upsert t d v) = spec_upsert_with (rt_view t) d (\<lambda>_. Some v)"
  using rt.upsert_ok [OF assms] rt.upsert_error [OF assms]
  by (intro prod_eqI) (simp_all add: spec_upsert_with_def split: sum.split option.split)

lemma rt_upsert_with_refines:
  "map_prod rt_view (\<lambda>r. r) (rt_upsert_with t d f) = spec_upsert_with (rt_view t) d f"
  by (auto simp: rt_upsert_with_nf spec_upsert_with_def rt_view_def [of t d]
      split: sum.split option.split)

lemma rt_delete_refines:
  assumes "rt_ok t"
  shows "map_prod rt_view (\<lambda>r. r) (rt_delete t d) = spec_delete (rt_view t) d"
  using rt.delete_ok [OF assms] rt.delete_error [OF assms]
  by (intro prod_eqI) (simp_all add: spec_delete_def split: sum.split option.split)

section \<open>Properties\<close>

text \<open>
  A transaction to evaluate the properties on: its snapshot (at timestamp 5) holds key 6 in the
  index and keys 2 and 3 in the backing source, the latter in a version newer than the snapshot.
\<close>

definition demo_index :: "(nat, nat) relation_index" where
  "demo_index = SecondaryIndexRelation (fst (sir_insert_entry hri_new_with_secondary 3 6 10))"

definition demo_tx :: "(nat, nat, unit) relation_transaction" where
  "demo_tx = rt_new_shared \<lparr>tx_ts = 9, tx_visible_ts = 5, tx_snapshot_version = 0\<rparr> ''demo''
     \<lparr>rd_display = (\<lambda>_. ''key''), rd_target = (\<lambda>_. None)\<rparr> demo_index
     (list_provider [(4, 2, 20), (7, 3, 30)])"

lemma demo_index_ok: "idx_ok demo_index"
  using sir_reachable.insert_entry [OF sir_reachable.new, THEN sir_reachable_ok]
  by (simp add: demo_index_def)

lemma demo_index_lookup: "idx_lookup demo_index = [6 \<mapsto> mk_entry 3 10]"
  by (simp add: demo_index_def idx_lookup_def [abs_def] hri_new_with_secondary_def)

lemma demo_index_loaded: "\<not> idx_is_provider_fully_loaded demo_index"
  by (simp add: demo_index_def idx_is_provider_fully_loaded_def hri_new_with_secondary_def)

lemma demo_tx_reachable: "rt_reachable demo_tx"
  by (rule rt_reachable.start)
    (auto simp: rt_start_def demo_tx_def demo_index_ok demo_index_lookup intro!: exI split: if_splits)

lemma demo_tx_ok: "rt_ok demo_tx"
  using demo_tx_reachable by (rule rt_reachable_ok)

lemma demo_tx_provider: "provider_ok (rt_provider demo_tx)"
  by (simp add: demo_tx_def rt_new_shared_def list_provider_ok)

lemma demo_tx_view:
  "rt_view demo_tx 6 = Inr (Some 10)" "rt_view demo_tx 2 = Inr (Some 20)"
  "rt_view demo_tx 4 = Inr None"
  "rt_view demo_tx 3 = Inl (Conflict \<lparr>ci_relation_name = ''demo'', ci_domain_key = ''key'',
     ci_target = None, ci_conflict_type = ConcurrentWrite\<rparr>)"
  by (simp_all add: rt_view_def rt_base_def backing_get_def rt_conflict_def make_conflict_info_def
      demo_tx_def rt_new_shared_def demo_index_lookup demo_index_loaded list_provider_def)

text \<open>
  C7. Every write of a relation transaction refines its specification on the map of visible
  values: inserts, updates, upserts, closures and deletes change the visible map exactly as
  specified, return the value that was visible before, and report a duplicate insert or a failed
  read without changing the map, whatever sequence of operations the transaction ran before and
  whether the key is in the local log, the snapshot's index or the backing source.
\<close>

theorem relation_transaction_refines:
  assumes "rt_reachable t"
  shows "map_prod rt_view (\<lambda>r. r) (rt_insert t d v) = spec_insert (rt_view t) d v
    \<and> map_prod rt_view (\<lambda>r. r) (rt_update t d v) = spec_update (rt_view t) d v
    \<and> map_prod rt_view (\<lambda>r. r) (rt_upsert t d v) = spec_upsert_with (rt_view t) d (\<lambda>_. Some v)
    \<and> map_prod rt_view (\<lambda>r. r) (rt_upsert_with t d f) = spec_upsert_with (rt_view t) d f
    \<and> map_prod rt_view (\<lambda>r. r) (rt_delete t d) = spec_delete (rt_view t) d"
  using rt_reachable_ok [OF assms]
  by (simp add: rt_insert_refines rt_update_refines rt_upsert_refines rt_upsert_with_refines
      rt_delete_refines)

theorem relation_transaction_refines_witness:
  "rt_reachable demo_tx
   \<and> snd (rt_insert demo_tx 6 11) = Inl Duplicate
   \<and> rt_view (fst (rt_insert demo_tx 4 40)) 4 = Inr (Some 40)
   \<and> snd (rt_delete demo_tx 2) = Inr (Some 20)"
proof -
  note R = relation_transaction_refines [OF demo_tx_reachable]
  have "snd (rt_insert demo_tx 6 11) = snd (spec_insert (rt_view demo_tx) 6 11)"
    using R [of 6 11] by (metis snd_map_prod)
  moreover have "rt_view (fst (rt_insert demo_tx 4 40)) = fst (spec_insert (rt_view demo_tx) 4 40)"
    using R [of 4 40] by (metis fst_map_prod)
  moreover have "snd (rt_delete demo_tx 2) = snd (spec_delete (rt_view demo_tx) 2)"
    using R [of 2] by (metis snd_map_prod)
  ultimately show ?thesis
    by (simp add: demo_tx_reachable spec_insert_def spec_delete_def demo_tx_view)
qed


text \<open>
  C15. The bulk reads agree with the single ones: a successful \<open>check_domains\<close> returns exactly the
  requested keys that are visible, and a successful \<open>bulk_get\<close> exactly their visible values.
\<close>

theorem relation_transaction_bulk_reads:
  assumes "rt_reachable t"
    and "rt_check_domains t ds = Inr valid" and "rt_bulk_get t ds = Inr rows"
  shows "distinct valid \<and> set valid = {d \<in> set ds. \<exists>c. rt_get t d = Inr (Some c)}
    \<and> hm_ok rows \<and> (\<forall>d c. map_of rows d = Some c \<longleftrightarrow> d \<in> set ds \<and> rt_get t d = Inr (Some c))"
proof -
  have "distinct valid \<and> set valid = {d \<in> set ds. \<exists>c. rt_get t d = Inr (Some c)}"
    using rt_check_domains_loop_view [of "[]" t ds valid] assms(2)
    by (simp add: rt_check_domains_def rt_get_eq_view)
  moreover have "hm_ok rows \<and>
      (\<forall>d c. map_of rows d = Some c \<longleftrightarrow> d \<in> set ds \<and> rt_get t d = Inr (Some c))"
    using rt_bulk_get_loop_view [OF rt_reachable_ok [OF assms(1)], of "[]" ds rows] assms(3)
    by (auto simp: rt_bulk_get_def rt_get_eq_view)
  ultimately show ?thesis by blast
qed

theorem relation_transaction_bulk_reads_witness:
  "rt_check_domains demo_tx [2, 4, 6] = Inr [6, 2]
   \<and> rt_bulk_get demo_tx [2, 4, 6] = Inr [(2, 20), (6, 10)]
   \<and> set [6, 2] = {d \<in> set [2, 4, 6]. \<exists>c. rt_get demo_tx d = Inr (Some c)}"
proof -
  have *: "lo_is_empty (rt_local demo_tx)" "master_lookup demo_tx = [6 \<mapsto> mk_entry 3 10]"
    "visible_ts demo_tx = 5" "\<not> rt_loaded demo_tx"
    by (simp_all add: demo_tx_def demo_index_lookup demo_index_loaded)
  have b: "backing_get demo_tx 2 = Inr (Some (4, 20))" "backing_get demo_tx 4 = Inr None"
    by (simp_all add: backing_get_def demo_tx_def rt_new_shared_def list_provider_def)
  have 1: "rt_check_domains demo_tx [2, 4, 6] = Inr [6, 2]"
    by (simp add: rt_check_domains_def * b)
  have 2: "rt_bulk_get demo_tx [2, 4, 6] = Inr [(2, 20), (6, 10)]"
    by (simp add: rt_bulk_get_def * b)
  from 1 2 relation_transaction_bulk_reads [OF demo_tx_reachable 1 2] show ?thesis by blast
qed

text \<open>
  C16. A read never returns a row newer than the transaction's snapshot: a value the transaction
  did not write itself is that of an index entry or of a backing row whose timestamp the snapshot
  sees. A backing row that is newer makes the read a concurrent-write conflict.
\<close>

theorem read_within_snapshot:
  assumes "rt_reachable t" and "lo_get (rt_local t) d = None"
  shows "(rt_get t d = Inr (Some v) \<longrightarrow> (\<exists>ts \<le> visible_ts t.
        master_lookup t d = Some (mk_entry ts v)
        \<or> src_get (rt_provider t) d = Inr (Some (ts, v))))
    \<and> (master_lookup t d = None \<longrightarrow> \<not> rt_loaded t \<longrightarrow>
        src_get (rt_provider t) d = Inr (Some (ts, u)) \<longrightarrow> ts > visible_ts t \<longrightarrow>
        rt_get t d = Inl (rt_conflict t d ConcurrentWrite))"
proof -
  have "\<exists>ts \<le> visible_ts t. master_lookup t d = Some (mk_entry ts v)
      \<or> src_get (rt_provider t) d = Inr (Some (ts, v))" if "rt_get t d = Inr (Some v)"
  proof -
    from that assms(2) obtain ts where base: "rt_base t d = Inr (Some (ts, v))"
      by (auto simp: rt_get_eq_view rt_view_Some_iff)
    have "ts \<le> visible_ts t"
      using rt_base_visible [OF rt_reachable_ok [OF assms(1)] base] .
    moreover have "master_lookup t d = Some (mk_entry ts v)
        \<or> src_get (rt_provider t) d = Inr (Some (ts, v))"
      using base by (auto simp: rt_base_def dest: backing_get_SomeD split: option.splits if_splits)
    ultimately show ?thesis by blast
  qed
  then show ?thesis
    using assms(2) by (simp add: rt_get_eq_view rt_view_def rt_base_def backing_get_def)
qed

theorem read_within_snapshot_witness:
  "rt_get demo_tx 3 = Inl (rt_conflict demo_tx 3 ConcurrentWrite)
   \<and> (\<exists>ts \<le> 5. src_get (rt_provider demo_tx) 2 = Inr (Some (ts, 20)))"
proof -
  have lo: "lo_get (rt_local demo_tx) d = None" for d
    by (simp add: demo_tx_def)
  have s: "src_get (rt_provider demo_tx) 3 = Inr (Some (7, 30))" "\<not> rt_loaded demo_tx"
    "master_lookup demo_tx 3 = None" "master_lookup demo_tx 2 = None" "visible_ts demo_tx = 5"
    by (simp_all add: demo_tx_def rt_new_shared_def list_provider_def demo_index_loaded
        demo_index_lookup)
  have g: "rt_get demo_tx 2 = Inr (Some 20)"
    by (simp add: rt_get_eq_view demo_tx_view)
  show ?thesis
    using read_within_snapshot [OF demo_tx_reachable lo, of 3 _ 7 30]
      read_within_snapshot [OF demo_tx_reachable lo, of 2 20] s g by auto
qed





text \<open>
  C18. \<open>get_all\<close> returns exactly the visible tuples, each once, and loading the relation from the
  provider on the way changes no value the transaction could read before.
\<close>

theorem get_all_exact:
  assumes "rt_reachable t" and "provider_ok (rt_provider t)" and "rt_get_all t = (t', Inr rows)"
  shows "hm_ok rows \<and> (\<forall>d c. map_of rows d = Some c \<longleftrightarrow> rt_get t' d = Inr (Some c))
    \<and> (\<forall>d r. rt_get t d = Inr r \<longrightarrow> rt_get t' d = Inr r)"
  using rt_get_all_exact [OF rt_reachable_ok [OF assms(1)] assms(2,3)]
  by (simp add: rt_get_eq_view)

definition demo_tx2 :: "(nat, nat, unit) relation_transaction" where
  "demo_tx2 = rt_new_shared \<lparr>tx_ts = 9, tx_visible_ts = 5, tx_snapshot_version = 0\<rparr> ''demo''
     \<lparr>rd_display = (\<lambda>_. ''key''), rd_target = (\<lambda>_. None)\<rparr> demo_index
     (list_provider [(4, 2, 20)])"

lemma demo_tx2_facts:
  "rt_reachable demo_tx2" "provider_ok (rt_provider demo_tx2)"
  "lo_get (rt_local demo_tx2) d = None" "rt_view demo_tx2 2 = Inr (Some 20)"
  "rt_base demo_tx2 2 = Inr (Some (4, 20))"
proof -
  show "rt_reachable demo_tx2"
    by (rule rt_reachable.start)
      (auto simp: rt_start_def demo_tx2_def demo_index_ok demo_index_lookup intro!: exI split: if_splits)
  show "provider_ok (rt_provider demo_tx2)" "lo_get (rt_local demo_tx2) d = None"
    by (simp_all add: demo_tx2_def rt_new_shared_def list_provider_ok)
  show "rt_view demo_tx2 2 = Inr (Some 20)" "rt_base demo_tx2 2 = Inr (Some (4, 20))"
    by (simp_all add: rt_view_def rt_base_def backing_get_def demo_tx2_def rt_new_shared_def
        demo_index_lookup demo_index_loaded list_provider_def)
qed

lemma demo_tx2_get_all: "snd (rt_get_all demo_tx2) = Inr [(6, 10), (2, 20)]"
  by (simp add: rt_get_all_nf rt_fully_load_from_provider_def backing_scan_def demo_tx2_def
      rt_new_shared_def list_provider_def demo_index_loaded rt_tuples_of_def scan_master_def
      scan_local_def demo_index_def idx_iter_def fill_missing_def idx_lookup_def
      sir_insert_entry_def hri_insert_entry_def hri_new_with_secondary_def
      add_to_secondary_owned_def ti_modify_def idx_is_provider_fully_loaded_def)

theorem get_all_exact_witness:
  "snd (rt_get_all demo_tx2) = Inr [(6, 10), (2, 20)]
   \<and> rt_get (fst (rt_get_all demo_tx2)) 2 = Inr (Some 20)"
proof -
  have "rt_get_all demo_tx2 = (fst (rt_get_all demo_tx2), Inr [(6, 10), (2, 20)])"
    by (simp add: prod_eq_iff demo_tx2_get_all)
  from get_all_exact [OF demo_tx2_facts(1,2) this] show ?thesis
    by (simp add: demo_tx2_get_all rt_get_eq_view demo_tx2_facts(4))
qed


lemma demo_tx2_scan:
  "rt_scan demo_tx2 (\<lambda>d v. v = 20) = Inr [(2, 20)]"
  "rt_scan (fst (rt_update demo_tx2 2 21)) (\<lambda>d v. v = 20) = Inr [(2, 20)]"
proof -
  show "rt_scan demo_tx2 (\<lambda>d v. v = 20) = Inr [(2, 20)]"
    by (simp add: rt_scan_def backing_scan_def demo_tx2_def rt_new_shared_def list_provider_def
        demo_index_loaded demo_index_lookup scan_rows_def scan_master_def scan_local_def)
      (simp add: demo_index_def idx_iter_def hri_new_with_secondary_def sir_insert_entry_def
        hri_insert_entry_def add_to_secondary_owned_def)
  have nf: "fst (rt_update demo_tx2 2 21) = rt_log demo_tx2 2 (mk_op 4 9 (Update 21) False)"
    using rt_ok_D(4) [OF rt_reachable_ok [OF demo_tx2_facts(1)]]
    by (simp add: rt_update_nf demo_tx2_facts fresh_op_def) (simp add: demo_tx2_def)
  show "rt_scan (fst (rt_update demo_tx2 2 21)) (\<lambda>d v. v = 20) = Inr [(2, 20)]"
    unfolding nf
    by (simp add: rt_scan_def backing_scan_def rt_log_def demo_tx2_def rt_new_shared_def
        list_provider_def demo_index_loaded demo_index_lookup scan_rows_def scan_master_def
        scan_local_def lo_insert_def)
      (simp add: demo_index_def idx_iter_def hri_new_with_secondary_def sir_insert_entry_def
        hri_insert_entry_def add_to_secondary_owned_def)
qed


text \<open>
  C22. A \<open>scan\<close> returns a value the transaction no longer sees: after an update that moves a row
  out of the predicate, a scan of the same transaction still returns the row, with its old value,
  while \<open>get\<close> returns the new one.
\<close>

theorem scan_returns_overwritten_row:
  assumes "rt_reachable t" and "provider_ok (rt_provider t)"
    and "lo_get (rt_local t) d = None" and "rt_base t d = Inr (Some (ts, old))"
    and "P d old" and "\<not> P d new"
    and "rt_scan (fst (rt_update t d new)) P = Inr rows"
  shows "(d, old) \<in> set rows \<and> rt_get (fst (rt_update t d new)) d = Inr (Some new)"
proof -
  let ?t = "fst (rt_update t d new)"
  have ok: "rt_ok t" using assms(1) by (rule rt_reachable_ok)
  have nf: "?t = rt_log t d (fresh_op t (Some (ts, old)) new)"
    using rt_ok_D(4) [OF ok] assms(3,4) by (simp add: rt_update_nf)
  have p: "provider_ok (rt_provider ?t)"
    unfolding nf using assms(2) by simp
  note scan = rt_scan_eq_spec [OF rt_ok_update [OF ok] p assms(7)]
  have "scan_spec ?t P d = Some old"
    unfolding nf using assms(4-6) by (simp add: scan_spec_def base_match_def)
  then have "(d, old) \<in> set rows"
    using scan(2) [of d] in_set_hm_iff [OF scan(1)] by simp
  moreover have "rt_get ?t d = Inr (Some new)"
    unfolding nf rt_get_eq_view by simp
  ultimately show ?thesis by blast
qed

theorem scan_returns_overwritten_row_witness:
  "rt_scan (fst (rt_update demo_tx2 2 21)) (\<lambda>d v. v = 20) = Inr [(2, 20)]
   \<and> rt_get (fst (rt_update demo_tx2 2 21)) 2 = Inr (Some 21)"
  using scan_returns_overwritten_row [OF demo_tx2_facts(1,2,3,5), where P = "\<lambda>d v. v = 20" and new = 21]
    demo_tx2_scan(2) by simp

end
