(* ===== verification/Check.thy ===== *)
theory Check
  imports RelTx
begin

text \<open>
  The check phase of a commit on one relation, \<open>crates/db/src/tx/check.rs\<close> and
  \<open>crates/db/src/tx/resolve.rs\<close>: each operation of a working set is compared with the canonical
  state, a fork of the published index backed by the provider, and every conflict is put to a
  resolver. The code's resolvers are \<open>FailOnConflict\<close> and a closure without state, so a resolver is
  a function of the conflict. The warning about long checks is left out.

  \<open>cr_state\<close> is the canonical state of a key and \<open>conflict_of\<close> the conflict it makes with an
  operation; the loop is shown to decide exactly the conflicts, to leave the canonical state as it
  was, and to rewrite no operation but those the resolver rewrites.
\<close>

section \<open>Model\<close>

datatype 'c proposed_op = PInsert 'c | PUpdate 'c | PDelete

fun proposed_value :: "'c proposed_op \<Rightarrow> 'c option" where
  "proposed_value (PInsert v) = Some v"
| "proposed_value (PUpdate v) = Some v"
| "proposed_value PDelete = None"

record ('d, 'c) potential_conflict =
  pc_info :: conflict_info
  pc_domain :: 'd
  pc_base :: "(timestamp \<times> 'c) option"
  pc_theirs :: "(timestamp \<times> 'c) option"
  pc_mine :: "'c proposed_op"
  pc_read_ts :: timestamp
  pc_write_ts :: timestamp

datatype 'c resolution = Accept | Rewrite 'c

type_synonym ('d, 'c) resolver = "('d, 'c) potential_conflict \<Rightarrow> tx_error + 'c resolution"

definition fail_on_conflict :: "('d, 'c) resolver" where
  "fail_on_conflict conflict = Inl (Conflict (pc_info conflict))"

record ('d, 'c) check_relation =
  cr_index :: "('d, 'c) relation_index"
  cr_relation_name :: symbol
  cr_domain :: "'d relation_domain"
  cr_source :: "('d, 'c) provider"
  cr_dirty :: bool

definition cr_num_entries :: "('d, 'c) check_relation \<Rightarrow> nat" where
  "cr_num_entries cr = idx_len (cr_index cr)"

definition make_potential_conflict ::
  "('d, 'c) check_relation \<Rightarrow> 'd \<Rightarrow> conflict_type \<Rightarrow> (timestamp \<times> 'c) option
     \<Rightarrow> (timestamp \<times> 'c) option \<Rightarrow> 'c op \<Rightarrow> ('d, 'c) potential_conflict" where
  "make_potential_conflict cr d ct base theirs x =
     \<lparr>pc_info = make_conflict_info (cr_domain cr) (cr_relation_name cr) d ct, pc_domain = d,
      pc_base = base, pc_theirs = theirs,
      pc_mine = (case operation x of Insert v \<Rightarrow> PInsert v | Update v \<Rightarrow> PUpdate v | Delete \<Rightarrow> PDelete),
      pc_read_ts = read_ts x, pc_write_ts = write_ts x\<rparr>"

text \<open>
  \<open>match resolver.resolve(&conflict)? { Accept => .., Rewrite(v) => op.operation = mk(v) }\<close>, with
  the base value looked up in the transaction's own index.
\<close>

definition resolve_op ::
  "('d, 'c) check_relation \<Rightarrow> ('d, 'c) relation_index \<Rightarrow> ('d, 'c) resolver \<Rightarrow> 'd \<Rightarrow> conflict_type
     \<Rightarrow> (timestamp \<times> 'c) option \<Rightarrow> ('c \<Rightarrow> 'c op_type) \<Rightarrow> 'c op \<Rightarrow> tx_error + 'c op" where
  "resolve_op cr base R d ct theirs mk x =
     rbind (R (make_potential_conflict cr d ct
          (map_option (\<lambda>e. (ets e, evalue e)) (idx_lookup base d)) theirs x)) (\<lambda>r.
       case r of Accept \<Rightarrow> Inr x | Rewrite v \<Rightarrow> Inr (x\<lparr>operation := mk v\<rparr>))"

text \<open>The body of the loop over the working set.\<close>

definition check_op ::
  "('d, 'c) check_relation \<Rightarrow> ('d, 'c) relation_index \<Rightarrow> ('d, 'c) resolver \<Rightarrow> 'd \<Rightarrow> 'c op
     \<Rightarrow> ('d, 'c) check_relation \<times> (tx_error + 'c op)" where
  "check_op cr base R d x =
     (if guaranteed_unique x then (cr, Inr x)
      else case idx_lookup (cr_index cr) d of
        Some e \<Rightarrow>
          (cr, if is_insert (operation x)
               then resolve_op cr base R d InsertDuplicate (Some (ets e, evalue e)) Insert x
               else if ets e \<noteq> read_ts x
               then resolve_op cr base R d ConcurrentWrite (Some (ets e, evalue e)) Update x
               else if read_ts x > write_ts x
               then resolve_op cr base R d StaleRead (Some (ets e, evalue e)) Update x
               else Inr x)
      | None \<Rightarrow>
          (case (if idx_is_provider_fully_loaded (cr_index cr) then Inr None
                 else src_get (cr_source cr) d) of
             Inl err \<Rightarrow> (cr, Inl err)
           | Inr (Some (ts, c)) \<Rightarrow>
               (let cr' = cr\<lparr>cr_index := fst (idx_insert_entry (cr_index cr) ts d c)\<rparr>
                in (cr', if is_insert (operation x)
                         then resolve_op cr' base R d InsertDuplicate (Some (ts, c)) Insert x
                         else if ts \<noteq> read_ts x
                         then resolve_op cr' base R d ConcurrentWrite (Some (ts, c)) Update x
                         else Inr x))
           | Inr None \<Rightarrow>
               (cr, if is_update (operation x) \<or> (is_delete (operation x) \<and> read_ts x \<noteq> write_ts x)
                    then resolve_op cr base R d UpdateNonExistent None Insert x
                    else Inr x)))"

fun check_loop ::
  "('d, 'c) check_relation \<Rightarrow> ('d, 'c) relation_index \<Rightarrow> ('d, 'c) resolver \<Rightarrow> ('d, 'c op) hmap
     \<Rightarrow> ('d, 'c) check_relation \<times> (tx_error + ('d, 'c op) hmap)" where
  "check_loop cr base R [] = (cr, Inr [])"
| "check_loop cr base R ((d, x) # m) =
     (case check_op cr base R d x of
        (cr', Inl e) \<Rightarrow> (cr', Inl e)
      | (cr', Inr x') \<Rightarrow>
          (case check_loop cr' base R m of
             (cr'', Inl e) \<Rightarrow> (cr'', Inl e)
           | (cr'', Inr m') \<Rightarrow> (cr'', Inr ((d, x') # m'))))"

definition check_with_resolver ::
  "('d, 'c) check_relation \<Rightarrow> ('d, 'c) working_set \<Rightarrow> ('d, 'c) resolver
     \<Rightarrow> ('d, 'c) check_relation \<times> (tx_error + ('d, 'c) working_set)" where
  "check_with_resolver cr ws R =
     (case check_loop (cr\<lparr>cr_dirty := \<not> ws_is_empty ws\<rparr>) (base_index ws) R (tuples ws) of
        (cr', Inl e) \<Rightarrow> (cr', Inl e)
      | (cr', Inr m) \<Rightarrow> (cr', Inr (ws\<lparr>tuples := m\<rparr>)))"

definition check ::
  "('d, 'c) check_relation \<Rightarrow> ('d, 'c) working_set
     \<Rightarrow> ('d, 'c) check_relation \<times> (tx_error + ('d, 'c) working_set)" where
  "check cr ws = check_with_resolver cr ws fail_on_conflict"

section \<open>Canonical state and conflicts\<close>

definition cr_state ::
  "('d, 'c) check_relation \<Rightarrow> 'd \<Rightarrow> tx_error + (timestamp \<times> 'c) option" where
  "cr_state cr d =
     (case idx_lookup (cr_index cr) d of
        Some e \<Rightarrow> Inr (Some (ets e, evalue e))
      | None \<Rightarrow> if idx_is_provider_fully_loaded (cr_index cr) then Inr None
                else src_get (cr_source cr) d)"

fun conflict_of :: "(timestamp \<times> 'c) option \<Rightarrow> 'c op \<Rightarrow> conflict_type option" where
  "conflict_of (Some (ts, _)) x =
     (if is_insert (operation x) then Some InsertDuplicate
      else if ts \<noteq> read_ts x then Some ConcurrentWrite else None)"
| "conflict_of None x =
     (if is_update (operation x) \<or> (is_delete (operation x) \<and> read_ts x \<noteq> write_ts x)
      then Some UpdateNonExistent else None)"

text \<open>The operation type a resolver's rewrite turns an operation into.\<close>

fun rewrite_as :: "conflict_type \<Rightarrow> 'c \<Rightarrow> 'c op_type" where
  "rewrite_as InsertDuplicate = Insert"
| "rewrite_as ConcurrentWrite = Update"
| "rewrite_as StaleRead = Update"
| "rewrite_as UpdateNonExistent = Insert"

text \<open>What the check does with an operation, given the canonical state of its key.\<close>

definition check_spec ::
  "('d, 'c) check_relation \<Rightarrow> ('d, 'c) relation_index \<Rightarrow> ('d, 'c) resolver \<Rightarrow> 'd \<Rightarrow> 'c op
     \<Rightarrow> tx_error + 'c op" where
  "check_spec cr base R d x =
     (if guaranteed_unique x then Inr x
      else rbind (cr_state cr d) (\<lambda>r.
        case conflict_of r x of
          None \<Rightarrow> Inr x
        | Some ct \<Rightarrow> resolve_op cr base R d ct r (rewrite_as ct) x))"

definition ops_timely :: "('d, 'c op) hmap \<Rightarrow> bool" where
  "ops_timely m \<longleftrightarrow> (\<forall>x \<in> snd ` set m. read_ts x \<le> write_ts x)"

text \<open>Two checkers that stand for the same canonical state of the same relation.\<close>

definition cr_equiv :: "('d, 'c) check_relation \<Rightarrow> ('d, 'c) check_relation \<Rightarrow> bool" where
  "cr_equiv cr cr' \<longleftrightarrow> cr_state cr' = cr_state cr \<and> cr_domain cr' = cr_domain cr
     \<and> cr_relation_name cr' = cr_relation_name cr \<and> cr_source cr' = cr_source cr
     \<and> cr_dirty cr' = cr_dirty cr
     \<and> idx_is_provider_fully_loaded (cr_index cr') = idx_is_provider_fully_loaded (cr_index cr)
     \<and> (idx_ok (cr_index cr) \<longrightarrow> idx_ok (cr_index cr'))"

lemma cr_equiv_refl [simp]: "cr_equiv cr cr"
  by (simp add: cr_equiv_def)

lemma cr_equiv_trans: "cr_equiv a b \<Longrightarrow> cr_equiv b c \<Longrightarrow> cr_equiv a c"
  by (simp add: cr_equiv_def)

lemma resolve_op_cong:
  "cr_domain cr' = cr_domain cr \<Longrightarrow> cr_relation_name cr' = cr_relation_name cr \<Longrightarrow>
     resolve_op cr' base R d ct theirs mk x = resolve_op cr base R d ct theirs mk x"
  by (simp add: resolve_op_def make_potential_conflict_def)

lemma resolve_op_index [simp]:
  "resolve_op (cr\<lparr>cr_index := i\<rparr>) base R d ct theirs mk x = resolve_op cr base R d ct theirs mk x"
  by (rule resolve_op_cong) simp_all

lemma check_spec_equiv:
  assumes "cr_equiv cr cr'"
  shows "check_spec cr' base R d x = check_spec cr base R d x"
proof -
  have "resolve_op cr' base R d ct r mk x = resolve_op cr base R d ct r mk x" for ct r mk
    using assms by (intro resolve_op_cong) (simp_all add: cr_equiv_def)
  then show ?thesis using assms by (simp add: check_spec_def cr_equiv_def cong: option.case_cong)
qed

lemma cr_state_fill:
  assumes "idx_lookup (cr_index cr) d = None" and "\<not> idx_is_provider_fully_loaded (cr_index cr)"
    and "src_get (cr_source cr) d = Inr (Some (ts, c))"
  shows "cr_equiv cr (cr\<lparr>cr_index := fst (idx_insert_entry (cr_index cr) ts d c)\<rparr>)"
  using assms
  by (auto simp: cr_equiv_def cr_state_def idx.insert_entry_lookup idx.insert_entry_loaded
      idx.insert_entry_invar fun_eq_iff split: option.splits)

lemma check_op_equiv: "cr_equiv cr (fst (check_op cr base R d x))"
  by (auto simp: check_op_def Let_def cr_state_fill split: option.splits sum.splits)

lemma check_op_result:
  assumes "read_ts x \<le> write_ts x"
  shows "snd (check_op cr base R d x) = check_spec cr base R d x"
proof (cases "idx_lookup (cr_index cr) d")
  case None
  then show ?thesis
    using assms
    by (auto simp: check_op_def check_spec_def cr_state_def Let_def
        split: option.splits sum.splits)
next
  case (Some e)
  then show ?thesis
    using assms by (auto simp: check_op_def check_spec_def cr_state_def)
qed

section \<open>The loop\<close>

text \<open>Apply a fallible function to every operation, in order.\<close>

fun traverse_ops ::
  "('d \<Rightarrow> 'c op \<Rightarrow> 'e + 'c op) \<Rightarrow> ('d, 'c op) hmap \<Rightarrow> 'e + ('d, 'c op) hmap" where
  "traverse_ops f [] = Inr []"
| "traverse_ops f ((d, x) # m) =
     rbind (f d x) (\<lambda>x'. rbind (traverse_ops f m) (\<lambda>m'. Inr ((d, x') # m')))"

lemma traverse_ops_keys: "traverse_ops f m = Inr m' \<Longrightarrow> map fst m' = map fst m"
  by (induction m arbitrary: m' rule: traverse_ops.induct) (auto simp: rbind_Inr_iff)

lemma traverse_ops_lookup:
  "traverse_ops f m = Inr m' \<Longrightarrow>
     (case map_of m d of None \<Rightarrow> map_of m' d = None
      | Some x \<Rightarrow> \<exists>x'. f d x = Inr x' \<and> map_of m' d = Some x')"
proof (induction m arbitrary: m')
  case (Cons y m)
  obtain k x where y: "y = (k, x)" by fastforce
  from Cons.prems obtain x' m1 where f: "f k x = Inr x'" and m1: "traverse_ops f m = Inr m1"
    and m': "m' = (k, x') # m1"
    by (auto simp: y rbind_Inr_iff)
  show ?case
    using Cons.IH [OF m1] f by (simp add: y m' split: option.splits)
qed simp

lemma traverse_ops_ok:
  "(\<And>d x. (d, x) \<in> set m \<Longrightarrow> f d x = Inr x) \<Longrightarrow> traverse_ops f m = Inr m"
  by (induction m rule: traverse_ops.induct) auto

lemma traverse_ops_succeeds:
  "(\<exists>m'. traverse_ops f m = Inr m') \<longleftrightarrow> (\<forall>(d, x) \<in> set m. \<exists>x'. f d x = Inr x')"
  by (induction m) (auto simp: rbind_Inr_iff)

lemma check_loop_equiv: "cr_equiv cr (fst (check_loop cr base R m))"
proof (induction m arbitrary: cr)
  case (Cons y m)
  obtain d x where y: "y = (d, x)" by fastforce
  obtain cr' r where op: "check_op cr base R d x = (cr', r)" by fastforce
  have 1: "cr_equiv cr cr'"
    using check_op_equiv [of cr base R d x] by (simp add: op)
  show ?case
    using 1 cr_equiv_trans [OF 1 Cons.IH [of cr']]
    by (auto simp: y op split: sum.split prod.split)
qed simp

lemma check_loop_result:
  assumes "ops_timely m"
  shows "snd (check_loop cr base R m) = traverse_ops (check_spec cr base R) m"
  using assms
proof (induction m arbitrary: cr)
  case (Cons y m)
  obtain d x where y: "y = (d, x)" by fastforce
  obtain cr' r where op: "check_op cr base R d x = (cr', r)" by fastforce
  have eq: "check_spec cr' base R = check_spec cr base R"
    using check_spec_equiv [of cr cr' base R] check_op_equiv [of cr base R d x]
    by (simp add: op fun_eq_iff)
  have r: "r = check_spec cr base R d x"
    using check_op_result [of x cr base R d] Cons.prems by (simp add: op ops_timely_def y)
  have IH: "snd (check_loop cr' base R m) = traverse_ops (check_spec cr base R) m"
    using Cons.IH [of cr'] Cons.prems by (simp add: eq ops_timely_def)
  show ?case
    by (cases "check_spec cr base R d x"; cases "check_loop cr' base R m";
        cases "traverse_ops (check_spec cr base R) m")
      (use IH in \<open>auto simp: y op r\<close>)
qed simp

lemma cr_state_dirty [simp]: "cr_state (cr\<lparr>cr_dirty := b\<rparr>) = cr_state cr"
  by (simp add: cr_state_def fun_eq_iff split: option.split)

lemma check_spec_dirty [simp]: "check_spec (cr\<lparr>cr_dirty := b\<rparr>) = check_spec cr"
  by (intro ext)
    (simp add: check_spec_def resolve_op_def make_potential_conflict_def cong: option.case_cong)

lemma check_with_resolver_result:
  assumes "ops_timely (tuples ws)"
  shows "snd (check_with_resolver cr ws R) =
    rbind (traverse_ops (check_spec cr (base_index ws) R) (tuples ws)) (\<lambda>m. Inr (ws\<lparr>tuples := m\<rparr>))"
  using check_loop_result [OF assms, of "cr\<lparr>cr_dirty := \<not> ws_is_empty ws\<rparr>" "base_index ws" R]
  by (cases "traverse_ops (check_spec cr (base_index ws) R) (tuples ws)")
    (auto simp: check_with_resolver_def split: sum.split prod.split)

lemma check_with_resolver_equiv:
  "cr_equiv (cr\<lparr>cr_dirty := \<not> ws_is_empty ws\<rparr>) (fst (check_with_resolver cr ws R))"
  using check_loop_equiv [of "cr\<lparr>cr_dirty := \<not> ws_is_empty ws\<rparr>" "base_index ws" R "tuples ws"]
  by (auto simp: check_with_resolver_def split: sum.split prod.split)

text \<open>With the default resolver an operation passes exactly when it does not conflict.\<close>

definition no_conflict :: "('d, 'c) check_relation \<Rightarrow> 'd \<Rightarrow> 'c op \<Rightarrow> bool" where
  "no_conflict cr d x \<longleftrightarrow>
     guaranteed_unique x \<or> (\<exists>r. cr_state cr d = Inr r \<and> conflict_of r x = None)"

lemma check_spec_fail:
  "check_spec cr base fail_on_conflict d x = Inr x' \<longleftrightarrow> no_conflict cr d x \<and> x' = x"
  by (auto simp: check_spec_def no_conflict_def resolve_op_def fail_on_conflict_def rbind_Inr_iff
      split: option.splits if_splits)

lemma check_ok_iff:
  assumes "ops_timely (tuples ws)"
  shows "(\<exists>ws'. snd (check cr ws) = Inr ws') \<longleftrightarrow> (\<forall>(d, x) \<in> set (tuples ws). no_conflict cr d x)"
proof -
  have "(\<exists>ws'. snd (check cr ws) = Inr ws') \<longleftrightarrow>
      (\<exists>m'. traverse_ops (check_spec cr (base_index ws) fail_on_conflict) (tuples ws) = Inr m')"
    by (auto simp: check_def check_with_resolver_result [OF assms] rbind_Inr_iff)
  then show ?thesis
    by (simp add: traverse_ops_succeeds check_spec_fail)
qed

lemma check_unchanged:
  assumes "ops_timely (tuples ws)" and "snd (check cr ws) = Inr ws'"
  shows "ws' = ws"
proof -
  have "\<forall>(d, x) \<in> set (tuples ws). no_conflict cr d x"
    using check_ok_iff [OF assms(1), of cr] assms(2) by blast
  then have "traverse_ops (check_spec cr (base_index ws) fail_on_conflict) (tuples ws) = Inr (tuples ws)"
    by (intro traverse_ops_ok) (auto simp: check_spec_fail)
  with assms(2) show ?thesis
    by (simp add: check_def check_with_resolver_result [OF assms(1)])
qed

section \<open>Properties\<close>

lemma rt_working_set_simps [simp]:
  "tuples (rt_working_set t) = lo_entries (rt_local t)"
  "base_index (rt_working_set t) = ti_deref (rt_master t)"
  "ws_fully_loaded (rt_working_set t) = rt_loaded t"
  by (simp_all add: rt_working_set_def ws_new_shared_def lo_into_map_def)

lemma rt_working_set_keys: "rt_ok t \<Longrightarrow> hm_ok (tuples (rt_working_set t))"
  by (simp add: rt_ok_def lo_ok_def)

lemma rt_working_set_timely:
  assumes "rt_ok t"
  shows "ops_timely (tuples (rt_working_set t))"
proof -
  have "read_ts x \<le> write_ts x" if "(d, x) \<in> set (lo_entries (rt_local t))" for d x
  proof -
    have "lo_get (rt_local t) d = Some x"
      using that in_set_hm_iff [OF rt_working_set_keys [OF assms]] by simp
    from rt_ok_D(5) [OF assms this] rt_ok_D(3) [OF assms] show ?thesis
      by (auto simp: op_ok_def)
  qed
  then show ?thesis by (auto simp: ops_timely_def)
qed

text \<open>The version of a key: the timestamp of its row, if it has one.\<close>

definition same_version ::
  "tx_error + (timestamp \<times> 'c) option \<Rightarrow> tx_error + (timestamp \<times> 'c) option \<Rightarrow> bool" where
  "same_version a b \<longleftrightarrow> (\<exists>r s. a = Inr r \<and> b = Inr s \<and> map_option fst r = map_option fst s)"

lemma op_ok_no_conflict:
  assumes "op_ok t d x" and "\<not> guaranteed_unique x"
    and "\<And>ts v. cr_state cr d = Inr (Some (ts, v)) \<Longrightarrow> ts \<noteq> rt_write_ts t"
  shows "no_conflict cr d x \<longleftrightarrow> same_version (cr_state cr d) (rt_base t d)"
proof (cases "cr_state cr d")
  case (Inl e)
  then show ?thesis using assms(2) by (simp add: no_conflict_def same_version_def)
next
  case (Inr r)
  have fresh: "ts \<noteq> rt_write_ts t" if "r = Some (ts, v)" for ts v
    using assms(3) Inr that by simp
  show ?thesis
    using assms(1,2) fresh Inr
    by (cases r; cases "operation x")
      (auto simp: no_conflict_def same_version_def op_ok_def split: if_splits)
qed

text \<open>
  C8. The conflict check is exact: for the working set of any transaction, it succeeds if and only
  if every key the transaction wrote (other than by an unconditional insert) still has, in the
  canonical state, the version the transaction saw at its start. So of two transactions that
  wrote the same key from the same snapshot only the first to publish passes, and no transaction is
  rejected without such a change. A successful check leaves the working set and the canonical
  state as they were.
\<close>

theorem check_exact:
  assumes "rt_reachable t"
    and "\<And>d ts v. cr_state cr d = Inr (Some (ts, v)) \<Longrightarrow> ts \<noteq> rt_write_ts t"
  shows "((\<exists>ws. snd (check cr (rt_working_set t)) = Inr ws) \<longleftrightarrow>
      (\<forall>d x. map_of (tuples (rt_working_set t)) d = Some x \<longrightarrow> \<not> guaranteed_unique x \<longrightarrow>
         same_version (cr_state cr d) (rt_base t d)))
    \<and> (\<forall>ws. snd (check cr (rt_working_set t)) = Inr ws \<longrightarrow> ws = rt_working_set t)
    \<and> cr_state (fst (check cr (rt_working_set t))) = cr_state cr"
proof -
  have ok: "rt_ok t" using assms(1) by (rule rt_reachable_ok)
  note timely = rt_working_set_timely [OF ok]
  have pair: "(d, x) \<in> set (lo_entries (rt_local t)) \<longleftrightarrow> lo_get (rt_local t) d = Some x" for d x
    using in_set_hm_iff [OF rt_working_set_keys [OF ok]] by simp
  have nc: "no_conflict cr d x \<longleftrightarrow> guaranteed_unique x \<or> same_version (cr_state cr d) (rt_base t d)"
    if "lo_get (rt_local t) d = Some x" for d x
    using op_ok_no_conflict [OF rt_ok_D(5) [OF ok that] _ assms(2)]
    by (cases "guaranteed_unique x") (simp_all add: no_conflict_def)
  have "(\<exists>ws. snd (check cr (rt_working_set t)) = Inr ws) \<longleftrightarrow>
      (\<forall>d x. lo_get (rt_local t) d = Some x \<longrightarrow> no_conflict cr d x)"
    unfolding check_ok_iff [OF timely] by (force simp: pair)
  then have 1: "(\<exists>ws. snd (check cr (rt_working_set t)) = Inr ws) \<longleftrightarrow>
      (\<forall>d x. lo_get (rt_local t) d = Some x \<longrightarrow> \<not> guaranteed_unique x \<longrightarrow>
         same_version (cr_state cr d) (rt_base t d))"
    using nc by auto
  have "cr_state (fst (check cr (rt_working_set t))) = cr_state cr"
    using check_with_resolver_equiv [where cr = cr and ws = "rt_working_set t" and R = fail_on_conflict]
    by (simp add: check_def cr_equiv_def)
  then show ?thesis
    using 1 check_unchanged [OF timely] by simp
qed

definition demo_checker :: "(nat, nat) relation_index \<Rightarrow> (nat, nat) check_relation" where
  "demo_checker i = \<lparr>cr_index = i, cr_relation_name = ''demo'',
     cr_domain = \<lparr>rd_display = (\<lambda>_. ''key''), rd_target = (\<lambda>_. None)\<rparr>,
     cr_source = list_provider [(4, 2, 20)], cr_dirty = False\<rparr>"

lemma demo_checker_state:
  "cr_state (demo_checker demo_index) d =
     (if d = 6 then Inr (Some (3, 10)) else if d = 2 then Inr (Some (4, 20)) else Inr None)"
  by (simp add: cr_state_def demo_checker_def demo_index_lookup demo_index_loaded list_provider_def)

lemma demo_upsert_nf:
  "fst (rt_upsert demo_tx2 2 21) = rt_log demo_tx2 2 (mk_op 4 9 (Update 21) False)"
  by (simp add: rt_upsert_nf demo_tx2_facts fresh_op_def) (simp add: demo_tx2_def)

theorem check_exact_witness:
  "\<exists>ws. snd (check (demo_checker demo_index) (rt_working_set (fst (rt_upsert demo_tx2 2 21)))) = Inr ws"
proof -
  let ?t = "fst (rt_upsert demo_tx2 2 21)"
  have r: "rt_reachable ?t"
    by (rule rt_reachable.step [OF demo_tx2_facts(1) rt_step.upsert])
  have ts: "rt_write_ts ?t = 9"
    unfolding demo_upsert_nf by (simp add: demo_tx2_def)
  have f: "ts \<noteq> rt_write_ts ?t"
    if "cr_state (demo_checker demo_index) d = Inr (Some (ts, v))" for d ts v
    using that by (auto simp: demo_checker_state ts split: if_splits)
  have v: "same_version (cr_state (demo_checker demo_index) d) (rt_base ?t d)"
    if "map_of (tuples (rt_working_set ?t)) d = Some x" for d x
  proof -
    have "d = 2"
      using that by (auto simp: demo_upsert_nf demo_tx2_facts split: if_splits)
    moreover have "rt_base ?t 2 = Inr (Some (4, 20))"
      by (simp add: demo_upsert_nf demo_tx2_facts)
    ultimately show ?thesis by (simp add: demo_checker_state same_version_def)
  qed
  from check_exact [OF r, of "demo_checker demo_index"] f v show ?thesis by blast
qed

text \<open>
  C20. Whatever the resolver, a check that succeeds keeps the keys and timestamps of the working
  set, leaves every operation without a conflict as it was, and changes a conflicting one only as
  the resolver said: accepted conflicts are kept, rewritten ones carry the resolver's value.
\<close>

theorem check_resolver_frame:
  assumes "ops_timely (tuples ws)" and "snd (check_with_resolver cr ws R) = Inr ws'"
  shows "hm_keys (tuples ws') = hm_keys (tuples ws) \<and> base_index ws' = base_index ws
    \<and> (\<forall>d x. map_of (tuples ws) d = Some x \<longrightarrow> (\<exists>x'. map_of (tuples ws') d = Some x'
        \<and> read_ts x' = read_ts x \<and> write_ts x' = write_ts x
        \<and> guaranteed_unique x' = guaranteed_unique x
        \<and> (no_conflict cr d x \<longrightarrow> x' = x)
        \<and> (\<not> no_conflict cr d x \<longrightarrow> (\<exists>conflict. pc_domain conflict = d \<and>
             (R conflict = Inr Accept \<and> x' = x
              \<or> (\<exists>v. R conflict = Inr (Rewrite v) \<and> op_value x' = Some v))))))"
proof -
  from assms(2) obtain m where m: "traverse_ops (check_spec cr (base_index ws) R) (tuples ws) = Inr m"
    and ws': "ws' = ws\<lparr>tuples := m\<rparr>"
    by (auto simp: check_with_resolver_result [OF assms(1)] rbind_Inr_iff)
  have op: "read_ts x' = read_ts x \<and> write_ts x' = write_ts x
      \<and> guaranteed_unique x' = guaranteed_unique x \<and> (no_conflict cr d x \<longrightarrow> x' = x)
      \<and> (\<not> no_conflict cr d x \<longrightarrow> (\<exists>conflict. pc_domain conflict = d \<and>
           (R conflict = Inr Accept \<and> x' = x
            \<or> (\<exists>v. R conflict = Inr (Rewrite v) \<and> op_value x' = Some v))))"
    if x': "check_spec cr (base_index ws) R d x = Inr x'" for d x x'
  proof (cases "no_conflict cr d x")
    case True
    then show ?thesis using x' by (auto simp: check_spec_def no_conflict_def split: if_splits)
  next
    case False
    then obtain r ct where "cr_state cr d = Inr r" "conflict_of r x = Some ct" "\<not> guaranteed_unique x"
      using x' by (auto simp: check_spec_def no_conflict_def rbind_Inr_iff)
    then have "resolve_op cr (base_index ws) R d ct r (rewrite_as ct) x = Inr x'"
      using x' by (simp add: check_spec_def)
    moreover define conflict where "conflict = make_potential_conflict cr d ct
        (map_option (\<lambda>e. (ets e, evalue e)) (idx_lookup (base_index ws) d)) r x"
    ultimately obtain res where "R conflict = Inr res"
      and "(case res of Accept \<Rightarrow> Inr x | Rewrite v \<Rightarrow> Inr (x\<lparr>operation := rewrite_as ct v\<rparr>)) = (Inr x' :: tx_error + _)"
      unfolding resolve_op_def rbind_Inr_iff by blast
    moreover have "pc_domain conflict = d"
      by (simp add: conflict_def make_potential_conflict_def)
    ultimately show ?thesis
      using False by (cases res; cases ct) (auto intro!: exI [of _ conflict])
  qed
  have "\<exists>x'. map_of m d = Some x' \<and> check_spec cr (base_index ws) R d x = Inr x'"
    if "map_of (tuples ws) d = Some x" for d x
    using traverse_ops_lookup [OF m, of d] that by auto
  then show ?thesis
    using op traverse_ops_keys [OF m] by (fastforce simp: ws')
qed

theorem check_resolver_frame_witness:
  "\<exists>ws'. snd (check_with_resolver (demo_checker demo_index)
        (ws_new [(2, mk_op 1 9 (Update 21) False)] demo_index) (\<lambda>_. Inr (Rewrite 99))) = Inr ws'
     \<and> (\<exists>x'. map_of (tuples ws') 2 = Some x' \<and> read_ts x' = 1)
     \<and> tuples ws' = [(2, mk_op 1 9 (Update 99) False)]"
proof -
  let ?ws = "ws_new [(2, mk_op 1 9 (Update 21) False)] demo_index"
  have timely: "ops_timely (tuples ?ws)"
    by (simp add: ops_timely_def ws_new_def)
  have run: "snd (check_with_resolver (demo_checker demo_index) ?ws (\<lambda>_. Inr (Rewrite 99))) =
      Inr (?ws\<lparr>tuples := [(2, mk_op 1 9 (Update 99) False)]\<rparr>)"
    unfolding check_with_resolver_result [OF timely]
    by (simp add: ws_new_def check_spec_def demo_checker_state resolve_op_def)
  from check_resolver_frame [OF timely run] run show ?thesis
    by (auto simp: ws_new_def)
qed

end
