(* ===== verification/Apply.thy ===== *)
theory Apply
  imports Check
begin

text \<open>
  The apply phase of a commit on one relation, \<open>crates/db/src/tx/apply.rs\<close>, and the relation that
  hands out indexes, transactions and checkers, \<open>crates/db/src/tx/relation.rs\<close>.
  \<open>RelationCodomain::clone_for_commit\<close> of \<open>tx/mod.rs\<close>, the identity for all codomains but property
  values, is the argument \<open>cc\<close>. The performance counters are left out.

  \<open>overlay\<close> is the specification: the working set's operations laid over an index. Both ways a
  commit builds its index, \<open>prepare_indexes\<close> on the checked fork and \<open>rebased_snapshot_index\<close> on a
  later root, implement it.
\<close>

section \<open>Model\<close>

text \<open>\<open>collect_index_ops\<close>, also the loop of \<open>prepare_indexes\<close>.\<close>

fun collect_ops ::
  "('c \<Rightarrow> 'c) \<Rightarrow> ('d, 'c op) hmap
     \<Rightarrow> ('d, 'c) index_insert list \<times> 'd index_tombstone list
     \<Rightarrow> ('d, 'c) index_insert list \<times> 'd index_tombstone list" where
  "collect_ops cc [] acc = acc"
| "collect_ops cc ((d, x) # m) (inserts, tombstones) =
     collect_ops cc m
       (case operation x of
          Insert v \<Rightarrow> (inserts @ [(write_ts x, d, cc v)], tombstones)
        | Update v \<Rightarrow> (inserts @ [(write_ts x, d, cc v)], tombstones)
        | Delete \<Rightarrow> (inserts, tombstones @ [(write_ts x, d)]))"

definition collect_index_ops ::
  "('c \<Rightarrow> 'c) \<Rightarrow> ('d, 'c) working_set
     \<Rightarrow> ('d, 'c) index_insert list \<times> 'd index_tombstone list" where
  "collect_index_ops cc ws = collect_ops cc (tuples ws) ([], [])"

definition apply_batch_instrumented ::
  "('d, 'c) relation_index \<Rightarrow> ('d, 'c) index_insert list \<Rightarrow> 'd index_tombstone list
     \<Rightarrow> ('d, 'c) relation_index" where
  "apply_batch_instrumented i inserts tombstones =
     (if length inserts + length tombstones > 0 then idx_apply_batch i inserts tombstones else i)"

definition prepare_indexes ::
  "('c \<Rightarrow> 'c) \<Rightarrow> ('d, 'c) check_relation \<Rightarrow> ('d, 'c) working_set \<Rightarrow> ('d, 'c) check_relation" where
  "prepare_indexes cc cr ws =
     (let cr1 = (if ws_fully_loaded ws
                 then cr\<lparr>cr_index := idx_set_provider_fully_loaded (cr_index cr) True\<rparr> else cr)
      in if ws_is_empty ws then cr1
         else (let (inserts, tombstones) = collect_ops cc (tuples ws) ([], [])
               in cr1\<lparr>cr_dirty := True,
                      cr_index := apply_batch_instrumented (cr_index cr1) inserts tombstones\<rparr>))"

definition snapshot_index_or ::
  "('d, 'c) check_relation \<Rightarrow> ('d, 'c) relation_index \<Rightarrow> ('d, 'c) relation_index" where
  "snapshot_index_or cr existing = (if cr_dirty cr then cr_index cr else existing)"

definition rebased_snapshot_index ::
  "('c \<Rightarrow> 'c) \<Rightarrow> ('d, 'c) check_relation \<Rightarrow> ('d, 'c) relation_index \<Rightarrow> ('d, 'c) working_set
     \<Rightarrow> ('d, 'c) relation_index" where
  "rebased_snapshot_index cc cr existing ws =
     (if \<not> cr_dirty cr then existing
      else (let rebased = (if ws_fully_loaded ws then idx_set_provider_fully_loaded existing True
                           else existing);
                (inserts, tombstones) = collect_index_ops cc ws
            in idx_apply_batch rebased inserts tombstones))"

definition committed_index_or ::
  "('d, 'c) check_relation \<Rightarrow> ('d, 'c) relation_index \<Rightarrow> ('d, 'c) relation_index" where
  "committed_index_or cr existing = (if cr_dirty cr then cr_index cr else existing)"

text \<open>
  \<open>apply\<close> also writes to the provider, through \<open>put\<close> and \<open>del\<close>, which act on a store of type
  \<open>'p\<close>: a failing \<open>put\<close> is ignored, a failing \<open>del\<close> panics (\<open>None\<close>).
\<close>

fun apply_ops ::
  "('p \<Rightarrow> timestamp \<Rightarrow> 'd \<Rightarrow> 'c \<Rightarrow> 'p \<times> (tx_error + unit))
     \<Rightarrow> ('p \<Rightarrow> timestamp \<Rightarrow> 'd \<Rightarrow> 'p \<times> (tx_error + unit))
     \<Rightarrow> ('c \<Rightarrow> 'c) \<Rightarrow> 'p \<Rightarrow> ('d, 'c op) hmap
     \<Rightarrow> ('d, 'c) index_insert list \<times> 'd index_tombstone list
     \<Rightarrow> ('p \<times> ('d, 'c) index_insert list \<times> 'd index_tombstone list) option" where
  "apply_ops put del cc p [] (inserts, tombstones) = Some (p, inserts, tombstones)"
| "apply_ops put del cc p ((d, x) # m) (inserts, tombstones) =
     (case op_value x of
        Some v \<Rightarrow>
          apply_ops put del cc (fst (put p (write_ts x) d (cc v))) m
            (inserts @ [(write_ts x, d, cc v)], tombstones)
      | None \<Rightarrow>
          (case del p (write_ts x) d of
             (_, Inl _) \<Rightarrow> None
           | (p', Inr _) \<Rightarrow> apply_ops put del cc p' m (inserts, tombstones @ [(write_ts x, d)])))"

definition cr_apply ::
  "('p \<Rightarrow> timestamp \<Rightarrow> 'd \<Rightarrow> 'c \<Rightarrow> 'p \<times> (tx_error + unit))
     \<Rightarrow> ('p \<Rightarrow> timestamp \<Rightarrow> 'd \<Rightarrow> 'p \<times> (tx_error + unit))
     \<Rightarrow> ('c \<Rightarrow> 'c) \<Rightarrow> 'p \<Rightarrow> ('d, 'c) check_relation \<Rightarrow> ('d, 'c) working_set
     \<Rightarrow> ('p \<times> ('d, 'c) check_relation) option" where
  "cr_apply put del cc p cr ws =
     (let cr1 = (if ws_fully_loaded ws
                 then cr\<lparr>cr_index := idx_set_provider_fully_loaded (cr_index cr) True\<rparr> else cr);
          cr2 = (if ws_is_empty ws then cr1 else cr1\<lparr>cr_dirty := True\<rparr>)
      in map_option (\<lambda>(p', inserts, tombstones).
           (p', cr2\<lparr>cr_index := apply_batch_instrumented (cr_index cr2) inserts tombstones\<rparr>))
           (apply_ops put del cc p (tuples ws) ([], [])))"

subsection \<open>Relations\<close>

text \<open>A relation; its index factory makes a primary or a secondary index.\<close>

record ('d, 'c) relation =
  rel_name :: symbol
  rel_domain :: "'d relation_domain"
  rel_source :: "('d, 'c) provider"
  rel_index_factory :: "unit \<Rightarrow> ('d, 'c) relation_index"

definition primary_index_factory :: "unit \<Rightarrow> ('d, 'c) relation_index" where
  "primary_index_factory _ = HashRelationIndex hri_new"

definition secondary_index_factory :: "unit \<Rightarrow> ('d, 'c) relation_index" where
  "secondary_index_factory _ = SecondaryIndexRelation hri_new_with_secondary"

definition relation_new ::
  "symbol \<Rightarrow> 'd relation_domain \<Rightarrow> ('d, 'c) provider \<Rightarrow> ('d, 'c) relation" where
  "relation_new name rd source =
     \<lparr>rel_name = name, rel_domain = rd, rel_source = source,
      rel_index_factory = primary_index_factory\<rparr>"

definition relation_new_with_secondary ::
  "symbol \<Rightarrow> 'd relation_domain \<Rightarrow> ('d, 'c) provider \<Rightarrow> ('d, 'c) relation" where
  "relation_new_with_secondary name rd source =
     \<lparr>rel_name = name, rel_domain = rd, rel_source = source,
      rel_index_factory = secondary_index_factory\<rparr>"

definition seeded_index_with_max_timestamp ::
  "('d, 'c) relation \<Rightarrow> tx_error + ('d, 'c) relation_index \<times> timestamp" where
  "seeded_index_with_max_timestamp rel =
     rbind (provider_seed (rel_source rel) (rel_index_factory rel ())) (\<lambda>(max_ts, index).
       Inr (idx_set_provider_fully_loaded index True, max_ts))"

definition seeded_index :: "('d, 'c) relation \<Rightarrow> tx_error + ('d, 'c) relation_index" where
  "seeded_index rel = rbind (seeded_index_with_max_timestamp rel) (\<lambda>(index, _). Inr index)"

definition start_from_index ::
  "('d, 'c) relation \<Rightarrow> tx \<Rightarrow> ('d, 'c) relation_index \<Rightarrow> ('d, 'c, 'o) relation_transaction" where
  "start_from_index rel tx index =
     rt_new_shared tx (rel_name rel) (rel_domain rel) index (rel_source rel)"

definition start_borrowed ::
  "('d, 'c) relation \<Rightarrow> tx \<Rightarrow> 'o \<Rightarrow> ('o \<Rightarrow> ('d, 'c) relation_index) \<Rightarrow> ('o \<Rightarrow> ('d, 'c) provider)
     \<Rightarrow> ('d, 'c, 'o) relation_transaction" where
  "start_borrowed rel tx owner index source =
     rt_new_borrowed tx (rel_name rel) (rel_domain rel) owner index source"

definition begin_check_from_index ::
  "('d, 'c) relation \<Rightarrow> ('d, 'c) relation_index \<Rightarrow> ('d, 'c) check_relation" where
  "begin_check_from_index rel index =
     \<lparr>cr_index = index, cr_relation_name = rel_name rel, cr_domain = rel_domain rel,
      cr_source = rel_source rel, cr_dirty = False\<rparr>"

section \<open>Laying a working set over an index\<close>

definition overlay ::
  "('c \<Rightarrow> 'c) \<Rightarrow> ('d, 'c op) hmap \<Rightarrow> ('d \<Rightarrow> 'c entry option) \<Rightarrow> 'd \<Rightarrow> 'c entry option" where
  "overlay cc m f d =
     (case map_of m d of
        None \<Rightarrow> f d
      | Some x \<Rightarrow> map_option (\<lambda>v. mk_entry (write_ts x) (cc v)) (op_value x))"

text \<open>The loop of \<open>collect_index_ops\<close> is a filter.\<close>

definition insert_of :: "('c \<Rightarrow> 'c) \<Rightarrow> 'd \<times> 'c op \<Rightarrow> ('d, 'c) index_insert list" where
  "insert_of cc y = (case op_value (snd y) of
     None \<Rightarrow> [] | Some v \<Rightarrow> [(write_ts (snd y), fst y, cc v)])"

definition tombstone_of :: "'d \<times> 'c op \<Rightarrow> 'd index_tombstone list" where
  "tombstone_of y = (case op_value (snd y) of None \<Rightarrow> [(write_ts (snd y), fst y)] | Some _ \<Rightarrow> [])"

lemma collect_ops_eq:
  "collect_ops cc m acc =
     (fst acc @ concat (map (insert_of cc) m), snd acc @ concat (map tombstone_of m))"
  by (induction cc m acc rule: collect_ops.induct)
    (auto simp: insert_of_def tombstone_of_def split: op_type.splits)

lemma collect_index_ops_eq:
  "collect_index_ops cc ws =
     (concat (map (insert_of cc) (tuples ws)), concat (map tombstone_of (tuples ws)))"
  by (simp add: collect_index_ops_def collect_ops_eq)

lemma insert_of_mem:
  "(t, d, c) \<in> set (insert_of cc y) \<longleftrightarrow>
     (\<exists>v. op_value (snd y) = Some v \<and> t = write_ts (snd y) \<and> d = fst y \<and> c = cc v)"
  by (cases "op_value (snd y)") (auto simp: insert_of_def)

lemma tombstone_of_mem:
  "(t, d) \<in> set (tombstone_of y) \<longleftrightarrow> op_value (snd y) = None \<and> t = write_ts (snd y) \<and> d = fst y"
  by (auto simp: tombstone_of_def split: option.splits)

lemma insert_doms_subset: "ins_dom ` set (concat (map (insert_of cc) m)) \<subseteq> fst ` set m"
  by (force simp: insert_of_mem)

lemma tombstone_doms_subset: "snd ` set (concat (map tombstone_of m)) \<subseteq> fst ` set m"
  by (force simp: tombstone_of_mem)

lemma batch_doms_distinct:
  assumes "hm_ok m"
  shows "distinct (batch_doms (concat (map (insert_of cc) m)) (concat (map tombstone_of m)))"
  using assms
proof (induction m)
  case (Cons y m)
  let ?is = "concat (map (insert_of cc) m)" and ?ts = "concat (map tombstone_of m)"
  have "fst y \<notin> fst ` set m"
    using Cons.prems by simp
  then have new: "fst y \<notin> ins_dom ` set ?is" "fst y \<notin> snd ` set ?ts"
    using insert_doms_subset [of cc m] tombstone_doms_subset [of m] by blast+
  have IH: "distinct (map ins_dom ?is)" "distinct (map snd ?ts)"
    "ins_dom ` set ?is \<inter> snd ` set ?ts = {}"
    using Cons by (simp_all only: distinct_append distinct.simps list.map set_map)
  show ?case
  proof (cases "op_value (snd y)")
    case None
    then have "insert_of cc y = []" "tombstone_of y = [(write_ts (snd y), fst y)]"
      by (simp_all add: insert_of_def tombstone_of_def)
    then show ?thesis
      using new IH by (simp only: list.map concat.simps append.simps distinct_append distinct.simps
          set_map list.set snd_conv image_insert) simp
  next
    case (Some v)
    then have "insert_of cc y = [(write_ts (snd y), fst y, cc v)]" "tombstone_of y = []"
      by (simp_all add: insert_of_def tombstone_of_def)
    then show ?thesis
      using new IH by (simp only: list.map concat.simps append.simps distinct_append distinct.simps
          set_map list.set fst_conv snd_conv image_insert) simp
  qed
qed simp

lemma overlay_batch:
  assumes "hm_ok m"
  shows "spec_tombstones (spec_inserts f (concat (map (insert_of cc) m))) (concat (map tombstone_of m)) =
    overlay cc m f"
proof (rule ext)
  fix d
  let ?is = "concat (map (insert_of cc) m)" and ?ts = "concat (map tombstone_of m)"
  have dist: "distinct (map ins_dom ?is)" "ins_dom ` set ?is \<inter> snd ` set ?ts = {}"
    using batch_doms_distinct [OF assms, of cc] by (simp_all only: distinct_append set_map)
  show "spec_tombstones (spec_inserts f ?is) ?ts d = overlay cc m f d"
  proof (cases "map_of m d")
    case None
    then have "d \<notin> fst ` set m" by (simp add: map_of_eq_None_iff)
    then have 1: "d \<notin> ins_dom ` set ?is" and 2: "d \<notin> snd ` set ?ts"
      using insert_doms_subset [of cc m] tombstone_doms_subset [of m] by blast+
    show ?thesis
      unfolding spec_tombstones_eq using 2 by (simp only: spec_inserts_other [OF 1] overlay_def None) simp
  next
    case (Some x)
    then have mem: "(d, x) \<in> set m" by (rule map_of_SomeD)
    show ?thesis
    proof (cases "op_value x")
      case None
      then have "(write_ts x, d) \<in> set ?ts"
        using mem by (force simp: tombstone_of_mem)
      then have "d \<in> snd ` set ?ts" by force
      then show ?thesis
        unfolding spec_tombstones_eq by (simp only: overlay_def Some) (simp add: None)
    next
      case v: (Some v)
      then have ins: "(write_ts x, d, cc v) \<in> set ?is"
        using mem by (force simp: insert_of_mem)
      then have "d \<notin> snd ` set ?ts" using dist(2) by force
      then show ?thesis
        unfolding spec_tombstones_eq by (simp only: overlay_def Some spec_inserts_in [OF dist(1) ins]) (simp add: v)
    qed
  qed
qed

lemma apply_batch_instrumented_lookup:
  "idx_lookup (apply_batch_instrumented i xs ts) = spec_tombstones (spec_inserts (idx_lookup i) xs) ts"
  by (auto simp: apply_batch_instrumented_def idx.apply_batch_lookup)

lemma apply_batch_instrumented_ok:
  "idx_ok i \<Longrightarrow> distinct (batch_doms xs ts) \<Longrightarrow> idx_ok (apply_batch_instrumented i xs ts)"
  by (simp add: apply_batch_instrumented_def idx.apply_batch_invar)

lemma apply_batch_instrumented_loaded:
  "idx_is_provider_fully_loaded (apply_batch_instrumented i xs ts) = idx_is_provider_fully_loaded i"
  by (simp add: apply_batch_instrumented_def idx.apply_batch_loaded)

lemma overlay_Nil [simp]: "overlay cc [] f = f"
  by (simp add: overlay_def fun_eq_iff)

section \<open>Building the index of a commit\<close>

text \<open>
  The contract of the two ways to build the index of a commit: the working set laid over the index
  it starts from. The lemmas are what the commit pipeline relies on.
\<close>

locale index_builder =
  fixes cc :: "'c \<Rightarrow> 'c"
    and build :: "('d, 'c) relation_index \<Rightarrow> ('d, 'c) working_set \<Rightarrow> ('d, 'c) relation_index"
  assumes build_lookup: "hm_ok (tuples ws) \<Longrightarrow>
        idx_lookup (build i ws) = overlay cc (tuples ws) (idx_lookup i)"
    and build_ok: "idx_ok i \<Longrightarrow> hm_ok (tuples ws) \<Longrightarrow> idx_ok (build i ws)"
    and build_loaded: "idx_is_provider_fully_loaded i \<Longrightarrow> idx_is_provider_fully_loaded (build i ws)"
begin

lemma build_untouched:
  "hm_ok (tuples ws) \<Longrightarrow> d \<notin> set (hm_keys (tuples ws)) \<Longrightarrow> idx_lookup (build i ws) d = idx_lookup i d"
  by (simp add: build_lookup overlay_def map_of_None_iff [THEN iffD2])

lemma build_written:
  "hm_ok (tuples ws) \<Longrightarrow> map_of (tuples ws) d = Some x \<Longrightarrow>
     idx_lookup (build i ws) d = map_option (\<lambda>v. mk_entry (write_ts x) (cc v)) (op_value x)"
  by (simp add: build_lookup overlay_def)

lemma build_bound:
  assumes "hm_ok (tuples ws)"
    and "\<And>d e. idx_lookup i d = Some e \<Longrightarrow> ets e \<le> b"
    and "\<And>d x. map_of (tuples ws) d = Some x \<Longrightarrow> write_ts x \<le> b"
    and "idx_lookup (build i ws) d = Some e"
  shows "ets e \<le> b"
  using assms(2,3) [of d] assms(4)
  by (auto simp: build_lookup [OF assms(1)] overlay_def split: option.splits)

lemma build_commute:
  assumes "hm_ok (tuples v)" and "hm_ok (tuples w)"
    and "set (hm_keys (tuples v)) \<inter> set (hm_keys (tuples w)) = {}"
  shows "idx_lookup (build (build i v) w) = idx_lookup (build (build i w) v)"
proof (rule ext)
  fix d
  have "map_of (tuples v) d = None \<or> map_of (tuples w) d = None"
    using assms(3) by (auto simp: map_of_None_iff)
  then show "idx_lookup (build (build i v) w) d = idx_lookup (build (build i w) v) d"
    by (auto simp: build_lookup assms overlay_def split: option.splits)
qed

end

text \<open>The index a checker prepares from a fork of \<open>i\<close>.\<close>

definition prepared_index ::
  "('c \<Rightarrow> 'c) \<Rightarrow> ('d, 'c) relation_index \<Rightarrow> ('d, 'c) working_set \<Rightarrow> ('d, 'c) relation_index" where
  "prepared_index cc i ws =
     (let i1 = (if ws_fully_loaded ws then idx_set_provider_fully_loaded i True else i);
          (inserts, tombstones) = collect_ops cc (tuples ws) ([], [])
      in if ws_is_empty ws then i1 else apply_batch_instrumented i1 inserts tombstones)"

lemma prepare_indexes_eq:
  "prepare_indexes cc cr ws =
     cr\<lparr>cr_dirty := cr_dirty cr \<or> \<not> ws_is_empty ws, cr_index := prepared_index cc (cr_index cr) ws\<rparr>"
  by (simp add: prepare_indexes_def prepared_index_def Let_def split: prod.split)

lemma prepared_index_secondary [simp]: "idx_is_secondary (prepared_index cc i ws) = idx_is_secondary i"
  by (simp add: prepared_index_def apply_batch_instrumented_def Let_def split: prod.split)

interpretation prep: index_builder cc "prepared_index cc :: ('d, 'c) relation_index \<Rightarrow> _"
  for cc :: "'c \<Rightarrow> 'c"
proof unfold_locales
  fix i :: "('d, 'c) relation_index" and ws
  show "idx_is_provider_fully_loaded i \<Longrightarrow> idx_is_provider_fully_loaded (prepared_index cc i ws)"
    by (simp add: prepared_index_def apply_batch_instrumented_loaded split: prod.split)
  assume ok: "hm_ok (tuples ws)"
  show "idx_lookup (prepared_index cc i ws) = overlay cc (tuples ws) (idx_lookup i)"
    using overlay_batch [OF ok, of "idx_lookup i" cc]
    by (simp add: prepared_index_def collect_ops_eq apply_batch_instrumented_lookup ws_is_empty_def)
  show "idx_ok i \<Longrightarrow> idx_ok (prepared_index cc i ws)"
    using batch_doms_distinct [OF ok, of cc]
    by (simp add: prepared_index_def collect_ops_eq apply_batch_instrumented_ok del: distinct_append)
qed

definition rebased_index ::
  "('c \<Rightarrow> 'c) \<Rightarrow> ('d, 'c) relation_index \<Rightarrow> ('d, 'c) working_set \<Rightarrow> ('d, 'c) relation_index" where
  "rebased_index cc i ws =
     (let i1 = (if ws_fully_loaded ws then idx_set_provider_fully_loaded i True else i);
          (inserts, tombstones) = collect_index_ops cc ws
      in idx_apply_batch i1 inserts tombstones)"

lemma rebased_snapshot_index_eq:
  "rebased_snapshot_index cc cr i ws = (if cr_dirty cr then rebased_index cc i ws else i)"
  by (simp add: rebased_snapshot_index_def rebased_index_def Let_def)

lemma rebased_index_secondary [simp]: "idx_is_secondary (rebased_index cc i ws) = idx_is_secondary i"
  by (simp add: rebased_index_def Let_def split: prod.split)

interpretation reb: index_builder cc "rebased_index cc :: ('d, 'c) relation_index \<Rightarrow> _"
  for cc :: "'c \<Rightarrow> 'c"
proof unfold_locales
  fix i :: "('d, 'c) relation_index" and ws
  show "idx_is_provider_fully_loaded i \<Longrightarrow> idx_is_provider_fully_loaded (rebased_index cc i ws)"
    by (simp add: rebased_index_def idx.apply_batch_loaded split: prod.split)
  assume ok: "hm_ok (tuples ws)"
  show "idx_lookup (rebased_index cc i ws) = overlay cc (tuples ws) (idx_lookup i)"
    using overlay_batch [OF ok, of "idx_lookup i" cc]
    by (simp add: rebased_index_def collect_index_ops_eq idx.apply_batch_lookup)
  show "idx_ok i \<Longrightarrow> idx_ok (rebased_index cc i ws)"
    using batch_doms_distinct [OF ok, of cc]
    by (simp add: rebased_index_def collect_index_ops_eq idx.apply_batch_invar del: distinct_append)
qed

text \<open>\<open>apply\<close> builds the same index as \<open>prepare_indexes\<close>, unless a provider deletion panics.\<close>

lemma apply_ops_collect:
  "apply_ops put del cc p m acc = Some (p', ins, ts) \<Longrightarrow> (ins, ts) = collect_ops cc m acc"
proof (induction put del cc p m acc rule: apply_ops.induct)
  case (2 put del cc p d x m inserts tombstones)
  then show ?case
    by (cases "operation x") (auto split: prod.splits sum.splits)
qed simp

lemma cr_apply_index:
  assumes "cr_apply put del cc p cr ws = Some (p', cr')"
  shows "cr' = prepare_indexes cc cr ws"
proof -
  from assms obtain ins ts where ops: "apply_ops put del cc p (tuples ws) ([], []) = Some (p', ins, ts)"
    by (auto simp: cr_apply_def Let_def)
  have c: "collect_ops cc (tuples ws) ([], []) = (ins, ts)"
    using apply_ops_collect [OF ops] by simp
  show ?thesis
  proof (cases "ws_is_empty ws")
    case True
    then have "ins = []" "ts = []" using c by (simp_all add: ws_is_empty_def)
    then show ?thesis
      using assms ops c True
      by (simp add: cr_apply_def prepare_indexes_def Let_def apply_batch_instrumented_def split: if_splits)
  next
    case False
    then show ?thesis
      using assms ops c by (simp add: cr_apply_def prepare_indexes_def Let_def split: if_splits)
  qed
qed

section \<open>Seeding\<close>

lemma foldl_seed_row:
  "foldl seed_row (m, i) rows =
     (foldl (\<lambda>m row. max m (fst row)) m rows,
      foldl (\<lambda>i (t, d, c). fst (idx_insert_entry i t d c)) i rows)"
  by (induction rows arbitrary: m i) (auto simp: seed_row_def)

lemma foldl_max_start: "m \<le> foldl (\<lambda>m row. max m (fst row)) m rows" for m :: nat
  by (induction rows arbitrary: m) (auto intro: order_trans [OF max.cobounded1])

lemma foldl_max_bound: "row \<in> set rows \<Longrightarrow> fst row \<le> foldl (\<lambda>m row. max m (fst row)) m rows"
  for m :: nat
proof (induction rows arbitrary: m)
  case (Cons r rows)
  show ?case
  proof (cases "row = r")
    case True
    have "fst r \<le> max m (fst r)" by simp
    also have "\<dots> \<le> foldl (\<lambda>m row. max m (fst row)) (max m (fst r)) rows" by (rule foldl_max_start)
    finally show ?thesis by (simp add: True)
  next
    case False
    then show ?thesis using Cons by simp
  qed
qed simp

lemma factory_index:
  assumes "rel_index_factory rel \<in> {primary_index_factory, secondary_index_factory}"
  shows "idx_ok (rel_index_factory rel ())" "idx_lookup (rel_index_factory rel ()) d = None"
proof -
  have "rel_index_factory rel () = HashRelationIndex hri_new
      \<or> rel_index_factory rel () = SecondaryIndexRelation hri_new_with_secondary"
    using assms by (auto simp: primary_index_factory_def secondary_index_factory_def)
  then show "idx_ok (rel_index_factory rel ())" "idx_lookup (rel_index_factory rel ()) d = None"
    using idx_new_ok by (auto simp: idx_lookup_def hri_new_def hri_new_with_secondary_def)
qed

lemma seeded_index_secondary:
  "seeded_index_with_max_timestamp rel = Inr (i, mx) \<Longrightarrow>
    idx_is_secondary i = idx_is_secondary (rel_index_factory rel ())"
  by (auto simp: seeded_index_with_max_timestamp_def provider_seed_def rbind_Inr_iff foldl_seed_row)

lemma seeded_index_exact:
  assumes "rel_index_factory rel \<in> {primary_index_factory, secondary_index_factory}"
    and "provider_ok (rel_source rel)"
    and "seeded_index_with_max_timestamp rel = Inr (i, mx)"
  shows "idx_ok i" "idx_is_provider_fully_loaded i"
    "idx_lookup i d = Some (mk_entry t c) \<longleftrightarrow> src_get (rel_source rel) d = Inr (Some (t, c))"
    "idx_lookup i d = Some e \<Longrightarrow> ets e \<le> mx"
proof -
  from assms(3) obtain rows where rows: "src_scan (rel_source rel) (\<lambda>_ _. True) = Inr rows"
    and mx: "mx = foldl (\<lambda>m row. max m (fst row)) 0 rows"
    and i: "i = idx_set_provider_fully_loaded
        (foldl (\<lambda>i (t, d, c). fst (idx_insert_entry i t d c)) (rel_index_factory rel ()) rows) True"
    by (auto simp: seeded_index_with_max_timestamp_def provider_seed_def rbind_Inr_iff foldl_seed_row)
  note row = provider_scan_row [OF assms(2) rows]
  have look: "idx_lookup i = spec_inserts (idx_lookup (rel_index_factory rel ())) rows"
    by (simp add: i idx.foldl_insert_entry)
  show "idx_ok i" "idx_is_provider_fully_loaded i"
    using idx.foldl_insert_entry_invar [OF factory_index(1) [OF assms(1)], of rows]
    by (simp_all add: i)
  have iff: "idx_lookup i d = Some (mk_entry t c) \<longleftrightarrow> (t, d, c) \<in> set rows" for t c
  proof
    assume l: "idx_lookup i d = Some (mk_entry t c)"
    have "d \<in> ins_dom ` set rows"
      using l spec_inserts_other [of d rows] factory_index(2) [OF assms(1)] by (metis look option.distinct(1))
    then obtain t' c' where "(t', d, c') \<in> set rows" by force
    with l spec_inserts_in [OF row(2) this] show "(t, d, c) \<in> set rows" by (simp add: look)
  qed (simp add: look spec_inserts_in [OF row(2)])
  show "idx_lookup i d = Some (mk_entry t c) \<longleftrightarrow> src_get (rel_source rel) d = Inr (Some (t, c))"
    by (simp add: iff row(1))
  assume "idx_lookup i d = Some e"
  then have "(ets e, d, evalue e) \<in> set rows"
    using iff [of "ets e" "evalue e"] by simp
  then show "ets e \<le> mx"
    using foldl_max_bound [of "(ets e, d, evalue e)" rows 0] by (simp add: mx)
qed

section \<open>Properties\<close>

text \<open>
  C9. Both ways a commit builds its index give the working set laid over the index they start
  from: a written key has the committed value at the transaction's timestamp or is gone, any other
  key is as before, and the index stays well-formed (its secondary index included). \<open>apply\<close>, which
  also writes to the provider, builds the same index.
\<close>

theorem commit_index_refines_overlay:
  assumes "idx_ok (cr_index cr)" and "hm_ok (tuples ws)" and "cr_dirty cr"
  shows "idx_lookup (cr_index (prepare_indexes cc cr ws)) =
      overlay cc (tuples ws) (idx_lookup (cr_index cr))
    \<and> idx_lookup (rebased_snapshot_index cc cr i ws) = overlay cc (tuples ws) (idx_lookup i)
    \<and> idx_ok (cr_index (prepare_indexes cc cr ws))
    \<and> (idx_ok i \<longrightarrow> idx_ok (rebased_snapshot_index cc cr i ws))
    \<and> (\<forall>p' cr'. cr_apply put del cc p cr ws = Some (p', cr') \<longrightarrow> cr' = prepare_indexes cc cr ws)"
proof (intro conjI)
  show "\<forall>p' cr'. cr_apply put del cc p cr ws = Some (p', cr') \<longrightarrow> cr' = prepare_indexes cc cr ws"
    by (intro allI impI) (rule cr_apply_index)
qed (use assms in \<open>simp_all add: prepare_indexes_eq rebased_snapshot_index_eq prep.build_lookup
    prep.build_ok reb.build_lookup reb.build_ok\<close>)

theorem commit_index_refines_overlay_witness:
  "idx_lookup (rebased_snapshot_index (\<lambda>v. v) ((demo_checker demo_index)\<lparr>cr_dirty := True\<rparr>) demo_index
      (ws_new [(2, mk_op 4 9 (Update 21) False), (6, mk_op 3 9 Delete False)] demo_index)) =
    [2 \<mapsto> mk_entry 9 21]"
proof -
  let ?cr = "(demo_checker demo_index)\<lparr>cr_dirty := True\<rparr>"
  let ?ws = "ws_new [(2, mk_op 4 9 (Update 21) False), (6, mk_op 3 9 Delete False)] demo_index"
  have 1: "idx_ok (cr_index ?cr)" by (simp add: demo_checker_def demo_index_ok)
  have 2: "hm_ok (tuples ?ws)" by (simp add: ws_new_def)
  have 3: "cr_dirty ?cr" by simp
  have "overlay (\<lambda>v. v) (tuples ?ws) (idx_lookup demo_index) = [2 \<mapsto> mk_entry 9 21]"
    by (auto simp: overlay_def ws_new_def demo_index_lookup fun_eq_iff)
  with commit_index_refines_overlay [OF 1 2 3, of "\<lambda>v. v" demo_index] show ?thesis by metis
qed

text \<open>
  C21. Seeding a relation at startup loads exactly the provider's rows, marks the index as fully
  loaded, and returns a timestamp that bounds every loaded entry.
\<close>

theorem seed_relation_exact:
  assumes "rel_index_factory rel \<in> {primary_index_factory, secondary_index_factory}"
    and "provider_ok (rel_source rel)"
    and "seeded_index_with_max_timestamp rel = Inr (i, mx)"
  shows "idx_ok i \<and> idx_is_provider_fully_loaded i
    \<and> (\<forall>d t c. idx_lookup i d = Some (mk_entry t c) \<longleftrightarrow>
        src_get (rel_source rel) d = Inr (Some (t, c)))
    \<and> (\<forall>d e. idx_lookup i d = Some e \<longrightarrow> ets e \<le> mx)"
  using seeded_index_exact [OF assms] by blast

theorem seed_relation_exact_witness:
  "\<exists>i. seeded_index_with_max_timestamp (relation_new_with_secondary ''demo''
        \<lparr>rd_display = (\<lambda>_. ''key''), rd_target = (\<lambda>_. None)\<rparr>
        (list_provider [(4, 2 :: nat, 20 :: nat), (7, 3, 30)])) = Inr (i, 7)
     \<and> idx_is_provider_fully_loaded i \<and> idx_lookup i 3 = Some (mk_entry 7 30)"
proof -
  let ?rel = "relation_new_with_secondary ''demo''
      \<lparr>rd_display = (\<lambda>_. ''key''), rd_target = (\<lambda>_. None)\<rparr>
      (list_provider [(4, 2 :: nat, 20 :: nat), (7, 3, 30)])"
  have f: "rel_index_factory ?rel \<in> {primary_index_factory, secondary_index_factory}"
    by (simp add: relation_new_with_secondary_def)
  have p: "provider_ok (rel_source ?rel)"
    by (simp add: relation_new_with_secondary_def list_provider_ok)
  obtain i where i: "seeded_index_with_max_timestamp ?rel = Inr (i, 7)"
    by (simp add: seeded_index_with_max_timestamp_def provider_seed_def relation_new_with_secondary_def
        list_provider_def foldl_seed_row)
  have "src_get (rel_source ?rel) 3 = Inr (Some (7, 30))"
    by (simp add: relation_new_with_secondary_def list_provider_def)
  with i seed_relation_exact [OF f p i] show ?thesis by blast
qed

text \<open>
  C23. A commit of a transaction that loaded a relation from the provider marks the committed index
  as fully loaded, although the checked index is a fork of the published one and does not hold the
  rows the transaction loaded: a row that was only in the provider, and was readable before the
  commit, reads as absent afterwards. (Indexes seeded at startup are already fully loaded, so this
  needs a published index that is not.)
\<close>

theorem commit_of_loaded_transaction_hides_rows:
  assumes "hm_ok (tuples ws)" and "\<not> ws_is_empty ws" and "ws_fully_loaded ws"
    and "idx_lookup (cr_index cr) d = None" and "\<not> idx_is_provider_fully_loaded (cr_index cr)"
    and "src_get (cr_source cr) d = Inr (Some (ts, v))"
    and "d \<notin> set (hm_keys (tuples ws))"
  shows "cr_state cr d = Inr (Some (ts, v))
    \<and> cr_state (prepare_indexes cc cr ws) d = Inr None"
proof -
  have "idx_lookup (prepared_index cc (cr_index cr) ws) d = None"
    using prep.build_untouched [OF assms(1,7), of cc "cr_index cr"] assms(4) by simp
  moreover have "idx_is_provider_fully_loaded (prepared_index cc (cr_index cr) ws)"
    using assms(2,3)
    by (simp add: prepared_index_def apply_batch_instrumented_loaded split: prod.split)
  ultimately show ?thesis
    using assms(4-6) by (simp add: cr_state_def prepare_indexes_eq)
qed

theorem commit_of_loaded_transaction_hides_rows_witness:
  "let t = fst (rt_upsert (fst (rt_get_all demo_tx2)) 8 80);
       cr = demo_checker demo_index
   in rt_get t 2 = Inr (Some 20)
      \<and> cr_state cr 2 = Inr (Some (4, 20))
      \<and> cr_state (prepare_indexes (\<lambda>v. v) cr (rt_working_set t)) 2 = Inr None"
proof -
  define t1 where "t1 = fst (rt_get_all demo_tx2)"
  define t where "t = fst (rt_upsert t1 8 80)"
  have all: "rt_get_all demo_tx2 = (t1, Inr [(6, 10), (2, 20)])"
    by (simp add: t1_def prod_eq_iff demo_tx2_get_all)
  note ex = rt_get_all_exact [OF rt_reachable_ok [OF demo_tx2_facts(1)] demo_tx2_facts(2) all]
  have v1: "rt_view t1 2 = Inr (Some 20)" using ex demo_tx2_facts(4) by blast
  have lo1: "lo_get (rt_local t1) d = None" for d
    by (simp add: t1_def rt_get_all_nf rt_fully_load_from_provider_def demo_tx2_facts
        split: sum.splits)
  have ld: "rt_loaded t1" and b8: "rt_base t1 8 = Inr None"
  proof -
    show "rt_loaded t1"
      using demo_tx2_get_all
      by (auto simp: t1_def rt_get_all_nf split: sum.splits prod.splits if_splits)
    have "rt_view demo_tx2 8 = Inr None"
      by (simp add: rt_view_def rt_base_def backing_get_def demo_tx2_def rt_new_shared_def
          demo_index_lookup demo_index_loaded list_provider_def)
    then have "rt_view t1 8 = Inr None" using ex by blast
    then show "rt_base t1 8 = Inr None" by (auto simp: rt_view_def lo1 rbind_Inr_iff)
  qed
  have t: "t = rt_log t1 8 (fresh_op t1 None 80)"
    by (simp add: t_def rt_upsert_nf lo1 b8)
  have empty: "lo_entries (rt_local t1) = []"
    using lo1 by (metis list.exhaust map_of_Cons_code(2) option.distinct(1) surj_pair)
  have ks: "tuples (rt_working_set t) = [(8, fresh_op t1 None 80)]"
    by (simp add: t empty lo_insert_def)
  have "cr_state (demo_checker demo_index) 2 = Inr (Some (4, 20))
      \<and> cr_state (prepare_indexes (\<lambda>v. v) (demo_checker demo_index) (rt_working_set t)) 2 = Inr None"
    by (rule commit_of_loaded_transaction_hides_rows)
      (simp_all add: ks ws_is_empty_def ld t demo_checker_def demo_index_lookup demo_index_loaded
        list_provider_def empty lo_insert_def)
  moreover have "rt_get t 2 = Inr (Some 20)"
    by (simp add: t rt_get_eq_view v1)
  ultimately show ?thesis by (simp add: Let_def t_def t1_def)
qed

end
