(* ===== verification/Bloom.thy ===== *)
theory Bloom
  imports Prelude
begin

text \<open>
  The Bloom filter of a commit's keys, \<open>crates/db/src/tx/commit_bloom.rs\<close>: 2048 bits in 256
  bytes, two probes per key. The two hash values of a key come from the third-party hasher
  \<open>ahash\<close>; \<open>double_hash\<close> is therefore a parameter \<open>dh\<close> of every operation that hashes, an
  arbitrary function from keys to two numbers. Nothing is assumed of it.

  The locale \<open>key_filter\<close> is what the commit path relies on: no inserted key is ever missed, by a
  membership test, after a merge, or by an intersection test.
\<close>

unbundle bit_operations_syntax

section \<open>Model\<close>

definition BLOOM_BITS :: nat where
  "BLOOM_BITS = 2048"

definition BLOOM_BYTES :: nat where
  "BLOOM_BYTES = BLOOM_BITS div 8"

record commit_bloom =
  bits :: "8 word list"

type_synonym 'k hasher = "'k \<Rightarrow> nat \<times> nat"

definition bloom_new :: commit_bloom where
  "bloom_new = \<lparr>bits = replicate BLOOM_BYTES 0\<rparr>"

definition bloom_set_bit :: "commit_bloom \<Rightarrow> nat \<Rightarrow> commit_bloom" where
  "bloom_set_bit b n = b\<lparr>bits := (bits b)[n div 8 := (bits b ! (n div 8)) OR push_bit (n mod 8) 1]\<rparr>"

definition bloom_get_bit :: "commit_bloom \<Rightarrow> nat \<Rightarrow> bool" where
  "bloom_get_bit b n \<longleftrightarrow> (bits b ! (n div 8)) AND push_bit (n mod 8) 1 \<noteq> 0"

definition bloom_insert :: "'k hasher \<Rightarrow> commit_bloom \<Rightarrow> 'k \<Rightarrow> commit_bloom" where
  "bloom_insert dh b k =
     (let (h1, h2) = dh k in bloom_set_bit (bloom_set_bit b (h1 mod BLOOM_BITS)) (h2 mod BLOOM_BITS))"

definition might_contain :: "'k hasher \<Rightarrow> commit_bloom \<Rightarrow> 'k \<Rightarrow> bool" where
  "might_contain dh b k \<longleftrightarrow>
     (let (h1, h2) = dh k in bloom_get_bit b (h1 mod BLOOM_BITS) \<and> bloom_get_bit b (h2 mod BLOOM_BITS))"

definition might_intersect :: "commit_bloom \<Rightarrow> commit_bloom \<Rightarrow> bool" where
  "might_intersect a b \<longleftrightarrow> (\<exists>i \<in> set [0..<BLOOM_BYTES]. bits a ! i AND bits b ! i \<noteq> 0)"

definition bloom_merge :: "commit_bloom \<Rightarrow> commit_bloom \<Rightarrow> commit_bloom" where
  "bloom_merge a b =
     a\<lparr>bits := foldl (\<lambda>bs i. bs[i := bs ! i OR bits b ! i]) (bits a) [0..<BLOOM_BYTES]\<rparr>"

section \<open>Bits\<close>

definition bloom_ok :: "commit_bloom \<Rightarrow> bool" where
  "bloom_ok b \<longleftrightarrow> length (bits b) = BLOOM_BYTES"

definition bloom_bits :: "commit_bloom \<Rightarrow> nat set" where
  "bloom_bits b = {n. n < BLOOM_BITS \<and> bloom_get_bit b n}"

lemma BLOOM_BYTES_eq: "BLOOM_BYTES = 256"
  by (simp add: BLOOM_BYTES_def BLOOM_BITS_def)

lemma bloom_byte_index [simp]: "n < BLOOM_BITS \<Longrightarrow> n div 8 < BLOOM_BYTES"
  by (simp add: BLOOM_BYTES_def BLOOM_BITS_def)

lemma mod_BLOOM_BITS [simp]: "h mod BLOOM_BITS < BLOOM_BITS"
  by (simp add: BLOOM_BITS_def)

lemma byte_and_bit:
  fixes w :: "8 word"
  assumes "i < 8"
  shows "w AND push_bit i 1 \<noteq> 0 \<longleftrightarrow> bit w i"
proof -
  have "w AND push_bit i 1 = 0 \<longleftrightarrow> \<not> bit w i"
    unfolding bit_eq_iff [where 'a = "8 word"] using assms by (auto simp: bit_simps)
  then show ?thesis by blast
qed

lemma get_bit_iff: "bloom_get_bit b n \<longleftrightarrow> bit (bits b ! (n div 8)) (n mod 8)"
  unfolding bloom_get_bit_def by (rule byte_and_bit) simp

lemma byte_set_bit: "i < 8 \<Longrightarrow> bit (w OR 2 ^ i) j \<longleftrightarrow> bit w j \<or> i = j" for w :: "8 word"
  by (auto simp: bit_simps)

lemma get_bit_set_bit:
  assumes "bloom_ok b" and "n < BLOOM_BITS"
  shows "bloom_get_bit (bloom_set_bit b n) m \<longleftrightarrow> bloom_get_bit b m \<or> m = n"
proof (cases "m div 8 = n div 8")
  case True
  then have "bloom_get_bit (bloom_set_bit b n) m \<longleftrightarrow> bit (bits b ! (n div 8)) (m mod 8) \<or> n mod 8 = m mod 8"
    using assms by (simp add: get_bit_iff bloom_set_bit_def bloom_ok_def byte_set_bit)
  moreover have "n mod 8 = m mod 8 \<longleftrightarrow> m = n"
    using True by (metis mult_div_mod_eq)
  ultimately show ?thesis
    by (simp only: get_bit_iff True)
next
  case False
  then show ?thesis by (auto simp: get_bit_iff bloom_set_bit_def)
qed

lemma bloom_ok_new [simp]: "bloom_ok bloom_new"
  by (simp add: bloom_ok_def bloom_new_def)

lemma bloom_ok_set_bit [simp]: "bloom_ok b \<Longrightarrow> bloom_ok (bloom_set_bit b n)"
  by (simp add: bloom_ok_def bloom_set_bit_def)

lemma bloom_ok_insert [simp]: "bloom_ok b \<Longrightarrow> bloom_ok (bloom_insert dh b k)"
  by (simp add: bloom_insert_def split: prod.splits)

lemma merge_bytes:
  assumes "n \<le> length bs"
  shows "length (foldl (\<lambda>bs i. bs[i := bs ! i OR cs ! i]) bs [0..<n]) = length bs
    \<and> (\<forall>j < length bs. foldl (\<lambda>bs i. bs[i := bs ! i OR cs ! i]) bs [0..<n] ! j =
        (if j < n then bs ! j OR cs ! j else bs ! j))"
  using assms
proof (induction n)
  case (Suc n)
  then show ?case by (simp add: nth_list_update less_Suc_eq)
qed simp

lemma bloom_ok_merge [simp]: "bloom_ok a \<Longrightarrow> bloom_ok (bloom_merge a b)"
  using merge_bytes [of BLOOM_BYTES "bits a" "bits b"] by (simp add: bloom_ok_def bloom_merge_def)

lemma get_bit_merge:
  "bloom_ok a \<Longrightarrow> n < BLOOM_BITS \<Longrightarrow> bloom_get_bit (bloom_merge a b) n \<longleftrightarrow> bloom_get_bit a n \<or> bloom_get_bit b n"
  using merge_bytes [of BLOOM_BYTES "bits a" "bits b"] bloom_byte_index [of n]
  by (simp add: bloom_ok_def bloom_merge_def get_bit_iff bit_or_iff)

lemma get_bit_new: "n < BLOOM_BITS \<Longrightarrow> \<not> bloom_get_bit bloom_new n"
  by (simp add: get_bit_iff bloom_new_def)

lemma bloom_bits_new: "bloom_bits bloom_new = {}"
  by (auto simp: bloom_bits_def get_bit_new)

lemma bloom_bits_insert:
  "bloom_ok b \<Longrightarrow> bloom_bits (bloom_insert dh b k) =
     bloom_bits b \<union> {fst (dh k) mod BLOOM_BITS, snd (dh k) mod BLOOM_BITS}"
  by (auto simp: bloom_bits_def bloom_insert_def get_bit_set_bit split: prod.splits)

lemma bloom_bits_merge: "bloom_ok a \<Longrightarrow> bloom_bits (bloom_merge a b) = bloom_bits a \<union> bloom_bits b"
  by (auto simp: bloom_bits_def get_bit_merge)

lemma might_contain_iff:
  "might_contain dh b k \<longleftrightarrow> {fst (dh k) mod BLOOM_BITS, snd (dh k) mod BLOOM_BITS} \<subseteq> bloom_bits b"
  by (auto simp: might_contain_def bloom_bits_def split: prod.splits)

lemma byte_bits_nonzero: "w \<noteq> 0 \<longleftrightarrow> (\<exists>j < 8. bit w j)" for w :: "8 word"
  by (auto simp: bit_eq_iff)

lemma might_intersect_iff: "might_intersect a b \<longleftrightarrow> bloom_bits a \<inter> bloom_bits b \<noteq> {}"
proof
  assume "might_intersect a b"
  then obtain i j where i: "i < BLOOM_BYTES" and j: "j < 8" "bit (bits a ! i AND bits b ! i) j"
    unfolding might_intersect_def byte_bits_nonzero by auto
  have "i * 8 + j \<in> bloom_bits a \<inter> bloom_bits b"
    using i j by (simp add: bloom_bits_def get_bit_iff bit_and_iff BLOOM_BITS_def BLOOM_BYTES_eq)
  then show "bloom_bits a \<inter> bloom_bits b \<noteq> {}" by blast
next
  assume "bloom_bits a \<inter> bloom_bits b \<noteq> {}"
  then obtain n where n: "n < BLOOM_BITS" "bloom_get_bit a n" "bloom_get_bit b n" by (auto simp: bloom_bits_def)
  then have "bits a ! (n div 8) AND bits b ! (n div 8) \<noteq> 0"
    by (intro byte_bits_nonzero [THEN iffD2] exI [of _ "n mod 8"]) (simp add: get_bit_iff bit_and_iff)
  then show "might_intersect a b"
    using n(1) bloom_byte_index by (auto simp: might_intersect_def)
qed

section \<open>The contract\<close>

locale key_filter =
  fixes empty :: 'f
    and insert :: "'f \<Rightarrow> 'k \<Rightarrow> 'f"
    and contains :: "'f \<Rightarrow> 'k \<Rightarrow> bool"
    and intersects :: "'f \<Rightarrow> 'f \<Rightarrow> bool"
    and merge :: "'f \<Rightarrow> 'f \<Rightarrow> 'f"
    and invar :: "'f \<Rightarrow> bool"
  assumes invar_empty: "invar empty"
    and invar_insert: "invar b \<Longrightarrow> invar (insert b k)"
    and invar_merge: "invar a \<Longrightarrow> invar b \<Longrightarrow> invar (merge a b)"
    and contains_insert: "invar b \<Longrightarrow> k' = k \<or> contains b k' \<Longrightarrow> contains (insert b k) k'"
    and contains_merge: "invar a \<Longrightarrow> contains a k \<or> contains b k \<Longrightarrow> contains (merge a b) k"
    and intersects_common: "contains a k \<Longrightarrow> contains b k \<Longrightarrow> intersects a b"
    and intersects_merge: "invar a \<Longrightarrow> intersects (merge a b) c \<longleftrightarrow> intersects a c \<or> intersects b c"
begin

definition covers :: "'f \<Rightarrow> 'k set \<Rightarrow> bool" where
  "covers b K \<longleftrightarrow> invar b \<and> (\<forall>k \<in> K. contains b k)"

lemma invar_foldl: "invar b \<Longrightarrow> invar (foldl insert b ks)"
  by (induction ks arbitrary: b) (simp_all add: invar_insert)

lemma covers_empty: "covers empty {}"
  by (simp add: covers_def invar_empty)

lemma covers_foldl: "covers b K \<Longrightarrow> covers (foldl insert b ks) (K \<union> set ks)"
proof (induction ks arbitrary: b K)
  case (Cons k ks)
  from Cons.prems have "covers (insert b k) (K \<union> {k})"
    by (auto simp: covers_def invar_insert contains_insert)
  from Cons.IH [OF this] show ?case by (simp add: insert_commute)
qed simp

lemma covers_merge: "covers a K \<Longrightarrow> covers b L \<Longrightarrow> covers (merge a b) (K \<union> L)"
  by (auto simp: covers_def invar_merge contains_merge)

lemma covers_mono: "covers a K \<Longrightarrow> L \<subseteq> K \<Longrightarrow> covers a L"
  by (auto simp: covers_def)

lemma disjoint_if_not_intersects:
  "covers a K \<Longrightarrow> covers b L \<Longrightarrow> \<not> intersects a b \<Longrightarrow> K \<inter> L = {}"
  using intersects_common by (auto simp: covers_def)

end

interpretation bloom: key_filter bloom_new "bloom_insert dh" "might_contain dh" might_intersect
  bloom_merge bloom_ok for dh :: "'k hasher"
proof unfold_locales
  show "bloom_ok b \<Longrightarrow> k' = k \<or> might_contain dh b k' \<Longrightarrow> might_contain dh (bloom_insert dh b k) k'"
    for b and k k' :: 'k
    by (auto simp: might_contain_iff bloom_bits_insert)
  show "bloom_ok a \<Longrightarrow> might_contain dh a k \<or> might_contain dh b k \<Longrightarrow>
      might_contain dh (bloom_merge a b) k" for a b k
    by (auto simp: might_contain_iff bloom_bits_merge)
  show "might_contain dh a k \<Longrightarrow> might_contain dh b k \<Longrightarrow> might_intersect a b" for a b k
    by (auto simp: might_contain_iff might_intersect_iff)
  show "bloom_ok a \<Longrightarrow> might_intersect (bloom_merge a b) c \<longleftrightarrow>
      might_intersect a c \<or> might_intersect b c" for a b c
    by (auto simp: might_intersect_iff bloom_bits_merge)
qed simp_all

section \<open>Properties\<close>

text \<open>
  C13. The filter has no false negatives, for any hash function: two filters built by inserting
  the keys of two commits, either of them merged with any other filter, are reported as possibly
  intersecting whenever the commits share a key. A negative answer of the intersection test
  proves that the key sets are disjoint.
\<close>

theorem bloom_disjoint_sound:
  assumes "\<not> might_intersect (bloom_merge (foldl (bloom_insert dh) bloom_new ks) b)
      (foldl (bloom_insert dh) bloom_new ls)"
  shows "set ks \<inter> set ls = {}"
proof -
  have ks: "bloom.covers dh (foldl (bloom_insert dh) bloom_new ks) (set ks)" for ks
    using bloom.covers_foldl [OF bloom.covers_empty] by simp
  have "\<not> might_intersect (foldl (bloom_insert dh) bloom_new ks)
      (foldl (bloom_insert dh) bloom_new ls)"
    using assms ks by (simp add: bloom.intersects_merge bloom.covers_def)
  then show ?thesis by (rule bloom.disjoint_if_not_intersects [OF ks ks])
qed

theorem bloom_disjoint_sound_witness:
  "\<not> might_intersect (bloom_merge (foldl (bloom_insert (\<lambda>k. (k, 5 * k))) bloom_new [3, 4 :: nat]) bloom_new)
      (foldl (bloom_insert (\<lambda>k. (k, 5 * k))) bloom_new [11, 2054 :: nat])
   \<and> set [3, 4] \<inter> set [11, 2054 :: nat] = {}"
proof -
  let ?f = "\<lambda>a b :: nat. foldl (bloom_insert (\<lambda>k. (k, 5 * k))) bloom_new [a, b]"
  have ok: "bloom_ok (?f a b)" for a b
    by simp
  have bits: "bloom_bits (?f a b) = {a mod 2048, 5 * a mod 2048, b mod 2048, 5 * b mod 2048}" for a b
    by (auto simp: bloom_bits_insert bloom_bits_new BLOOM_BITS_def)
  have "bloom_bits (bloom_merge (?f 3 4) bloom_new) \<inter> bloom_bits (?f 11 2054) = {}"
    unfolding bloom_bits_merge [OF ok] bits bloom_bits_new by simp
  then have 1: "\<not> might_intersect (bloom_merge (?f 3 4) bloom_new) (?f 11 2054)"
    unfolding might_intersect_iff by blast
  from 1 bloom_disjoint_sound [OF 1] show ?thesis by (rule conjI)
qed

end
