(* ===== verification/Flags.thy ===== *)
theory Flags
  imports Prelude "HOL-Library.Word"
begin

unbundle bit_operations_syntax

text \<open>
  Flag sets and argument specifications of verbs, properties and objects:
  \<^verbatim>\<open>common/src/util/bitenum.rs\<close> (the 16-bit set \<open>BitEnum\<close>), the flag enumerations of
  \<^verbatim>\<open>common/src/model/{verbs,props,objects}.rs\<close> with their parsers and printers, and
  \<^verbatim>\<open>common/src/model/match.rs\<close> with \<^verbatim>\<open>common/src/matching/prepositions.rs\<close> (argument
  specifications and their 32-bit encoding). The flag sets obey the laws of finite sets, the
  printers and parsers are inverse on the flags that have a letter, and the encoding of argument
  specifications is a bijection onto the words it decodes.
\<close>

section \<open>BitEnum\<close>

type_synonym bit_enum = "16 word"

text \<open>The trait \<open>BitFlag\<close> is the index function of the enumeration.\<close>

definition be_bit :: "('f \<Rightarrow> nat) \<Rightarrow> 'f \<Rightarrow> bit_enum" where
  "be_bit ix f = push_bit (ix f) 1"

definition be_new :: bit_enum where
  "be_new = 0"

definition be_from_u8 :: "8 word \<Rightarrow> bit_enum" where
  "be_from_u8 v = ucast v"

definition be_set :: "('f \<Rightarrow> nat) \<Rightarrow> bit_enum \<Rightarrow> 'f \<Rightarrow> bit_enum" where
  "be_set ix b f = b OR be_bit ix f"

definition be_new_with :: "('f \<Rightarrow> nat) \<Rightarrow> 'f \<Rightarrow> bit_enum" where
  "be_new_with ix f = be_set ix 0 f"

definition be_all_bits :: bit_enum where
  "be_all_bits = -1"

definition be_clear :: "('f \<Rightarrow> nat) \<Rightarrow> bit_enum \<Rightarrow> 'f \<Rightarrow> bit_enum" where
  "be_clear ix b f = b AND NOT (be_bit ix f)"

definition be_contains :: "('f \<Rightarrow> nat) \<Rightarrow> bit_enum \<Rightarrow> 'f \<Rightarrow> bool" where
  "be_contains ix b f \<longleftrightarrow> b AND be_bit ix f \<noteq> 0"

definition be_contains_all :: "bit_enum \<Rightarrow> bit_enum \<Rightarrow> bool" where
  "be_contains_all b vs \<longleftrightarrow> vs AND b = vs"

definition be_contains_any :: "bit_enum \<Rightarrow> bit_enum \<Rightarrow> bool" where
  "be_contains_any b vs \<longleftrightarrow> b AND vs \<noteq> 0"

section \<open>The flag enumerations\<close>

datatype verb_flag = VerbRead | VerbWrite | VerbExec | VerbDebug

primrec verb_flag_index :: "verb_flag \<Rightarrow> nat" where
  "verb_flag_index VerbRead = 0"
| "verb_flag_index VerbWrite = 1"
| "verb_flag_index VerbExec = 2"
| "verb_flag_index VerbDebug = 3"

definition verb_flag_try_read :: "nat \<Rightarrow> nat + verb_flag" where
  "verb_flag_try_read v =
     (if v = 0 then Inr VerbRead else if v = 1 then Inr VerbWrite
      else if v = 2 then Inr VerbExec else if v = 3 then Inr VerbDebug else Inl v)"

definition verb_perms_string :: "bit_enum \<Rightarrow> string" where
  "verb_perms_string b =
     (let s = (if be_contains verb_flag_index b VerbRead then [CHR ''r''] else []);
          s = (if be_contains verb_flag_index b VerbWrite then s @ [CHR ''w''] else s);
          s = (if be_contains verb_flag_index b VerbExec then s @ [CHR ''x''] else s)
      in if be_contains verb_flag_index b VerbDebug then s @ [CHR ''d''] else s)"

definition verb_all_flags :: bit_enum where
  "verb_all_flags =
     be_set verb_flag_index (be_set verb_flag_index (be_set verb_flag_index
       (be_new_with verb_flag_index VerbRead) VerbWrite) VerbExec) VerbDebug"

fun verb_parse_loop :: "string \<Rightarrow> 8 word \<Rightarrow> 8 word option" where
  "verb_parse_loop [] flags = Some flags"
| "verb_parse_loop (c # cs) flags =
     (if c = CHR ''r'' then verb_parse_loop cs (flags OR push_bit (verb_flag_index VerbRead) 1)
      else if c = CHR ''w'' then verb_parse_loop cs (flags OR push_bit (verb_flag_index VerbWrite) 1)
      else if c = CHR ''x'' then verb_parse_loop cs (flags OR push_bit (verb_flag_index VerbExec) 1)
      else if c = CHR ''d'' then verb_parse_loop cs (flags OR push_bit (verb_flag_index VerbDebug) 1)
      else None)"

definition verb_parse_str :: "string \<Rightarrow> bit_enum option" where
  "verb_parse_str s = map_option be_from_u8 (verb_parse_loop s 0)"

datatype prop_flag = PropRead | PropWrite | PropChown | PropClobber

primrec prop_flag_index :: "prop_flag \<Rightarrow> nat" where
  "prop_flag_index PropRead = 0"
| "prop_flag_index PropWrite = 1"
| "prop_flag_index PropChown = 2"
| "prop_flag_index PropClobber = 3"

definition prop_all_flags :: bit_enum where
  "prop_all_flags = be_set prop_flag_index
     (be_set prop_flag_index (be_new_with prop_flag_index PropRead) PropWrite) PropChown"

definition prop_rcw :: bit_enum where
  "prop_rcw = be_new_with prop_flag_index PropRead OR be_new_with prop_flag_index PropWrite"

definition prop_rc :: bit_enum where
  "prop_rc = be_new_with prop_flag_index PropRead OR be_new_with prop_flag_index PropChown"

definition prop_rw :: bit_enum where
  "prop_rw = be_new_with prop_flag_index PropWrite OR be_new_with prop_flag_index PropChown"

fun prop_parse_loop :: "string \<Rightarrow> 8 word \<Rightarrow> 8 word option" where
  "prop_parse_loop [] flags = Some flags"
| "prop_parse_loop (c # cs) flags =
     (if c = CHR ''r'' then prop_parse_loop cs (flags OR push_bit (prop_flag_index PropRead) 1)
      else if c = CHR ''w'' then prop_parse_loop cs (flags OR push_bit (prop_flag_index PropWrite) 1)
      else if c = CHR ''c'' then prop_parse_loop cs (flags OR push_bit (prop_flag_index PropChown) 1)
      else if c = CHR ''o'' then prop_parse_loop cs (flags OR push_bit (prop_flag_index PropClobber) 1)
      else None)"

definition prop_parse_str :: "string \<Rightarrow> bit_enum option" where
  "prop_parse_str s = map_option be_from_u8 (prop_parse_loop s 0)"

definition prop_flags_string :: "bit_enum \<Rightarrow> string" where
  "prop_flags_string b =
     (let s = (if be_contains prop_flag_index b PropRead then [CHR ''r''] else []);
          s = (if be_contains prop_flag_index b PropWrite then s @ [CHR ''w''] else s);
          s = (if be_contains prop_flag_index b PropChown then s @ [CHR ''c''] else s)
      in if be_contains prop_flag_index b PropClobber then s @ [CHR ''o''] else s)"

datatype obj_flag = ObjUser | ObjProgrammer | ObjWizard | ObjObsolete1 | ObjRead | ObjWrite
  | ObjObsolete2 | ObjFertile

primrec obj_flag_index :: "obj_flag \<Rightarrow> nat" where
  "obj_flag_index ObjUser = 0"
| "obj_flag_index ObjProgrammer = 1"
| "obj_flag_index ObjWizard = 2"
| "obj_flag_index ObjObsolete1 = 3"
| "obj_flag_index ObjRead = 4"
| "obj_flag_index ObjWrite = 5"
| "obj_flag_index ObjObsolete2 = 6"
| "obj_flag_index ObjFertile = 7"

definition obj_all_flags :: bit_enum where
  "obj_all_flags = foldl (be_set obj_flag_index) (be_new_with obj_flag_index ObjUser)
     [ObjProgrammer, ObjWizard, ObjObsolete1, ObjRead, ObjWrite, ObjObsolete2, ObjFertile]"

fun obj_parse_loop :: "string \<Rightarrow> 8 word \<Rightarrow> 8 word option" where
  "obj_parse_loop [] flags = Some flags"
| "obj_parse_loop (c # cs) flags =
     (if c = CHR ''u'' then obj_parse_loop cs (flags OR push_bit (obj_flag_index ObjUser) 1)
      else if c = CHR ''p'' then obj_parse_loop cs (flags OR push_bit (obj_flag_index ObjProgrammer) 1)
      else if c = CHR ''w'' then obj_parse_loop cs (flags OR push_bit (obj_flag_index ObjWizard) 1)
      else if c = CHR ''r'' then obj_parse_loop cs (flags OR push_bit (obj_flag_index ObjRead) 1)
      else if c = CHR ''W'' then obj_parse_loop cs (flags OR push_bit (obj_flag_index ObjWrite) 1)
      else if c = CHR ''f'' then obj_parse_loop cs (flags OR push_bit (obj_flag_index ObjFertile) 1)
      else None)"

definition obj_parse_str :: "string \<Rightarrow> bit_enum option" where
  "obj_parse_str s = map_option be_from_u8 (obj_parse_loop s 0)"

definition obj_flags_string :: "bit_enum \<Rightarrow> string" where
  "obj_flags_string b =
     (let s = (if be_contains obj_flag_index b ObjUser then [CHR ''u''] else []);
          s = (if be_contains obj_flag_index b ObjProgrammer then s @ [CHR ''p''] else s);
          s = (if be_contains obj_flag_index b ObjWizard then s @ [CHR ''w''] else s);
          s = (if be_contains obj_flag_index b ObjRead then s @ [CHR ''r''] else s);
          s = (if be_contains obj_flag_index b ObjWrite then s @ [CHR ''W''] else s)
      in if be_contains obj_flag_index b ObjFertile then s @ [CHR ''f''] else s)"

section \<open>Prepositions and argument specifications\<close>

datatype preposition = WithUsing | AtTo | InFrontOf | IntoIn | OnTopOfOn | OutOf | Over | Through
  | Under | Behind | Beside | ForAbout | Is | As | OffOf | NamedCalled

definition all_prepositions :: "preposition list" where
  "all_prepositions = [WithUsing, AtTo, InFrontOf, IntoIn, OnTopOfOn, OutOf, Over, Through,
     Under, Behind, Beside, ForAbout, Is, As, OffOf, NamedCalled]"

primrec preposition_repr :: "preposition \<Rightarrow> nat" where
  "preposition_repr WithUsing = 0"
| "preposition_repr AtTo = 1"
| "preposition_repr InFrontOf = 2"
| "preposition_repr IntoIn = 3"
| "preposition_repr OnTopOfOn = 4"
| "preposition_repr OutOf = 5"
| "preposition_repr Over = 6"
| "preposition_repr Through = 7"
| "preposition_repr Under = 8"
| "preposition_repr Behind = 9"
| "preposition_repr Beside = 10"
| "preposition_repr ForAbout = 11"
| "preposition_repr Is = 12"
| "preposition_repr As = 13"
| "preposition_repr OffOf = 14"
| "preposition_repr NamedCalled = 15"

text \<open>The derived \<open>FromRepr\<close>: the variant with the given discriminant.\<close>

definition preposition_from_repr :: "nat \<Rightarrow> preposition option" where
  "preposition_from_repr n = find (\<lambda>p. preposition_repr p = n) all_prepositions"

definition preposition_parse :: "string \<Rightarrow> preposition option" where
  "preposition_parse s =
     (if s \<in> {''with/using'', ''with'', ''using''} then Some WithUsing
      else if s \<in> {''at/to'', ''at'', ''to''} then Some AtTo
      else if s \<in> {''in front of'', ''in-front-of''} then Some InFrontOf
      else if s \<in> {''in/inside/into'', ''in'', ''inside'', ''into''} then Some IntoIn
      else if s \<in> {''on top of/on/onto/upon'', ''on top of'', ''on'', ''onto'', ''upon''} then Some OnTopOfOn
      else if s \<in> {''out of/from inside/from'', ''out of'', ''from inside'', ''from''} then Some OutOf
      else if s = ''over'' then Some Over
      else if s = ''through'' then Some Through
      else if s \<in> {''under/underneath/beneath'', ''under'', ''underneath'', ''beneath''} then Some Under
      else if s = ''behind'' then Some Behind
      else if s = ''beside'' then Some Beside
      else if s \<in> {''for/about'', ''for'', ''about''} then Some ForAbout
      else if s = ''is'' then Some Is
      else if s = ''as'' then Some As
      else if s \<in> {''off/off of'', ''off'', ''off of''} then Some OffOf
      else if s \<in> {''named/called/known as'', ''named'', ''called'', ''known as''} then Some NamedCalled
      else None)"

primrec preposition_string :: "preposition \<Rightarrow> string" where
  "preposition_string WithUsing = ''with/using''"
| "preposition_string AtTo = ''at/to''"
| "preposition_string InFrontOf = ''in front of''"
| "preposition_string IntoIn = ''in/inside/into''"
| "preposition_string OnTopOfOn = ''on top of/on/onto/upon''"
| "preposition_string OutOf = ''out of/from inside/from''"
| "preposition_string Over = ''over''"
| "preposition_string Through = ''through''"
| "preposition_string Under = ''under/underneath/beneath''"
| "preposition_string Behind = ''behind''"
| "preposition_string Beside = ''beside''"
| "preposition_string ForAbout = ''for/about''"
| "preposition_string Is = ''is''"
| "preposition_string As = ''as''"
| "preposition_string OffOf = ''off/off of''"
| "preposition_string NamedCalled = ''named/called/known as''"

primrec preposition_string_single :: "preposition \<Rightarrow> string" where
  "preposition_string_single WithUsing = ''with''"
| "preposition_string_single AtTo = ''at''"
| "preposition_string_single InFrontOf = ''in-front-of''"
| "preposition_string_single IntoIn = ''in''"
| "preposition_string_single OnTopOfOn = ''on''"
| "preposition_string_single OutOf = ''from''"
| "preposition_string_single Over = ''over''"
| "preposition_string_single Through = ''through''"
| "preposition_string_single Under = ''under''"
| "preposition_string_single Behind = ''behind''"
| "preposition_string_single Beside = ''beside''"
| "preposition_string_single ForAbout = ''for''"
| "preposition_string_single Is = ''is''"
| "preposition_string_single As = ''as''"
| "preposition_string_single OffOf = ''off''"
| "preposition_string_single NamedCalled = ''named''"

primrec preposition_forms :: "preposition \<Rightarrow> string list" where
  "preposition_forms WithUsing = [''with'', ''using'']"
| "preposition_forms AtTo = [''at'', ''to'']"
| "preposition_forms InFrontOf = [''in front of'', ''in-front-of'']"
| "preposition_forms IntoIn = [''in'', ''inside'', ''into'']"
| "preposition_forms OnTopOfOn = [''on top of'', ''on'', ''onto'', ''upon'']"
| "preposition_forms OutOf = [''out of'', ''from inside'', ''from'']"
| "preposition_forms Over = [''over'']"
| "preposition_forms Through = [''through'']"
| "preposition_forms Under = [''under'', ''underneath'', ''beneath'']"
| "preposition_forms Behind = [''behind'']"
| "preposition_forms Beside = [''beside'']"
| "preposition_forms ForAbout = [''for'', ''about'']"
| "preposition_forms Is = [''is'']"
| "preposition_forms As = [''as'']"
| "preposition_forms OffOf = [''off'', ''off of'']"
| "preposition_forms NamedCalled = [''named'', ''called'', ''known as'']"

datatype arg_spec = ArgNone | ArgAny | ArgThis

primrec arg_spec_repr :: "arg_spec \<Rightarrow> 8 word" where
  "arg_spec_repr ArgNone = 0"
| "arg_spec_repr ArgAny = 1"
| "arg_spec_repr ArgThis = 2"

datatype decoding_error = InvalidArgSpecValue "8 word" | InvalidPrepValue "16 word"

definition arg_spec_try_read :: "8 word \<Rightarrow> decoding_error + arg_spec" where
  "arg_spec_try_read v =
     (if v = 0 then Inr ArgNone else if v = 1 then Inr ArgAny else if v = 2 then Inr ArgThis
      else Inl (InvalidArgSpecValue v))"

primrec arg_spec_string :: "arg_spec \<Rightarrow> string" where
  "arg_spec_string ArgNone = ''none''"
| "arg_spec_string ArgAny = ''any''"
| "arg_spec_string ArgThis = ''this''"

definition arg_spec_from_string :: "string \<Rightarrow> arg_spec option" where
  "arg_spec_from_string s =
     (if s = ''none'' then Some ArgNone else if s = ''any'' then Some ArgAny
      else if s = ''this'' then Some ArgThis else None)"

datatype prep_spec = PrepAny | PrepNone | PrepOther preposition

primrec preposition_to_string :: "prep_spec \<Rightarrow> string" where
  "preposition_to_string PrepAny = ''any''"
| "preposition_to_string PrepNone = ''none''"
| "preposition_to_string (PrepOther p) = preposition_string p"

definition prep_spec_parse :: "string \<Rightarrow> prep_spec option" where
  "prep_spec_parse s =
     (if s = ''any'' then Some PrepAny else if s = ''none'' then Some PrepNone
      else map_option PrepOther (preposition_parse s))"

definition prep_spec_try_read :: "16 word \<Rightarrow> decoding_error + prep_spec" where
  "prep_spec_try_read v =
     (if v = -2 then Inr PrepAny else if v = -1 then Inr PrepNone
      else case preposition_from_repr (unat v) of
             None \<Rightarrow> Inl (InvalidPrepValue v)
           | Some p \<Rightarrow> Inr (PrepOther p))"

primrec prep_spec_write :: "prep_spec \<Rightarrow> 16 word" where
  "prep_spec_write PrepAny = -2"
| "prep_spec_write PrepNone = -1"
| "prep_spec_write (PrepOther p) = of_nat (preposition_repr p)"

record verb_args_spec =
  dobj :: arg_spec
  prep :: prep_spec
  iobj :: arg_spec

definition this_none_this :: verb_args_spec where
  "this_none_this = \<lparr>dobj = ArgThis, prep = PrepNone, iobj = ArgThis\<rparr>"

definition none_none_none :: verb_args_spec where
  "none_none_none = \<lparr>dobj = ArgNone, prep = PrepNone, iobj = ArgNone\<rparr>"

definition args_matches :: "verb_args_spec \<Rightarrow> verb_args_spec \<Rightarrow> bool" where
  "args_matches s v \<longleftrightarrow>
     (dobj s = ArgAny \<or> dobj s = dobj v) \<and> (prep s = PrepAny \<or> prep s = prep v)
     \<and> (iobj s = ArgAny \<or> iobj s = iobj v)"

text \<open>
  The preposition is an \<open>i16\<close>: on the way out it is sign-extended to 32 bits and masked, on the way
  in it is truncated.
\<close>

definition args_try_read :: "32 word \<Rightarrow> decoding_error + verb_args_spec" where
  "args_try_read v =
     rbind (arg_spec_try_read (ucast (v AND 0xff)))
       (\<lambda>d. rbind (prep_spec_try_read (ucast (drop_bit 8 v AND 0xffff)))
         (\<lambda>p. rbind (arg_spec_try_read (ucast (drop_bit 24 v AND 0xff)))
           (\<lambda>i. Inr \<lparr>dobj = d, prep = p, iobj = i\<rparr>)))"

definition args_write :: "verb_args_spec \<Rightarrow> 32 word" where
  "args_write v =
     (0 OR ucast (arg_spec_repr (dobj v)))
     OR push_bit 8 (scast (prep_spec_write (prep v)) AND 0xffff)
     OR push_bit 24 (ucast (arg_spec_repr (iobj v)))"

section \<open>Flag sets as finite sets\<close>

text \<open>What \<open>BitEnum\<close> needs of an enumeration, and the laws it then has.\<close>

locale bit_flag =
  fixes bit_index :: "'f \<Rightarrow> nat"
  assumes index_inj: "bit_index f = bit_index g \<longleftrightarrow> f = g"
    and index_bound: "bit_index f < 16"
begin

lemma contains_bit: "be_contains bit_index b f \<longleftrightarrow> bit b (bit_index f)"
proof -
  have "b AND push_bit (bit_index f) 1 \<noteq> 0 \<longleftrightarrow> bit b (bit_index f)" for b :: bit_enum
    using index_bound [of f] by (auto simp: bit_eq_iff [where ?'a = "16 word"] bit_simps)
  then show ?thesis by (simp add: be_contains_def be_bit_def)
qed

lemma bit_of_flag: "bit (be_bit bit_index f) n \<longleftrightarrow> n = bit_index f"
  using index_bound [of f] by (auto simp: be_bit_def bit_simps)

lemma contains_new [simp]: "\<not> be_contains bit_index be_new f"
  by (simp add: contains_bit be_new_def)

lemma contains_set: "be_contains bit_index (be_set bit_index b g) f \<longleftrightarrow> f = g \<or> be_contains bit_index b f"
  by (auto simp: contains_bit be_set_def bit_or_iff bit_of_flag index_inj)

lemma contains_new_with: "be_contains bit_index (be_new_with bit_index g) f \<longleftrightarrow> f = g"
  by (simp add: be_new_with_def contains_set) (simp add: contains_bit)

lemma contains_clear:
  "be_contains bit_index (be_clear bit_index b g) f \<longleftrightarrow> f \<noteq> g \<and> be_contains bit_index b f"
  using index_bound [of f]
  by (auto simp: contains_bit be_clear_def bit_and_iff bit_not_iff bit_of_flag index_inj)

lemma contains_or:
  "be_contains bit_index (a OR b) f \<longleftrightarrow> be_contains bit_index a f \<or> be_contains bit_index b f"
  by (simp add: contains_bit bit_or_iff)

lemma contains_all_subset:
  "be_contains_all b vs \<Longrightarrow> be_contains bit_index vs f \<Longrightarrow> be_contains bit_index b f"
  by (auto simp: be_contains_all_def contains_bit) (metis bit_and_iff)

lemma contains_any_witness:
  "be_contains bit_index b f \<Longrightarrow> be_contains bit_index vs f \<Longrightarrow> be_contains_any b vs"
  by (auto simp: be_contains_any_def contains_bit) (metis bit_0_eq bit_and_iff bot_apply bot_bool_def)

end

interpretation verb_flag: bit_flag verb_flag_index
proof
  show "verb_flag_index f = verb_flag_index g \<longleftrightarrow> f = g" for f g
    by (cases f; cases g) simp_all
  show "verb_flag_index f < 16" for f
    by (cases f) simp_all
qed

interpretation prop_flag: bit_flag prop_flag_index
proof
  show "prop_flag_index f = prop_flag_index g \<longleftrightarrow> f = g" for f g
    by (cases f; cases g) simp_all
  show "prop_flag_index f < 16" for f
    by (cases f) simp_all
qed

interpretation obj_flag: bit_flag obj_flag_index
proof
  show "obj_flag_index f = obj_flag_index g \<longleftrightarrow> f = g" for f g
    by (cases f; cases g) simp_all
  show "obj_flag_index f < 16" for f
    by (cases f) simp_all
qed

section \<open>Parsers and printers of flag strings\<close>

text \<open>
  All three parsers read a table of letters and bit positions, and the printers write the letters
  of the table in its order.
\<close>

fun flag_loop :: "(char \<times> nat) list \<Rightarrow> string \<Rightarrow> 8 word \<Rightarrow> 8 word option" where
  "flag_loop tbl [] flags = Some flags"
| "flag_loop tbl (c # cs) flags =
     (case map_of tbl c of None \<Rightarrow> None | Some i \<Rightarrow> flag_loop tbl cs (flags OR push_bit i 1))"

definition flag_print :: "(char \<times> nat) list \<Rightarrow> bit_enum \<Rightarrow> string" where
  "flag_print tbl b = map fst (filter (\<lambda>(c, i). bit b i) tbl)"

lemma flag_loop_eq_None_iff: "flag_loop tbl s flags = None \<longleftrightarrow> \<not> set s \<subseteq> dom (map_of tbl)"
  by (induction s arbitrary: flags) (auto split: option.splits)

lemma flag_loop_bit:
  assumes "flag_loop tbl s flags = Some r" and "n < 8"
  shows "bit r n \<longleftrightarrow> bit flags n \<or> (\<exists>c \<in> set s. map_of tbl c = Some n)"
  using assms(1)
proof (induction s arbitrary: flags)
  case (Cons c s)
  from Cons.prems obtain i where i: "map_of tbl c = Some i"
    and r: "flag_loop tbl s (flags OR push_bit i 1) = Some r" by (auto split: option.splits)
  show ?case using Cons.IH [OF r] i assms(2) by (auto simp: bit_simps)
qed simp

lemma flag_print_set: "set (flag_print tbl b) = {c. \<exists>i. (c, i) \<in> set tbl \<and> bit b i}"
  by (force simp: flag_print_def)

locale flag_codec =
  fixes tbl :: "(char \<times> nat) list"
    and parse :: "string \<Rightarrow> bit_enum option"
    and print :: "bit_enum \<Rightarrow> string"
  assumes tbl_distinct: "distinct (map fst tbl)"
    and tbl_bound: "(c, i) \<in> set tbl \<Longrightarrow> i < 8"
    and parse_eq: "parse s = map_option be_from_u8 (flag_loop tbl s 0)"
    and print_eq: "print b = flag_print tbl b"
begin

lemma tbl_lookup: "map_of tbl c = Some i \<longleftrightarrow> (c, i) \<in> set tbl"
  using map_of_eq_Some_iff [OF tbl_distinct] .

lemma parse_None_iff: "parse s = None \<longleftrightarrow> \<not> set s \<subseteq> fst ` set tbl"
  by (simp add: parse_eq flag_loop_eq_None_iff dom_map_of_conv_image_fst)

lemma parse_bit:
  assumes "parse s = Some b"
  shows "bit b n \<longleftrightarrow> (\<exists>c \<in> set s. (c, n) \<in> set tbl)"
proof -
  from assms obtain r where r: "flag_loop tbl s 0 = Some r" and b: "b = ucast r"
    by (auto simp: parse_eq be_from_u8_def)
  show ?thesis
  proof (cases "n < 8")
    case True
    then show ?thesis using flag_loop_bit [OF r] by (simp add: b bit_simps tbl_lookup)
  next
    case False
    then show ?thesis using bit_imp_le_length [of r n] tbl_bound
      by (auto simp: b bit_ucast_iff)
  qed
qed

lemma parse_print:
  "\<exists>x. parse (print b) = Some x \<and> (\<forall>n. bit x n \<longleftrightarrow> bit b n \<and> n \<in> snd ` set tbl)"
proof -
  have "parse (print b) \<noteq> None"
    unfolding parse_None_iff by (force simp: print_eq flag_print_set)
  then obtain x where x: "parse (print b) = Some x" by blast
  have "bit x n \<longleftrightarrow> bit b n \<and> n \<in> snd ` set tbl" for n
    unfolding parse_bit [OF x] print_eq flag_print_set
    using tbl_distinct by (force dest: eq_key_imp_eq_value)
  with x show ?thesis by blast
qed

end

definition verb_flag_table :: "(char \<times> nat) list" where
  "verb_flag_table = [(CHR ''r'', 0), (CHR ''w'', 1), (CHR ''x'', 2), (CHR ''d'', 3)]"

definition prop_flag_table :: "(char \<times> nat) list" where
  "prop_flag_table = [(CHR ''r'', 0), (CHR ''w'', 1), (CHR ''c'', 2), (CHR ''o'', 3)]"

definition obj_flag_table :: "(char \<times> nat) list" where
  "obj_flag_table = [(CHR ''u'', 0), (CHR ''p'', 1), (CHR ''w'', 2), (CHR ''r'', 4),
     (CHR ''W'', 5), (CHR ''f'', 7)]"

lemma verb_parse_loop_table: "verb_parse_loop s flags = flag_loop verb_flag_table s flags"
  by (induction s arbitrary: flags) (simp_all add: verb_flag_table_def)

lemma prop_parse_loop_table: "prop_parse_loop s flags = flag_loop prop_flag_table s flags"
  by (induction s arbitrary: flags) (simp_all add: prop_flag_table_def)

lemma obj_parse_loop_table: "obj_parse_loop s flags = flag_loop obj_flag_table s flags"
  by (induction s arbitrary: flags) (simp_all add: obj_flag_table_def)

interpretation verb_codec: flag_codec verb_flag_table verb_parse_str verb_perms_string
  by unfold_locales
    (auto simp: verb_flag_table_def verb_parse_str_def verb_parse_loop_table flag_print_def
      verb_perms_string_def Let_def verb_flag.contains_bit)

interpretation prop_codec: flag_codec prop_flag_table prop_parse_str prop_flags_string
  by unfold_locales
    (auto simp: prop_flag_table_def prop_parse_str_def prop_parse_loop_table flag_print_def
      prop_flags_string_def Let_def prop_flag.contains_bit)

interpretation obj_codec: flag_codec obj_flag_table obj_parse_str obj_flags_string
  by unfold_locales
    (auto simp: obj_flag_table_def obj_parse_str_def obj_parse_loop_table flag_print_def
      obj_flags_string_def Let_def obj_flag.contains_bit)

section \<open>The encoding of argument specifications\<close>

lemma byte_mask: "(0xff :: 32 word) = mask 8" "(0xffff :: 32 word) = mask 16"
  by (simp_all add: mask_eq_exp_minus_1)

lemma args_word_fields:
  fixes d i :: "8 word" and p :: "16 word" and w :: "32 word"
  shows "(0 OR ucast d) OR push_bit 8 (scast p AND 0xffff) OR push_bit 24 (ucast i) = w \<longleftrightarrow>
    d = ucast (w AND 0xff) \<and> p = ucast (drop_bit 8 w AND 0xffff) \<and> i = ucast (drop_bit 24 w AND 0xff)"
    (is "?l = w \<longleftrightarrow> ?r")
proof
  assume "?l = w"
  then have w: "bit w n \<longleftrightarrow> bit ?l n" for n by simp
  have "\<not> bit d (8 + n)" "\<not> bit d (24 + n)" for n
    using bit_imp_le_length [of d] by fastforce+
  then show ?r
    by (intro conjI; intro bit_word_eqI) (auto simp: bit_simps byte_mask w)
next
  assume r: ?r
  show "?l = w"
  proof (rule bit_word_eqI)
    fix n :: nat
    assume "n < LENGTH(32)"
    then consider "n < 8" | k where "n = 8 + k" "k < 16" | k where "n = 24 + k" "k < 8"
      using le_Suc_ex [of 8 n] le_Suc_ex [of 24 n] by fastforce
    then show "bit ?l n \<longleftrightarrow> bit w n"
      by cases (use r in \<open>simp_all add: bit_simps byte_mask min_absorb2\<close>)
  qed
qed

lemma arg_spec_codec [simp]: "arg_spec_try_read (arg_spec_repr a) = Inr a"
  by (cases a) (simp_all add: arg_spec_try_read_def)

lemma arg_spec_try_read_inverse: "arg_spec_try_read v = Inr a \<longleftrightarrow> v = arg_spec_repr a"
  by (cases a) (auto simp: arg_spec_try_read_def split: if_splits)

lemma preposition_repr_codec:
  "preposition_from_repr n = Some p \<longleftrightarrow> preposition_repr p = n"
proof
  assume "preposition_from_repr n = Some p"
  then show "preposition_repr p = n" by (auto simp: preposition_from_repr_def find_Some_iff)
next
  assume "preposition_repr p = n"
  then show "preposition_from_repr n = Some p"
    by (cases p) (auto simp: preposition_from_repr_def all_prepositions_def)
qed

lemma preposition_repr_word: "of_nat (preposition_repr p) \<noteq> (-1 :: 16 word)"
  "of_nat (preposition_repr p) \<noteq> (-2 :: 16 word)"
  by (cases p; simp)+

lemma preposition_repr_bound: "preposition_repr p < 16"
  by (cases p) simp_all

lemma prep_spec_try_read_inverse: "prep_spec_try_read v = Inr q \<longleftrightarrow> v = prep_spec_write q"
proof (cases q)
  case (PrepOther p)
  have "of_nat (unat v) = v" by simp
  moreover have "unat (of_nat (preposition_repr p) :: 16 word) = preposition_repr p"
    using preposition_repr_bound [of p] by (simp add: unat_of_nat take_bit_nat_eq_self)
  ultimately have "v = of_nat (preposition_repr p) \<longleftrightarrow> preposition_repr p = unat v"
    by metis
  moreover have "prep_spec_try_read v = Inr q \<longleftrightarrow>
      v \<noteq> -2 \<and> v \<noteq> -1 \<and> preposition_from_repr (unat v) = Some p"
    by (simp only: PrepOther prep_spec_try_read_def split: option.split if_split) auto
  ultimately show ?thesis
    using preposition_repr_word [of p] PrepOther
    by (metis preposition_repr_codec prep_spec_write.simps(3))
next
  case PrepAny
  then show ?thesis by (auto simp only: prep_spec_try_read_def prep_spec_write.simps
        split: option.split if_split)
next
  case PrepNone
  moreover have "(-1 :: 16 word) \<noteq> -2" by simp
  ultimately show ?thesis by (auto simp only: prep_spec_try_read_def prep_spec_write.simps
        split: option.split if_split)
qed

lemma args_try_read_inverse: "args_try_read w = Inr v \<longleftrightarrow> args_write v = w"
proof -
  have "args_try_read w = Inr v \<longleftrightarrow>
      ucast (w AND 0xff) = arg_spec_repr (dobj v)
      \<and> ucast (drop_bit 8 w AND 0xffff) = prep_spec_write (prep v)
      \<and> ucast (drop_bit 24 w AND 0xff) = arg_spec_repr (iobj v)"
    by (cases v) (auto simp: args_try_read_def arg_spec_try_read_inverse [symmetric]
        prep_spec_try_read_inverse [symmetric] rbind_def split: sum.splits)
  then show ?thesis unfolding args_write_def args_word_fields by metis
qed

section \<open>Properties\<close>

lemma word_bits_table:
  fixes m :: "16 word"
  assumes "A = set (filter (bit m) [0..<16])"
  shows "n \<in> A \<longleftrightarrow> bit m n"
  using bit_imp_le_length [of m n] by (auto simp: assms)

lemma flag_table_bits:
  "n \<in> snd ` set verb_flag_table \<longleftrightarrow> bit (0xf :: 16 word) n"
  "n \<in> snd ` set prop_flag_table \<longleftrightarrow> bit (0xf :: 16 word) n"
  "n \<in> snd ` set obj_flag_table \<longleftrightarrow> bit (0xb7 :: 16 word) n"
  by (rule word_bits_table; code_simp)+

lemma flag_parse_print_mask:
  fixes r :: "bit_enum option"
  assumes "\<exists>x. r = Some x \<and> (\<forall>n. bit x n \<longleftrightarrow> bit b n \<and> n \<in> A)"
    and "\<And>n. n \<in> A \<longleftrightarrow> bit m n"
  shows "r = Some (b AND m)"
  using assms by (auto intro!: bit_word_eqI simp: bit_and_iff)

text \<open>
  C35. Printing a flag set and parsing the string gives back the flags that have a letter, for
  verbs (rwxd), properties (rwco) and objects (upwrWf); a string with any other character is
  rejected.
\<close>

theorem flag_strings_roundtrip:
  "verb_parse_str (verb_perms_string b) = Some (b AND 0xf)
   \<and> prop_parse_str (prop_flags_string b) = Some (b AND 0xf)
   \<and> obj_parse_str (obj_flags_string b) = Some (b AND 0xb7)
   \<and> (verb_parse_str s = None \<longleftrightarrow> \<not> set s \<subseteq> set ''rwxd'')
   \<and> (prop_parse_str s = None \<longleftrightarrow> \<not> set s \<subseteq> set ''rwco'')
   \<and> (obj_parse_str s = None \<longleftrightarrow> \<not> set s \<subseteq> set ''upwrWf'')"
proof (intro conjI)
  show "verb_parse_str (verb_perms_string b) = Some (b AND 0xf)"
    by (rule flag_parse_print_mask [OF verb_codec.parse_print flag_table_bits(1)])
  show "prop_parse_str (prop_flags_string b) = Some (b AND 0xf)"
    by (rule flag_parse_print_mask [OF prop_codec.parse_print flag_table_bits(2)])
  show "obj_parse_str (obj_flags_string b) = Some (b AND 0xb7)"
    by (rule flag_parse_print_mask [OF obj_codec.parse_print flag_table_bits(3)])
qed (simp_all add: verb_codec.parse_None_iff prop_codec.parse_None_iff obj_codec.parse_None_iff
  verb_flag_table_def prop_flag_table_def obj_flag_table_def)

text \<open>
  C36. Every printed form of an argument specification reads back: the full spelling, the single
  word and each accepted form of a preposition parse to it, and so do the printed preposition and
  argument specifications.
\<close>

theorem spellings_roundtrip:
  "preposition_parse (preposition_string p) = Some p
   \<and> preposition_parse (preposition_string_single p) = Some p
   \<and> map preposition_parse (preposition_forms p) = replicate (length (preposition_forms p)) (Some p)
   \<and> prep_spec_parse (preposition_to_string q) = Some q
   \<and> arg_spec_from_string (arg_spec_string a) = Some a
   \<and> preposition_from_repr (preposition_repr p) = Some p"
proof (intro conjI)
  have full: "preposition_parse (preposition_string p) = Some p" for p
    by (cases p; simp add: preposition_parse_def)
  show "preposition_parse (preposition_string p) = Some p" by (rule full)
  show "preposition_parse (preposition_string_single p) = Some p"
    by (cases p; simp add: preposition_parse_def)
  show "map preposition_parse (preposition_forms p) = replicate (length (preposition_forms p)) (Some p)"
    by (cases p; simp add: preposition_parse_def)
  have "preposition_string p \<notin> {''any'', ''none''}" for p
    by (cases p; simp)
  then show "prep_spec_parse (preposition_to_string q) = Some q"
    by (cases q) (auto simp: prep_spec_parse_def full)
  show "arg_spec_from_string (arg_spec_string a) = Some a"
    by (cases a) (simp_all add: arg_spec_from_string_def)
  show "preposition_from_repr (preposition_repr p) = Some p"
    by (simp add: preposition_repr_codec)
qed

text \<open>
  C34. The 32-bit encoding of an argument specification decodes to the specification, and every
  word that decodes is the encoding of the result: the encoding is a bijection between the
  specifications and the words the decoder accepts.
\<close>

theorem args_spec_codec:
  "args_try_read (args_write v) = Inr v \<and> (args_try_read w = Inr u \<longrightarrow> args_write u = w)"
  by (simp add: args_try_read_inverse)

theorem args_spec_codec_witness:
  "args_write this_none_this = 0x02ffff02 \<and> args_try_read 0x02ffff02 = Inr this_none_this"
  using args_spec_codec [of this_none_this "0x02ffff02" this_none_this]
  by (simp add: args_write_def this_none_this_def)

end
