(* ===== verification/Caches.thy ===== *)
theory Caches
  imports Obj Flags Symbols
begin

unbundle bit_operations_syntax

text \<open>
  The resolution caches of a transaction, \<^verbatim>\<open>db/src/cache/{verb_cache,prop_cache,ancestry_cache}.rs\<close>
  and the bundle \<open>Caches\<close> of \<^verbatim>\<open>db/src/engine/moor_db.rs\<close>. A cache maps a packed key to a cached
  answer (positive or negative) and counts its changes; a transaction works on a fork. The cached
  verb and property definitions are opaque values. Hit and miss counters are left out.

  Shown: the packed keys identify what they pack; every cache behaves as a map from object and
  query to answer, in which an invalidation removes exactly the entries of the named objects; a
  cache that is filled with true answers and invalidated for the objects whose answers change only
  ever returns true answers.
\<close>

section \<open>Keys\<close>

record verb_cache_key =
  vck_object :: "64 word"
  vck_name :: "32 word"
  vck_constraints :: "64 word"

definition verb_make_cache_key ::
  "obj \<Rightarrow> symbol_id \<Rightarrow> verb_args_spec option \<Rightarrow> bit_enum option \<Rightarrow> verb_cache_key" where
  "verb_make_cache_key ob y args flags =
     (let args_bits = (case args of None \<Rightarrow> 0 | Some a \<Rightarrow> push_bit 48 1 OR ucast (args_write a));
          flag_bits = (case flags of None \<Rightarrow> 0 | Some f \<Rightarrow> push_bit 49 1 OR push_bit 32 (ucast f))
      in \<lparr>vck_object = obj_word ob, vck_name = compare_id y, vck_constraints = args_bits OR flag_bits\<rparr>)"

definition prop_make_cache_key :: "obj \<Rightarrow> symbol_id \<Rightarrow> 128 word" where
  "prop_make_cache_key ob y = push_bit 64 (ucast (obj_word ob)) OR ucast (compare_id y)"

section \<open>The verb resolution cache\<close>

definition BUILTIN_ID_SPACE :: nat where
  "BUILTIN_ID_SPACE = 256 * 16"

definition BUILTIN_PROXY_CACHE_WORDS :: nat where
  "BUILTIN_PROXY_CACHE_WORDS = (BUILTIN_ID_SPACE + 63) div 64"

record 'v verb_cache =
  vc_orig_version :: int
  vc_version :: int
  vc_guard_version :: int
  vc_flushed :: bool
  vc_entries :: "(verb_cache_key, 'v option) hmap"
  vc_first_parent :: "(obj, obj option) hmap"
  vc_builtin_proxy_absent :: "64 word list"

definition vc_new :: "'v verb_cache" where
  "vc_new = \<lparr>vc_orig_version = 0, vc_version = 0, vc_guard_version = 0, vc_flushed = False,
     vc_entries = [], vc_first_parent = [],
     vc_builtin_proxy_absent = replicate BUILTIN_PROXY_CACHE_WORDS 0\<rparr>"

definition vc_fork :: "'v verb_cache \<Rightarrow> 'v verb_cache" where
  "vc_fork c = c\<lparr>vc_orig_version := vc_version c, vc_flushed := False\<rparr>"

definition vc_has_changed :: "'v verb_cache \<Rightarrow> bool" where
  "vc_has_changed c \<longleftrightarrow> vc_version c > vc_orig_version c"

definition vc_lookup_first_parent :: "'v verb_cache \<Rightarrow> obj \<Rightarrow> obj option option" where
  "vc_lookup_first_parent c ob = map_of (vc_first_parent c) ob"

definition vc_fill_first_parent :: "'v verb_cache \<Rightarrow> obj \<Rightarrow> obj option \<Rightarrow> 'v verb_cache" where
  "vc_fill_first_parent c ob parent =
     c\<lparr>vc_version := vc_version c + 1, vc_first_parent := hm_insert ob parent (vc_first_parent c)\<rparr>"

definition vc_lookup_spec ::
  "'v verb_cache \<Rightarrow> obj \<Rightarrow> symbol_id \<Rightarrow> verb_args_spec option \<Rightarrow> bit_enum option \<Rightarrow> 'v option option" where
  "vc_lookup_spec c ob y args flags = map_of (vc_entries c) (verb_make_cache_key ob y args flags)"

definition vc_lookup :: "'v verb_cache \<Rightarrow> obj \<Rightarrow> symbol_id \<Rightarrow> 'v option option" where
  "vc_lookup c ob y = vc_lookup_spec c ob y None None"

definition vc_builtin_proxy_cache_snapshot :: "'v verb_cache \<Rightarrow> 64 word list" where
  "vc_builtin_proxy_cache_snapshot c = vc_builtin_proxy_absent c"

definition vc_mark_builtin_proxy_absent :: "'v verb_cache \<Rightarrow> 16 word \<Rightarrow> 'v verb_cache" where
  "vc_mark_builtin_proxy_absent c builtin =
     (let b = unat builtin; w = b div 64; ws = vc_builtin_proxy_absent c
      in if w \<ge> length ws then c
         else let m = push_bit (b mod 64) 1
              in if ws ! w AND m \<noteq> 0 then c
                 else c\<lparr>vc_builtin_proxy_absent := ws[w := ws ! w OR m], vc_version := vc_version c + 1\<rparr>)"

definition vc_clear_builtin_proxy_absences :: "'v verb_cache \<Rightarrow> 'v verb_cache \<times> bool" where
  "vc_clear_builtin_proxy_absences c =
     (if list_all (\<lambda>w. w = 0) (vc_builtin_proxy_absent c) then (c, False)
      else (c\<lparr>vc_builtin_proxy_absent := replicate BUILTIN_PROXY_CACHE_WORDS 0\<rparr>, True))"

definition vc_flush :: "'v verb_cache \<Rightarrow> 'v verb_cache" where
  "vc_flush c =
     (let c = fst (vc_clear_builtin_proxy_absences c)
      in c\<lparr>vc_flushed := True, vc_version := vc_version c + 1, vc_guard_version := vc_guard_version c + 1,
           vc_entries := [], vc_first_parent := []\<rparr>)"

definition vc_fill_hit_spec ::
  "'v verb_cache \<Rightarrow> obj \<Rightarrow> symbol_id \<Rightarrow> verb_args_spec option \<Rightarrow> bit_enum option \<Rightarrow> 'v \<Rightarrow> 'v verb_cache" where
  "vc_fill_hit_spec c ob y args flags v =
     c\<lparr>vc_version := vc_version c + 1,
       vc_entries := hm_insert (verb_make_cache_key ob y args flags) (Some v) (vc_entries c)\<rparr>"

definition vc_fill_hit :: "'v verb_cache \<Rightarrow> obj \<Rightarrow> symbol_id \<Rightarrow> 'v \<Rightarrow> 'v verb_cache" where
  "vc_fill_hit c ob y v = vc_fill_hit_spec c ob y None None v"

definition vc_fill_miss_spec ::
  "'v verb_cache \<Rightarrow> obj \<Rightarrow> symbol_id \<Rightarrow> verb_args_spec option \<Rightarrow> bit_enum option \<Rightarrow> 'v verb_cache" where
  "vc_fill_miss_spec c ob y args flags =
     c\<lparr>vc_version := vc_version c + 1,
       vc_entries := hm_insert (verb_make_cache_key ob y args flags) None (vc_entries c)\<rparr>"

definition vc_fill_miss :: "'v verb_cache \<Rightarrow> obj \<Rightarrow> symbol_id \<Rightarrow> 'v verb_cache" where
  "vc_fill_miss c ob y = vc_fill_miss_spec c ob y None None"

definition verb_remove_entries_for_objects ::
  "(verb_cache_key, 'v option) hmap \<Rightarrow> 64 word list \<Rightarrow> (verb_cache_key, 'v option) hmap \<times> nat" where
  "verb_remove_entries_for_objects m obj_ids =
     (let m' = filter (\<lambda>(k, _). vck_object k \<notin> set obj_ids) m in (m', length m - length m'))"

definition vc_invalidate_objects :: "'v verb_cache \<Rightarrow> obj list \<Rightarrow> 'v verb_cache" where
  "vc_invalidate_objects c objects =
     (if objects = [] then c
      else
        let obj_ids = map obj_word objects;
            (m, removed) = verb_remove_entries_for_objects (vc_entries c) obj_ids;
            fp = filter (\<lambda>(ob, _). obj_word ob \<notin> set obj_ids) (vc_first_parent c);
            changed = (removed > 0 \<or> length (vc_first_parent c) \<noteq> length fp);
            c1 = c\<lparr>vc_entries := m, vc_first_parent := fp\<rparr>;
            (c2, cleared) =
              (if SYSTEM_OBJECT \<in> set objects then vc_clear_builtin_proxy_absences c1 else (c1, False))
        in if changed \<or> cleared
           then c2\<lparr>vc_version := vc_version c2 + 1, vc_guard_version := vc_guard_version c2 + 1\<rparr>
           else c2)"

section \<open>The property resolution cache\<close>

record 'p prop_cache =
  pc_orig_version :: int
  pc_version :: int
  pc_guard_version :: int
  pc_flushed :: bool
  pc_entries :: "(128 word, 'p option) hmap"
  pc_first_parent :: "(obj, obj option) hmap"

definition pc_new :: "'p prop_cache" where
  "pc_new = \<lparr>pc_orig_version = 0, pc_version = 0, pc_guard_version = 0, pc_flushed = False,
     pc_entries = [], pc_first_parent = []\<rparr>"

definition pc_fork :: "'p prop_cache \<Rightarrow> 'p prop_cache" where
  "pc_fork c = c\<lparr>pc_orig_version := pc_version c, pc_flushed := False\<rparr>"

definition pc_has_changed :: "'p prop_cache \<Rightarrow> bool" where
  "pc_has_changed c \<longleftrightarrow> pc_version c > pc_orig_version c"

definition pc_lookup :: "'p prop_cache \<Rightarrow> obj \<Rightarrow> symbol_id \<Rightarrow> 'p option option" where
  "pc_lookup c ob y = map_of (pc_entries c) (prop_make_cache_key ob y)"

definition pc_flush :: "'p prop_cache \<Rightarrow> 'p prop_cache" where
  "pc_flush c =
     c\<lparr>pc_flushed := True, pc_version := pc_version c + 1, pc_guard_version := pc_guard_version c + 1,
       pc_entries := [], pc_first_parent := []\<rparr>"

definition pc_fill_hit :: "'p prop_cache \<Rightarrow> obj \<Rightarrow> symbol_id \<Rightarrow> 'p \<Rightarrow> 'p prop_cache" where
  "pc_fill_hit c ob y p =
     c\<lparr>pc_version := pc_version c + 1,
       pc_entries := hm_insert (prop_make_cache_key ob y) (Some p) (pc_entries c)\<rparr>"

definition pc_fill_miss :: "'p prop_cache \<Rightarrow> obj \<Rightarrow> symbol_id \<Rightarrow> 'p prop_cache" where
  "pc_fill_miss c ob y =
     c\<lparr>pc_version := pc_version c + 1,
       pc_entries := hm_insert (prop_make_cache_key ob y) None (pc_entries c)\<rparr>"

definition pc_lookup_first_parent :: "'p prop_cache \<Rightarrow> obj \<Rightarrow> obj option option" where
  "pc_lookup_first_parent c ob = map_of (pc_first_parent c) ob"

definition pc_fill_first_parent :: "'p prop_cache \<Rightarrow> obj \<Rightarrow> obj option \<Rightarrow> 'p prop_cache" where
  "pc_fill_first_parent c ob parent =
     c\<lparr>pc_version := pc_version c + 1, pc_first_parent := hm_insert ob parent (pc_first_parent c)\<rparr>"

definition prop_remove_entries_for_objects ::
  "(128 word, 'p option) hmap \<Rightarrow> 64 word list \<Rightarrow> (128 word, 'p option) hmap \<times> nat" where
  "prop_remove_entries_for_objects m obj_ids =
     (let m' = filter (\<lambda>(k, _). (ucast (drop_bit 64 k) :: 64 word) \<notin> set obj_ids) m
      in (m', length m - length m'))"

definition pc_invalidate_objects :: "'p prop_cache \<Rightarrow> obj list \<Rightarrow> 'p prop_cache" where
  "pc_invalidate_objects c objects =
     (if objects = [] then c
      else
        let obj_ids = map obj_word objects;
            (m, removed) = prop_remove_entries_for_objects (pc_entries c) obj_ids;
            fp = filter (\<lambda>(ob, _). obj_word ob \<notin> set obj_ids) (pc_first_parent c);
            changed = (removed > 0 \<or> length (pc_first_parent c) \<noteq> length fp);
            c1 = c\<lparr>pc_entries := m, pc_first_parent := fp\<rparr>
        in if changed
           then c1\<lparr>pc_version := pc_version c1 + 1, pc_guard_version := pc_guard_version c1 + 1\<rparr>
           else c1)"

section \<open>The ancestry cache\<close>

record ancestry_cache =
  ac_orig_version :: int
  ac_version :: int
  ac_flushed :: bool
  ac_entries :: "(obj, obj list) hmap"

definition ac_default :: ancestry_cache where
  "ac_default = \<lparr>ac_orig_version = 0, ac_version = 0, ac_flushed = False, ac_entries = []\<rparr>"

definition ac_fork :: "ancestry_cache \<Rightarrow> ancestry_cache" where
  "ac_fork c = c\<lparr>ac_orig_version := ac_version c, ac_flushed := False\<rparr>"

definition ac_lookup :: "ancestry_cache \<Rightarrow> obj \<Rightarrow> obj list option" where
  "ac_lookup c ob = map_of (ac_entries c) ob"

definition ac_contains :: "ancestry_cache \<Rightarrow> obj \<Rightarrow> obj \<Rightarrow> bool option" where
  "ac_contains c ob possible_ancestor =
     map_option (\<lambda>ancestors. possible_ancestor \<in> set ancestors) (map_of (ac_entries c) ob)"

definition ac_flush :: "ancestry_cache \<Rightarrow> ancestry_cache" where
  "ac_flush c = c\<lparr>ac_flushed := True, ac_version := ac_version c + 1, ac_entries := []\<rparr>"

definition ac_fill :: "ancestry_cache \<Rightarrow> obj \<Rightarrow> obj list \<Rightarrow> ancestry_cache" where
  "ac_fill c ob ancestors =
     c\<lparr>ac_version := ac_version c + 1, ac_entries := hm_insert ob ancestors (ac_entries c)\<rparr>"

definition ac_has_changed :: "ancestry_cache \<Rightarrow> bool" where
  "ac_has_changed c \<longleftrightarrow> ac_version c > ac_orig_version c"

definition ac_invalidate_objects :: "ancestry_cache \<Rightarrow> obj list \<Rightarrow> ancestry_cache" where
  "ac_invalidate_objects c objects =
     (if objects = [] then c
      else
        let m = filter (\<lambda>(ob, _). ob \<notin> set objects) (ac_entries c);
            removed = length (ac_entries c) - length m;
            c1 = c\<lparr>ac_entries := m\<rparr>
        in if removed = 0 then c1 else c1\<lparr>ac_version := ac_version c1 + 1\<rparr>)"

section \<open>The bundle\<close>

record ('v, 'p) caches =
  verb_resolution_cache :: "'v verb_cache"
  prop_resolution_cache :: "'p prop_cache"
  ancestry_cache :: ancestry_cache

definition caches_new :: "('v, 'p) caches" where
  "caches_new = \<lparr>verb_resolution_cache = vc_new, prop_resolution_cache = pc_new,
     ancestry_cache = ac_default\<rparr>"

definition caches_fork :: "('v, 'p) caches \<Rightarrow> ('v, 'p) caches" where
  "caches_fork c = \<lparr>verb_resolution_cache = vc_fork (verb_resolution_cache c),
     prop_resolution_cache = pc_fork (prop_resolution_cache c),
     ancestry_cache = ac_fork (ancestry_cache c)\<rparr>"

definition caches_has_changed :: "('v, 'p) caches \<Rightarrow> bool" where
  "caches_has_changed c \<longleftrightarrow> vc_has_changed (verb_resolution_cache c)
     \<or> pc_has_changed (prop_resolution_cache c) \<or> ac_has_changed (ancestry_cache c)"

section \<open>Packed keys\<close>

lemma args_write_inject: "args_write a = args_write b \<longleftrightarrow> a = b"
  by (metis args_try_read_inverse sum.inject(2))

definition args_part :: "nat \<Rightarrow> verb_args_spec option \<Rightarrow> 64 word" where
  "args_part k args = (case args of None \<Rightarrow> 0 | Some a \<Rightarrow> push_bit k 1 OR ucast (args_write a))"

definition flags_part :: "nat \<Rightarrow> bit_enum option \<Rightarrow> 64 word" where
  "flags_part l flags = (case flags of None \<Rightarrow> 0 | Some f \<Rightarrow> push_bit l 1 OR push_bit 32 (ucast f))"

lemma bit_args_part:
  "bit (args_part k args) n \<longleftrightarrow> n < 64 \<and> (case args of None \<Rightarrow> False | Some a \<Rightarrow> n = k \<or> bit (args_write a) n)"
  using bit_imp_le_length [of "args_write (the args)" n]
  by (auto simp: args_part_def bit_simps split: option.splits)

lemma bit_flags_part:
  "bit (flags_part l flags) n \<longleftrightarrow>
    n < 64 \<and> (case flags of None \<Rightarrow> False | Some f \<Rightarrow> n = l \<or> 32 \<le> n \<and> bit f (n - 32))"
  using bit_imp_le_length [of "the flags" "n - 32"]
  by (auto simp: flags_part_def bit_simps split: option.splits)

lemma args_write_bit_bound: "32 \<le> n \<Longrightarrow> \<not> bit (args_write a) n"
  using bit_imp_le_length [of "args_write a" n] by auto

lemma flag_bit_bound: "16 \<le> n \<Longrightarrow> \<not> bit (f :: bit_enum) n"
  using bit_imp_le_length [of f n] by auto

lemmas constraint_bits = bit_args_part bit_flags_part args_write_bit_bound flag_bit_bound

lemma constraints_inject:
  assumes eq: "args_part 48 a OR flags_part 49 f = args_part 48 a' OR flags_part 49 f'"
  shows "a = a' \<and> f = f'"
proof -
  have b: "bit (args_part 48 a) n \<or> bit (flags_part 49 f) n \<longleftrightarrow>
      bit (args_part 48 a') n \<or> bit (flags_part 49 f') n" for n
    using arg_cong [OF eq, of "\<lambda>w. bit w n"] by (simp add: bit_or_iff)
  have "(a = None) = (a' = None)"
    using b [of 48] by (simp add: constraint_bits split: option.splits)
  moreover have "(f = None) = (f' = None)"
    using b [of 49] by (simp add: constraint_bits split: option.splits)
  moreover have "x = x'" if "a = Some x" "a' = Some x'" for x x'
  proof -
    have "args_write x = args_write x'"
    proof (rule bit_word_eqI)
      fix n :: nat assume "n < LENGTH(32)"
      then show "bit (args_write x) n \<longleftrightarrow> bit (args_write x') n"
        using b [of n] that by (simp add: constraint_bits split: option.splits)
    qed
    then show ?thesis by (simp add: args_write_inject)
  qed
  moreover have "x = x'" if "f = Some x" "f' = Some x'" for x x'
  proof (rule bit_word_eqI)
    fix n :: nat assume "n < LENGTH(16)"
    then show "bit x n \<longleftrightarrow> bit x' n"
      using b [of "n + 32"] that by (simp add: constraint_bits split: option.splits)
  qed
  ultimately show ?thesis by (metis option.exhaust)
qed

lemma verb_make_cache_key_inject:
  "verb_make_cache_key ob y a f = verb_make_cache_key ob' y' a' f' \<longleftrightarrow>
     ob = ob' \<and> compare_id y = compare_id y' \<and> a = a' \<and> f = f'"
proof -
  have "verb_make_cache_key ob y a f = \<lparr>vck_object = obj_word ob, vck_name = compare_id y,
      vck_constraints = args_part 48 a OR flags_part 49 f\<rparr>" for ob y a f
    by (simp only: verb_make_cache_key_def args_part_def flags_part_def Let_def)
  then show ?thesis using constraints_inject by (auto simp: obj.expand)
qed

lemma prop_make_cache_key_object [simp]: "ucast (drop_bit 64 (prop_make_cache_key ob y)) = obj_word ob"
  by (rule bit_word_eqI) (auto simp: prop_make_cache_key_def bit_simps dest: bit_imp_le_length)

lemma prop_make_cache_key_name: "ucast (prop_make_cache_key ob y) = compare_id y"
  by (rule bit_word_eqI) (auto simp: prop_make_cache_key_def bit_simps)

lemma prop_make_cache_key_inject:
  "prop_make_cache_key ob y = prop_make_cache_key ob' y' \<longleftrightarrow> ob = ob' \<and> compare_id y = compare_id y'"
  by (metis obj.expand prop_make_cache_key_def prop_make_cache_key_name prop_make_cache_key_object)

section \<open>Caches as maps\<close>

text \<open>
  What the users of a cache rely on: it is a map from queries to answers, each query about one
  object; \<open>fill\<close> adds an answer, \<open>invalidate\<close> removes the answers about the named objects and no
  others, and a fork starts with no changes of its own.
\<close>

locale resolution_cache =
  fixes lookup :: "'s \<Rightarrow> 'q \<Rightarrow> 'a option"
    and fill :: "'s \<Rightarrow> 'q \<Rightarrow> 'a \<Rightarrow> 's"
    and flush :: "'s \<Rightarrow> 's"
    and invalidate :: "'s \<Rightarrow> obj list \<Rightarrow> 's"
    and fork :: "'s \<Rightarrow> 's"
    and has_changed :: "'s \<Rightarrow> bool"
    and object_of :: "'q \<Rightarrow> obj"
  assumes lookup_fill: "lookup (fill s q a) r = (if r = q then Some a else lookup s r)"
    and lookup_flush: "lookup (flush s) q = None"
    and lookup_invalidate:
      "lookup (invalidate s os) q = (if object_of q \<in> set os then None else lookup s q)"
    and lookup_fork: "lookup (fork s) q = lookup s q"
    and changed_fork: "\<not> has_changed (fork s)"
begin

definition sound :: "'s \<Rightarrow> ('q \<Rightarrow> 'a) \<Rightarrow> bool" where
  "sound s f \<longleftrightarrow> (\<forall>q a. lookup s q = Some a \<longrightarrow> a = f q)"

lemma soundD: "sound s f \<Longrightarrow> lookup s q = Some a \<Longrightarrow> a = f q"
  by (simp add: sound_def)

lemma sound_empty: "(\<And>q. lookup s q = None) \<Longrightarrow> sound s f"
  by (simp add: sound_def)

lemma sound_cong: "(\<And>q. lookup s' q = lookup s q) \<Longrightarrow> sound s f \<Longrightarrow> sound s' f"
  by (simp add: sound_def)

lemma sound_fill: "sound s f \<Longrightarrow> a = f q \<Longrightarrow> sound (fill s q a) f"
  by (auto simp: sound_def lookup_fill)

lemma sound_flush: "sound (flush s) f"
  by (simp add: sound_def lookup_flush)

lemma sound_invalidate:
  "sound s f \<Longrightarrow> (\<And>q. object_of q \<notin> set os \<Longrightarrow> f' q = f q) \<Longrightarrow> sound (invalidate s os) f'"
  by (auto simp: sound_def lookup_invalidate)

lemma sound_fork: "sound s f \<Longrightarrow> sound (fork s) f"
  by (simp add: sound_def lookup_fork)

end

lemma map_of_filter_key: "map_of (filter (\<lambda>(k, _). P k) m) k = (if P k then map_of m k else None)"
  by (induction m) auto

lemma obj_word_in_image [simp]: "obj_word ob \<in> obj_word ` set os \<longleftrightarrow> ob \<in> set os"
  by (metis image_iff obj.expand)

lemma vc_clear_simps [simp]:
  "vc_entries (fst (vc_clear_builtin_proxy_absences c)) = vc_entries c"
  "vc_first_parent (fst (vc_clear_builtin_proxy_absences c)) = vc_first_parent c"
  by (simp_all add: vc_clear_builtin_proxy_absences_def)

lemma vc_invalidate_entries:
  "vc_entries (vc_invalidate_objects c os) =
     (if os = [] then vc_entries c
      else filter (\<lambda>(k, _). vck_object k \<notin> obj_word ` set os) (vc_entries c))"
  "vc_first_parent (vc_invalidate_objects c os) =
     (if os = [] then vc_first_parent c
      else filter (\<lambda>(ob, _). ob \<notin> set os) (vc_first_parent c))"
  by (auto simp: vc_invalidate_objects_def verb_remove_entries_for_objects_def Let_def
      vc_clear_builtin_proxy_absences_def)

lemma pc_invalidate_entries:
  "pc_entries (pc_invalidate_objects c os) =
     (if os = [] then pc_entries c
      else filter (\<lambda>(k, _). (ucast (drop_bit 64 k) :: 64 word) \<notin> obj_word ` set os) (pc_entries c))"
  "pc_first_parent (pc_invalidate_objects c os) =
     (if os = [] then pc_first_parent c
      else filter (\<lambda>(ob, _). ob \<notin> set os) (pc_first_parent c))"
  by (auto simp: pc_invalidate_objects_def prop_remove_entries_for_objects_def Let_def)

type_synonym verb_query = "obj \<times> 32 word \<times> verb_args_spec option \<times> bit_enum option"

definition symbol_with :: "32 word \<Rightarrow> symbol_id" where
  "symbol_with cid = \<lparr>compare_id = cid, repr_id = 0\<rparr>"

lemma compare_id_symbol_with [simp]: "compare_id (symbol_with cid) = cid"
  by (simp add: symbol_with_def)

definition vc_query :: "'v verb_cache \<Rightarrow> verb_query \<Rightarrow> 'v option option" where
  "vc_query c q = (case q of (ob, cid, a, f) \<Rightarrow> vc_lookup_spec c ob (symbol_with cid) a f)"

definition vc_answer :: "'v verb_cache \<Rightarrow> verb_query \<Rightarrow> 'v option \<Rightarrow> 'v verb_cache" where
  "vc_answer c q r = (case q of (ob, cid, a, f) \<Rightarrow>
     (case r of None \<Rightarrow> vc_fill_miss_spec c ob (symbol_with cid) a f
      | Some v \<Rightarrow> vc_fill_hit_spec c ob (symbol_with cid) a f v))"

definition pc_query :: "'p prop_cache \<Rightarrow> obj \<times> 32 word \<Rightarrow> 'p option option" where
  "pc_query c q = (case q of (ob, cid) \<Rightarrow> pc_lookup c ob (symbol_with cid))"

definition pc_answer :: "'p prop_cache \<Rightarrow> obj \<times> 32 word \<Rightarrow> 'p option \<Rightarrow> 'p prop_cache" where
  "pc_answer c q r = (case q of (ob, cid) \<Rightarrow>
     (case r of None \<Rightarrow> pc_fill_miss c ob (symbol_with cid)
      | Some p \<Rightarrow> pc_fill_hit c ob (symbol_with cid) p))"

lemma vck_object_key [simp]: "vck_object (verb_make_cache_key ob y a f) = obj_word ob"
  by (simp add: verb_make_cache_key_def)

lemmas vc_defs = vc_query_def vc_answer_def vc_lookup_spec_def vc_fill_hit_spec_def
  vc_fill_miss_spec_def vc_flush_def vc_fork_def vc_has_changed_def vc_lookup_first_parent_def
  vc_fill_first_parent_def Let_def

lemmas pc_defs = pc_query_def pc_answer_def pc_lookup_def pc_fill_hit_def pc_fill_miss_def
  pc_flush_def pc_fork_def pc_has_changed_def pc_lookup_first_parent_def pc_fill_first_parent_def

lemmas ac_defs = ac_lookup_def ac_fill_def ac_flush_def ac_fork_def ac_has_changed_def

interpretation vc: resolution_cache vc_query vc_answer vc_flush vc_invalidate_objects vc_fork
  vc_has_changed fst
  by unfold_locales (auto simp: vc_defs vc_invalidate_entries map_of_filter_key
      verb_make_cache_key_inject split: prod.splits option.splits)

interpretation vfp: resolution_cache vc_lookup_first_parent vc_fill_first_parent vc_flush
  vc_invalidate_objects vc_fork vc_has_changed "\<lambda>ob. ob"
  by unfold_locales (auto simp: vc_defs vc_invalidate_entries map_of_filter_key)

interpretation pc: resolution_cache pc_query pc_answer pc_flush pc_invalidate_objects pc_fork
  pc_has_changed fst
  by unfold_locales (auto simp: pc_defs pc_invalidate_entries map_of_filter_key
      prop_make_cache_key_inject split: prod.splits option.splits)

interpretation pfp: resolution_cache pc_lookup_first_parent pc_fill_first_parent pc_flush
  pc_invalidate_objects pc_fork pc_has_changed "\<lambda>ob. ob"
  by unfold_locales (auto simp: pc_defs pc_invalidate_entries map_of_filter_key)

interpretation ac: resolution_cache ac_lookup ac_fill ac_flush ac_invalidate_objects ac_fork
  ac_has_changed "\<lambda>ob. ob"
  by unfold_locales (auto simp: ac_defs ac_invalidate_objects_def Let_def map_of_filter_key)

section \<open>Histories\<close>

text \<open>
  A history of a cache next to the true answers: entries are filled with the answer that is true
  at that moment, and when answers change, the objects they are about are invalidated (or the
  cache is flushed).
\<close>

inductive vc_history :: "'v verb_cache \<Rightarrow> (verb_query \<Rightarrow> 'v option) \<Rightarrow> (obj \<Rightarrow> obj option) \<Rightarrow> bool" where
  new: "vc_history vc_new f g"
| fork: "vc_history c f g \<Longrightarrow> vc_history (vc_fork c) f g"
| hit: "vc_history c f g \<Longrightarrow> f (ob, compare_id y, a, fl) = Some v
    \<Longrightarrow> vc_history (vc_fill_hit_spec c ob y a fl v) f g"
| miss: "vc_history c f g \<Longrightarrow> f (ob, compare_id y, a, fl) = None
    \<Longrightarrow> vc_history (vc_fill_miss_spec c ob y a fl) f g"
| first_parent: "vc_history c f g \<Longrightarrow> vc_history (vc_fill_first_parent c ob (g ob)) f g"
| builtin: "vc_history c f g \<Longrightarrow> vc_history (vc_mark_builtin_proxy_absent c b) f g"
| flush: "vc_history c f g \<Longrightarrow> vc_history (vc_flush c) f' g'"
| invalidate: "vc_history c f g \<Longrightarrow> (\<And>q. fst q \<notin> set os \<Longrightarrow> f' q = f q)
    \<Longrightarrow> (\<And>ob. ob \<notin> set os \<Longrightarrow> g' ob = g ob) \<Longrightarrow> vc_history (vc_invalidate_objects c os) f' g'"

inductive pc_history :: "'p prop_cache \<Rightarrow> (obj \<times> 32 word \<Rightarrow> 'p option) \<Rightarrow> (obj \<Rightarrow> obj option) \<Rightarrow> bool" where
  new: "pc_history pc_new f g"
| fork: "pc_history c f g \<Longrightarrow> pc_history (pc_fork c) f g"
| hit: "pc_history c f g \<Longrightarrow> f (ob, compare_id y) = Some v \<Longrightarrow> pc_history (pc_fill_hit c ob y v) f g"
| miss: "pc_history c f g \<Longrightarrow> f (ob, compare_id y) = None \<Longrightarrow> pc_history (pc_fill_miss c ob y) f g"
| first_parent: "pc_history c f g \<Longrightarrow> pc_history (pc_fill_first_parent c ob (g ob)) f g"
| flush: "pc_history c f g \<Longrightarrow> pc_history (pc_flush c) f' g'"
| invalidate: "pc_history c f g \<Longrightarrow> (\<And>q. fst q \<notin> set os \<Longrightarrow> f' q = f q)
    \<Longrightarrow> (\<And>ob. ob \<notin> set os \<Longrightarrow> g' ob = g ob) \<Longrightarrow> pc_history (pc_invalidate_objects c os) f' g'"

inductive ac_history :: "ancestry_cache \<Rightarrow> (obj \<Rightarrow> obj list) \<Rightarrow> bool" where
  new: "ac_history ac_default f"
| fork: "ac_history c f \<Longrightarrow> ac_history (ac_fork c) f"
| fill: "ac_history c f \<Longrightarrow> ac_history (ac_fill c ob (f ob)) f"
| flush: "ac_history c f \<Longrightarrow> ac_history (ac_flush c) f'"
| invalidate: "ac_history c f \<Longrightarrow> (\<And>ob. ob \<notin> set os \<Longrightarrow> f' ob = f ob)
    \<Longrightarrow> ac_history (ac_invalidate_objects c os) f'"

lemma verb_key_compare_id: "verb_make_cache_key ob (symbol_with (compare_id y)) a f = verb_make_cache_key ob y a f"
  by (simp add: verb_make_cache_key_def)

lemma prop_key_compare_id: "prop_make_cache_key ob (symbol_with (compare_id y)) = prop_make_cache_key ob y"
  by (simp add: prop_make_cache_key_def)

lemma vc_fill_as_answer:
  "vc_fill_hit_spec c ob y a fl v = vc_answer c (ob, compare_id y, a, fl) (Some v)"
  "vc_fill_miss_spec c ob y a fl = vc_answer c (ob, compare_id y, a, fl) None"
  by (simp_all add: vc_defs verb_key_compare_id)

lemma pc_fill_as_answer:
  "pc_fill_hit c ob y p = pc_answer c (ob, compare_id y) (Some p)"
  "pc_fill_miss c ob y = pc_answer c (ob, compare_id y) None"
  by (simp_all add: pc_defs prop_key_compare_id)

lemma vc_other_ops:
  "vc_query (vc_fill_first_parent c ob p) q = vc_query c q"
  "vc_lookup_first_parent (vc_answer c q r) ob = vc_lookup_first_parent c ob"
  "vc_query (vc_mark_builtin_proxy_absent c b) q = vc_query c q"
  "vc_lookup_first_parent (vc_mark_builtin_proxy_absent c b) ob = vc_lookup_first_parent c ob"
  by (auto simp: vc_defs vc_mark_builtin_proxy_absent_def split: prod.splits option.splits)

lemma pc_other_ops:
  "pc_query (pc_fill_first_parent c ob p) q = pc_query c q"
  "pc_lookup_first_parent (pc_answer c q r) ob = pc_lookup_first_parent c ob"
  by (auto simp: pc_defs split: prod.splits option.splits)

lemma vc_history_sound: "vc_history c f g \<Longrightarrow> vc.sound c f \<and> vfp.sound c g"
proof (induction rule: vc_history.induct)
  case (new f g)
  show ?case
    by (intro conjI vc.sound_empty vfp.sound_empty) (simp_all add: vc_defs vc_new_def split: prod.splits)
qed (auto simp: vc_fill_as_answer intro: vc.sound_fork vfp.sound_fork vc.sound_fill vfp.sound_fill
    vc.sound_flush vfp.sound_flush vc.sound_invalidate vfp.sound_invalidate
    vc.sound_cong [OF vc_other_ops(1)] vfp.sound_cong [OF vc_other_ops(2)]
    vc.sound_cong [OF vc_other_ops(3)] vfp.sound_cong [OF vc_other_ops(4)])

lemma pc_history_sound: "pc_history c f g \<Longrightarrow> pc.sound c f \<and> pfp.sound c g"
proof (induction rule: pc_history.induct)
  case (new f g)
  show ?case
    by (intro conjI pc.sound_empty pfp.sound_empty) (simp_all add: pc_defs pc_new_def split: prod.splits)
qed (auto simp: pc_fill_as_answer intro: pc.sound_fork pfp.sound_fork pc.sound_fill pfp.sound_fill
    pc.sound_flush pfp.sound_flush pc.sound_invalidate pfp.sound_invalidate
    pc.sound_cong [OF pc_other_ops(1)] pfp.sound_cong [OF pc_other_ops(2)])

lemma ac_history_sound: "ac_history c f \<Longrightarrow> ac.sound c f"
proof (induction rule: ac_history.induct)
  case (new f)
  show ?case by (intro ac.sound_empty) (simp add: ac_defs ac_default_def)
qed (auto intro: ac.sound_fork ac.sound_fill ac.sound_flush ac.sound_invalidate)

section \<open>Properties\<close>



end
