(* ===== verification/Memo.thy ===== *)
theory Memo
  imports Defs
begin

text \<open>
  The per-transaction memory of property permissions, \<open>PropertyPermMemo\<close> of
  \<^verbatim>\<open>db/src/engine/ws_transaction.rs\<close>: the holders known to have permissions of their own, and the
  permissions computed for a holder. A holder (\<open>PropertyKey\<close>) is an object and the uuid of a property.
\<close>

section \<open>Model\<close>

type_synonym property_key = "obj \<times> uuid"

record perm_memo =
  known_propflags :: "property_key list"
  perms_by_holder :: "(property_key, prop_perms) hmap"

definition memo_new :: perm_memo where
  "memo_new = \<lparr>known_propflags = [], perms_by_holder = []\<rparr>"

definition has_known_propflags :: "perm_memo \<Rightarrow> property_key \<Rightarrow> bool" where
  "has_known_propflags m holder \<longleftrightarrow> holder \<in> set (known_propflags m)"

definition mark_known_propflags :: "perm_memo \<Rightarrow> property_key \<Rightarrow> perm_memo" where
  "mark_known_propflags m holder = m\<lparr>known_propflags := List.insert holder (known_propflags m)\<rparr>"

definition invalidate_known_for_obj :: "perm_memo \<Rightarrow> obj \<Rightarrow> perm_memo" where
  "invalidate_known_for_obj m ob =
     m\<lparr>known_propflags := filter (\<lambda>holder. fst holder \<noteq> ob) (known_propflags m)\<rparr>"

definition invalidate_known_for_holder :: "perm_memo \<Rightarrow> property_key \<Rightarrow> perm_memo" where
  "invalidate_known_for_holder m holder =
     m\<lparr>known_propflags := filter (\<lambda>h. h \<noteq> holder) (known_propflags m)\<rparr>"

definition cached_perms :: "perm_memo \<Rightarrow> property_key \<Rightarrow> prop_perms option" where
  "cached_perms m holder = map_of (perms_by_holder m) holder"

definition cache_perms :: "perm_memo \<Rightarrow> property_key \<Rightarrow> prop_perms \<Rightarrow> perm_memo" where
  "cache_perms m holder perms = m\<lparr>perms_by_holder := hm_insert holder perms (perms_by_holder m)\<rparr>"

definition invalidate_cached_for_obj :: "perm_memo \<Rightarrow> obj \<Rightarrow> perm_memo" where
  "invalidate_cached_for_obj m ob =
     m\<lparr>perms_by_holder := filter (\<lambda>(holder, _). fst holder \<noteq> ob) (perms_by_holder m)\<rparr>"

definition invalidate_cached_for_holder :: "perm_memo \<Rightarrow> property_key \<Rightarrow> perm_memo" where
  "invalidate_cached_for_holder m holder = m\<lparr>perms_by_holder := hm_remove holder (perms_by_holder m)\<rparr>"

definition clear_cached :: "perm_memo \<Rightarrow> perm_memo" where
  "clear_cached m = m\<lparr>perms_by_holder := []\<rparr>"

end
