(* ===== verification/World.thy ===== *)
theory World
  imports Apply Bloom Caches Memo
begin

text \<open>
  The relations of the object database and the snapshots of all of them:
  \<^verbatim>\<open>db/src/engine/relation_defs.rs\<close> as instantiated in \<^verbatim>\<open>db/src/engine/moor_db.rs\<close>, with the keys and
  values of \<^verbatim>\<open>db/src/model/mod.rs\<close>. The macro repeats a piece of code for each relation, in the
  order of the declaration: here a structure with one field per relation is a function of the
  relation, and a repetition is a recursion over the list of all relations. The keys of all
  relations form one type, and so do their values.

  A missing checker is a panic of the program (\<open>expect\<close>): such functions return \<open>None\<close> then.
\<close>

section \<open>Relations, keys and values\<close>

datatype database_relation = ObjectLocation | ObjectParent | ObjectFlags | ObjectOwner | ObjectName
  | ObjectVerbdefs | ObjectVerbs | ObjectPropdefs | ObjectPropvalues | ObjectPropflags
  | EntityMetadata | ObjectLastMove | AnonymousObjectMetadata

definition ALL_RELATIONS :: "database_relation list" where
  "ALL_RELATIONS = [ObjectLocation, ObjectParent, ObjectFlags, ObjectOwner, ObjectName, ObjectVerbdefs,
     ObjectVerbs, ObjectPropdefs, ObjectPropvalues, ObjectPropflags, EntityMetadata,
     ObjectLastMove, AnonymousObjectMetadata]"

primrec relation_as_str :: "database_relation \<Rightarrow> string" where
  "relation_as_str ObjectLocation = ''object_location''"
| "relation_as_str ObjectParent = ''object_parent''"
| "relation_as_str ObjectFlags = ''object_flags''"
| "relation_as_str ObjectOwner = ''object_owner''"
| "relation_as_str ObjectName = ''object_name''"
| "relation_as_str ObjectVerbdefs = ''object_verbdefs''"
| "relation_as_str ObjectVerbs = ''object_verbs''"
| "relation_as_str ObjectPropdefs = ''object_propdefs''"
| "relation_as_str ObjectPropvalues = ''object_propvalues''"
| "relation_as_str ObjectPropflags = ''object_propflags''"
| "relation_as_str EntityMetadata = ''entity_metadata''"
| "relation_as_str ObjectLastMove = ''object_last_move''"
| "relation_as_str AnonymousObjectMetadata = ''anonymous_object_metadata''"

definition relation_named :: "string \<Rightarrow> database_relation option" where
  "relation_named name = find (\<lambda>r. relation_as_str r = name) ALL_RELATIONS"

text \<open>The relations declared with \<open>==\<close> have a secondary index.\<close>

definition relation_is_secondary :: "database_relation \<Rightarrow> bool" where
  "relation_is_secondary r \<longleftrightarrow> r \<in> {ObjectLocation, ObjectParent, ObjectOwner, EntityMetadata}"

datatype db_key =
    KObj obj
  | KVerb obj uuid
  | KProperty obj uuid
  | KEntity obj "8 word" uuid "32 word"

fun key_target :: "db_key \<Rightarrow> conflict_target option" where
  "key_target (KObj ob) = Some (TargetObject ob)"
| "key_target (KProperty ob u) = Some (TargetProperty ob u None)"
| "key_target (KVerb ob u) = None"
| "key_target (KEntity ob tag u k) = None"

definition OP_HINT_NONE :: "8 word" where
  "OP_HINT_NONE = 0"

text \<open>A MOO value is its operation hint and a payload that this code does not look into.\<close>

datatype 'x db_value =
    VObj obj
  | VFlags bit_enum
  | VName string
  | VVerbdefs "verbdef list"
  | VProgram 'x
  | VPropdefs "propdef list"
  | VVar "8 word" 'x
  | VPerms prop_perms
  | VAnonymous nat nat

fun with_cleared_hint :: "'x db_value \<Rightarrow> 'x db_value" where
  "with_cleared_hint (VVar h x) = VVar OP_HINT_NONE x"
| "with_cleared_hint v = v"

fun clone_for_commit :: "'x db_value \<Rightarrow> 'x db_value" where
  "clone_for_commit (VVar h x) = with_cleared_hint (VVar h x)"
| "clone_for_commit v = v"

type_synonym 'x db_index = "(db_key, 'x db_value) relation_index"
type_synonym 'x db_ws = "(db_key, 'x db_value) working_set"
type_synonym 'x db_checker = "(db_key, 'x db_value) check_relation"
type_synonym db_caches = "(resolved_verb, propdef) caches"

type_synonym 'x relations = "database_relation \<Rightarrow> (db_key, 'x db_value) relation"

section \<open>Snapshots and working sets\<close>

record 'x snapshot =
  s_version :: nat
  committed_ts :: timestamp
  s_caches :: db_caches
  s_index :: "database_relation \<Rightarrow> 'x db_index"
  s_commit_bloom :: "commit_bloom option"
  bloom_since_version :: nat

record 'x relation_working_sets =
  owner_change_reads :: "obj list"
  inherited_policy_reads :: "(obj \<times> uuid) list"
  ws_of :: "database_relation \<Rightarrow> 'x db_ws"

record 'x working_sets =
  wss_relations :: "'x relation_working_sets"
  wss_tx :: tx
  wss_caches :: db_caches
  wss_has_mutations :: bool
  wss_tx_bloom :: commit_bloom

definition total_tuples :: "'x working_sets \<Rightarrow> nat" where
  "total_tuples ws = foldl (\<lambda>n r. n + ws_len (ws_of (wss_relations ws) r)) 0 ALL_RELATIONS"

definition extract_relation_working_sets ::
  "'x working_sets \<Rightarrow> 'x relation_working_sets \<times> db_caches" where
  "extract_relation_working_sets ws = (wss_relations ws, wss_caches ws)"

type_synonym 'x relation_checkers = "database_relation \<Rightarrow> 'x db_checker option"

definition create_relation ::
  "(db_key \<Rightarrow> string) \<Rightarrow> (database_relation \<Rightarrow> (db_key, 'x db_value) provider) \<Rightarrow> 'x relations" where
  "create_relation disp sources r =
     (let rd = \<lparr>rd_display = disp, rd_target = key_target\<rparr>
      in if relation_is_secondary r
         then relation_new_with_secondary (relation_as_str r) rd (sources r)
         else relation_new (relation_as_str r) rd (sources r))"

fun seed_all ::
  "'x relations \<Rightarrow> database_relation list \<Rightarrow> timestamp
     \<Rightarrow> tx_error + timestamp \<times> (database_relation \<times> 'x db_index) list" where
  "seed_all rels [] ts = Inr (ts, [])"
| "seed_all rels (r # rs) ts =
     rbind (seeded_index_with_max_timestamp (rels r)) (\<lambda>(index, max_timestamp).
       rbind (seed_all rels rs (max ts max_timestamp)) (\<lambda>(ts', ixs). Inr (ts', (r, index) # ixs)))"

definition relations_snapshot ::
  "'x relations \<Rightarrow> nat \<Rightarrow> timestamp \<Rightarrow> db_caches \<Rightarrow> tx_error + 'x snapshot" where
  "relations_snapshot rels version ts caches =
     rbind (seed_all rels ALL_RELATIONS ts) (\<lambda>(ts', ixs).
       Inr \<lparr>s_version = version, committed_ts = ts', s_caches = caches,
            s_index = (\<lambda>r. the (map_of ixs r)), s_commit_bloom = None, bloom_since_version = 0\<rparr>)"

definition snapshot_with_all_fully_loaded :: "'x snapshot \<Rightarrow> 'x snapshot" where
  "snapshot_with_all_fully_loaded root =
     \<lparr>s_version = s_version root, committed_ts = committed_ts root, s_caches = s_caches root,
      s_index = (\<lambda>r. idx_set_provider_fully_loaded (s_index root r) True),
      s_commit_bloom = None, bloom_since_version = 0\<rparr>"

definition begin_check_all ::
  "'x relations \<Rightarrow> 'x snapshot \<Rightarrow> 'x relation_working_sets \<Rightarrow> 'x relation_checkers" where
  "begin_check_all rels root ws r =
     (if ws_is_empty (ws_of ws r) then None
      else Some (begin_check_from_index (rels r) (s_index root r)))"

section \<open>Transactions over all relations\<close>

record 'x tx_owner =
  to_snapshot :: "'x snapshot"
  to_relations :: "'x relations"
  to_caches :: db_caches

type_synonym 'x db_rt = "(db_key, 'x db_value, 'x tx_owner) relation_transaction"

record 'x ws_transaction =
  wt_tx :: tx
  wt_rel :: "database_relation \<Rightarrow> 'x db_rt"
  wt_caches :: db_caches
  wt_owner_change_reads :: "obj list"
  wt_inherited_policy_reads :: "(obj \<times> uuid) list"
  wt_verb_program_revision :: nat
  wt_perm_memo :: perm_memo

record 'x tx_seed =
  seed_tx :: tx
  seed_snapshot :: "'x snapshot"
  seed_caches :: db_caches

text \<open>
  The caches of a transaction are forks of those of its seed, made on first use: an unused fork
  equals the fork made at once.
\<close>

definition relations_start_transaction :: "'x relations \<Rightarrow> 'x tx_seed \<Rightarrow> 'x ws_transaction" where
  "relations_start_transaction rels seed =
     (let owner = \<lparr>to_snapshot = seed_snapshot seed, to_relations = rels, to_caches = seed_caches seed\<rparr>
      in \<lparr>wt_tx = seed_tx seed,
          wt_rel = (\<lambda>r. start_borrowed (rels r) (seed_tx seed) owner
             (\<lambda>ow. s_index (to_snapshot ow) r) (\<lambda>ow. rel_source (to_relations ow r))),
          wt_caches = caches_fork (seed_caches seed),
          wt_owner_change_reads = [], wt_inherited_policy_reads = [],
          wt_verb_program_revision = 0, wt_perm_memo = memo_new\<rparr>)"

definition wt_has_mutations :: "'x ws_transaction \<Rightarrow> bool" where
  "wt_has_mutations t \<longleftrightarrow> list_ex (\<lambda>r. rt_has_mutations (wt_rel t r)) ALL_RELATIONS"

definition bloom_insert_keys ::
  "db_key hasher \<Rightarrow> (database_relation \<Rightarrow> 'x db_ws) \<Rightarrow> database_relation list \<Rightarrow> commit_bloom \<Rightarrow> commit_bloom" where
  "bloom_insert_keys dh ws rs b =
     foldl (\<lambda>b r. foldl (bloom_insert dh) b (hm_keys (tuples (ws r)))) b rs"

definition into_working_sets :: "db_key hasher \<Rightarrow> 'x ws_transaction \<Rightarrow> 'x working_sets" where
  "into_working_sets dh t =
     (let ws = (\<lambda>r. rt_working_set (wt_rel t r))
      in \<lparr>wss_relations = \<lparr>owner_change_reads = wt_owner_change_reads t,
             inherited_policy_reads = wt_inherited_policy_reads t, ws_of = ws\<rparr>,
          wss_tx = wt_tx t, wss_caches = wt_caches t, wss_has_mutations = wt_has_mutations t,
          wss_tx_bloom = bloom_insert_keys dh ws ALL_RELATIONS bloom_new\<rparr>)"

end
