(* ===== verification/Policy.thy ===== *)
theory Policy
  imports World
begin

text \<open>
  Property-local opt-outs from the write-conflict rule, \<^verbatim>\<open>db/src/engine/moor_db/property_policy.rs\<close>,
  and the lookup of property names in a snapshot. A property whose permissions have the clobber
  flag accepts overlapping writes; the permissions that decide it, and the life of the object and
  of the definition, are validated against the state a transaction is about to replace.

  The walk up the parent chain ends at \<open>NOTHING\<close>, at a missing parent or at the definition; it
  would not end on a cyclic chain, so it is a partial function with \<open>None\<close> for not returning.
\<close>

section \<open>Model\<close>

definition relation_key_unchanged :: "('d, 'c) relation_index \<Rightarrow> ('d, 'c) relation_index \<Rightarrow> 'd \<Rightarrow> bool" where
  "relation_key_unchanged checked winner key \<longleftrightarrow>
     idx_is_provider_fully_loaded checked \<and> idx_is_provider_fully_loaded winner
     \<and> map_option ets (idx_lookup checked key) = map_option ets (idx_lookup winner key)"

fun value_perms :: "'x db_value \<Rightarrow> prop_perms option" where
  "value_perms (VPerms p) = Some p"
| "value_perms v = None"

fun value_obj :: "'x db_value \<Rightarrow> obj option" where
  "value_obj (VObj ob) = Some ob"
| "value_obj v = None"

fun value_propdefs :: "'x db_value \<Rightarrow> propdef list option" where
  "value_propdefs (VPropdefs ds) = Some ds"
| "value_propdefs v = None"

fun op_hint :: "'x db_value \<Rightarrow> 8 word" where
  "op_hint (VVar h x) = h"
| "op_hint v = OP_HINT_NONE"

definition final_value :: "('d, 'c) working_set \<Rightarrow> 'd \<Rightarrow> 'c option" where
  "final_value ws key =
     (case map_of (tuples ws) key of
        Some x \<Rightarrow> (case operation x of Insert v \<Rightarrow> Some v | Update v \<Rightarrow> Some v | Delete \<Rightarrow> None)
      | None \<Rightarrow> map_option evalue (idx_lookup (base_index ws) key))"

definition property_can_clobber :: "'x db_ws \<Rightarrow> db_key \<Rightarrow> bool" where
  "property_can_clobber flags key =
     (let perms = (case map_of (tuples flags) key of
          Some x \<Rightarrow> (case operation x of Insert v \<Rightarrow> Some v | Update v \<Rightarrow> Some v | Delete \<Rightarrow> None)
        | None \<Rightarrow> map_option evalue (idx_lookup (base_index flags) key))
      in case Option.bind perms value_perms of
           None \<Rightarrow> False
         | Some p \<Rightarrow> be_contains prop_flag_index (pp_flags p) PropClobber)"

definition validate ::
  "db_key relation_domain \<Rightarrow> 'x relation_working_sets \<Rightarrow> 'x snapshot \<Rightarrow> database_relation \<Rightarrow> db_key
     \<Rightarrow> conflict_info + unit" where
  "validate rd ws cur r key =
     (if relation_key_unchanged (base_index (ws_of ws r)) (s_index cur r) key then Inr ()
      else Inl (make_conflict_info rd (relation_as_str r) key ConcurrentWrite))"

fun check_owner_changes ::
  "db_key relation_domain \<Rightarrow> 'x relation_working_sets \<Rightarrow> 'x snapshot \<Rightarrow> obj list \<Rightarrow> conflict_info + unit" where
  "check_owner_changes rd ws cur [] = Inr ()"
| "check_owner_changes rd ws cur (ob # obs) =
     rbind (validate rd ws cur ObjectFlags (KObj ob)) (\<lambda>_.
       rbind (validate rd ws cur ObjectParent (KObj ob)) (\<lambda>_.
         rbind (validate rd ws cur ObjectPropdefs (KObj ob)) (\<lambda>_.
           check_owner_changes rd ws cur obs)))"

fun check_inherited_policies ::
  "db_key relation_domain \<Rightarrow> 'x relation_working_sets \<Rightarrow> 'x snapshot \<Rightarrow> (obj \<times> uuid) list
     \<Rightarrow> conflict_info + unit" where
  "check_inherited_policies rd ws cur [] = Inr ()"
| "check_inherited_policies rd ws cur ((ob, u) # ks) =
     (if relation_key_unchanged (base_index (ws_of ws ObjectPropflags)) (s_index cur ObjectPropflags) (KProperty ob u)
         \<and> relation_key_unchanged (base_index (ws_of ws ObjectPropdefs)) (s_index cur ObjectPropdefs) (KObj ob)
         \<and> relation_key_unchanged (base_index (ws_of ws ObjectFlags)) (s_index cur ObjectFlags) (KObj ob)
      then check_inherited_policies rd ws cur ks
      else Inl (make_conflict_info rd ''object_propflags'' (KProperty ob u) ConcurrentWrite))"

text \<open>The definition of the property on an object, as the transaction leaves it.\<close>

definition final_def :: "'x relation_working_sets \<Rightarrow> obj \<Rightarrow> uuid \<Rightarrow> propdef option" where
  "final_def ws ob u =
     Option.bind (Option.bind (final_value (ws_of ws ObjectPropdefs) (KObj ob)) value_propdefs)
       (\<lambda>ds. defs_find pd_uuid ds u)"

definition final_parent :: "'x relation_working_sets \<Rightarrow> obj \<Rightarrow> obj option" where
  "final_parent ws ob = Option.bind (final_value (ws_of ws ObjectParent) (KObj ob)) value_obj"

text \<open>The \<open>while\<close> loop; \<open>lazy\<close> tells that the key has no permissions row of its own.\<close>

partial_function (option) policy_walk ::
  "db_key relation_domain \<Rightarrow> 'x relation_working_sets \<Rightarrow> 'x snapshot \<Rightarrow> uuid \<Rightarrow> bool \<Rightarrow> obj
     \<Rightarrow> (conflict_info + unit) option" where
  "policy_walk rd ws cur u lazy ob =
     (if ob = NOTHING then Some (Inr ())
      else case rbind (validate rd ws cur ObjectFlags (KObj ob)) (\<lambda>_.
                rbind (validate rd ws cur ObjectParent (KObj ob)) (\<lambda>_.
                  validate rd ws cur ObjectPropdefs (KObj ob))) of
             Inl info \<Rightarrow> Some (Inl info)
           | Inr _ \<Rightarrow>
               (case final_def ws ob u of
                  Some d \<Rightarrow> Some (if lazy then validate rd ws cur ObjectPropflags (KProperty (pd_definer d) u)
                                  else Inr ())
                | None \<Rightarrow>
                    (case final_parent ws ob of
                       None \<Rightarrow> Some (Inr ())
                     | Some parent \<Rightarrow> policy_walk rd ws cur u lazy parent)))"

fun check_written_properties ::
  "db_key relation_domain \<Rightarrow> 'x relation_working_sets \<Rightarrow> 'x snapshot \<Rightarrow> db_key list
     \<Rightarrow> (conflict_info + unit) option" where
  "check_written_properties rd ws cur [] = Some (Inr ())"
| "check_written_properties rd ws cur (key # keys) =
     (if \<not> relation_key_unchanged (base_index (ws_of ws ObjectPropflags)) (s_index cur ObjectPropflags) key
      then Some (Inl (make_conflict_info rd ''object_propflags'' key ConcurrentWrite))
      else
        let local_perms = idx_lookup (base_index (ws_of ws ObjectPropflags)) key
        in if local_perms \<noteq> None \<and> \<not> property_can_clobber (ws_of ws ObjectPropflags) key
           then check_written_properties rd ws cur keys
           else case key of
                  KProperty ob u \<Rightarrow>
                    (case policy_walk rd ws cur u (local_perms = None) ob of
                       None \<Rightarrow> None
                     | Some (Inl info) \<Rightarrow> Some (Inl info)
                     | Some (Inr _) \<Rightarrow> check_written_properties rd ws cur keys)
                | _ \<Rightarrow> check_written_properties rd ws cur keys)"

definition written_property_keys :: "'x relation_working_sets \<Rightarrow> db_key list" where
  "written_property_keys ws =
     (let vals = hm_keys (tuples (ws_of ws ObjectPropvalues))
      in vals @ filter (\<lambda>k. k \<notin> set vals) (hm_keys (tuples (ws_of ws ObjectPropflags))))"

definition check_property_policies ::
  "db_key relation_domain \<Rightarrow> 'x relation_working_sets \<Rightarrow> 'x snapshot \<Rightarrow> (conflict_info + unit) option" where
  "check_property_policies rd ws cur =
     (case rbind (check_owner_changes rd ws cur (owner_change_reads ws)) (\<lambda>_.
             check_inherited_policies rd ws cur (inherited_policy_reads ws)) of
        Inl info \<Rightarrow> Some (Inl info)
      | Inr _ \<Rightarrow> check_written_properties rd ws cur (written_property_keys ws))"

definition clear_clobber_hint :: "'x db_ws \<Rightarrow> db_key \<Rightarrow> 'x db_value op \<Rightarrow> 'x db_value op" where
  "clear_clobber_hint flags key x =
     (if \<not> property_can_clobber flags key then x
      else case operation x of
             Insert v \<Rightarrow> if op_hint v \<noteq> OP_HINT_NONE then x\<lparr>operation := Insert (with_cleared_hint v)\<rparr> else x
           | Update v \<Rightarrow> if op_hint v \<noteq> OP_HINT_NONE then x\<lparr>operation := Update (with_cleared_hint v)\<rparr> else x
           | Delete \<Rightarrow> x)"

definition clear_clobber_hints :: "'x relation_working_sets \<Rightarrow> 'x relation_working_sets" where
  "clear_clobber_hints ws =
     (let vals = ws_of ws ObjectPropvalues; flags = ws_of ws ObjectPropflags
      in ws\<lparr>ws_of := (ws_of ws)(ObjectPropvalues :=
             vals\<lparr>tuples := map (\<lambda>(key, x). (key, clear_clobber_hint flags key x)) (tuples vals)\<rparr>)\<rparr>)"

text \<open>\<open>WorldStateSnapshot::property_name\<close>: at most 256 steps up the parent chain.\<close>

fun property_name_loop :: "nat \<Rightarrow> 'x snapshot \<Rightarrow> obj \<Rightarrow> uuid \<Rightarrow> symbol_id option" where
  "property_name_loop 0 root ob u = None"
| "property_name_loop (Suc n) root ob u =
     (case Option.bind (Option.bind (map_option evalue (idx_lookup (s_index root ObjectPropdefs) (KObj ob)))
             value_propdefs) (\<lambda>ds. defs_find pd_uuid ds u) of
        Some d \<Rightarrow> Some (pd_name d)
      | None \<Rightarrow>
          (case Option.bind (map_option evalue (idx_lookup (s_index root ObjectParent) (KObj ob))) value_obj of
             None \<Rightarrow> None
           | Some parent \<Rightarrow>
               if parent = NOTHING \<or> parent = ob then None else property_name_loop n root parent u))"

definition property_name :: "'x snapshot \<Rightarrow> obj \<Rightarrow> uuid \<Rightarrow> symbol_id option" where
  "property_name root ob u = property_name_loop 256 root ob u"

definition enrich_conflict_info :: "'x snapshot \<Rightarrow> conflict_info \<Rightarrow> conflict_info" where
  "enrich_conflict_info root info =
     (case ci_target info of
        Some (TargetProperty ob u None) \<Rightarrow>
          info\<lparr>ci_target := Some (TargetProperty ob u (property_name root ob u))\<rparr>
      | _ \<Rightarrow> info)"

section \<open>What the checks establish\<close>

definition unchanged :: "'x relation_working_sets \<Rightarrow> 'x snapshot \<Rightarrow> database_relation \<Rightarrow> db_key \<Rightarrow> bool" where
  "unchanged ws cur r key \<longleftrightarrow> relation_key_unchanged (base_index (ws_of ws r)) (s_index cur r) key"

definition object_unchanged :: "'x relation_working_sets \<Rightarrow> 'x snapshot \<Rightarrow> obj \<Rightarrow> bool" where
  "object_unchanged ws cur ob \<longleftrightarrow> unchanged ws cur ObjectFlags (KObj ob)
     \<and> unchanged ws cur ObjectParent (KObj ob) \<and> unchanged ws cur ObjectPropdefs (KObj ob)"

lemma validate_Inr_iff: "validate rd ws cur r key = Inr y \<longleftrightarrow> unchanged ws cur r key"
  by (simp add: validate_def unchanged_def)

lemma check_owner_changes_iff:
  "check_owner_changes rd ws cur obs = Inr y \<longleftrightarrow> (\<forall>ob \<in> set obs. object_unchanged ws cur ob)"
  by (induction obs) (auto simp: rbind_Inr_iff validate_Inr_iff object_unchanged_def)

lemma check_inherited_policies_iff:
  "check_inherited_policies rd ws cur ks = Inr y \<longleftrightarrow>
     (\<forall>(ob, u) \<in> set ks. unchanged ws cur ObjectPropflags (KProperty ob u)
        \<and> unchanged ws cur ObjectPropdefs (KObj ob) \<and> unchanged ws cur ObjectFlags (KObj ob))"
  by (induction rd ws cur ks rule: check_inherited_policies.induct) (auto simp: unchanged_def)

text \<open>The objects the walk visits: the holder and its ancestors up to the definition.\<close>

inductive visits :: "'x relation_working_sets \<Rightarrow> uuid \<Rightarrow> obj \<Rightarrow> obj \<Rightarrow> bool" for ws u where
  self: "ob \<noteq> NOTHING \<Longrightarrow> visits ws u ob ob"
| up: "ob \<noteq> NOTHING \<Longrightarrow> final_def ws ob u = None \<Longrightarrow> final_parent ws ob = Some p \<Longrightarrow> visits ws u p x
    \<Longrightarrow> visits ws u ob x"

inductive_simps visits_iff: "visits ws u ob x"

definition visit_ok :: "'x relation_working_sets \<Rightarrow> 'x snapshot \<Rightarrow> uuid \<Rightarrow> bool \<Rightarrow> obj \<Rightarrow> bool" where
  "visit_ok ws cur u lazy ob \<longleftrightarrow> object_unchanged ws cur ob
     \<and> (\<forall>d. final_def ws ob u = Some d \<longrightarrow> lazy \<longrightarrow>
          unchanged ws cur ObjectPropflags (KProperty (pd_definer d) u))"

definition parents_wf :: "'x relation_working_sets \<Rightarrow> bool" where
  "parents_wf ws \<longleftrightarrow> wf {(p, ob). ob \<noteq> NOTHING \<and> final_parent ws ob = Some p}"

lemma validate_object_iff:
  "rbind (validate rd ws cur ObjectFlags (KObj ob)) (\<lambda>_.
     rbind (validate rd ws cur ObjectParent (KObj ob)) (\<lambda>_.
       validate rd ws cur ObjectPropdefs (KObj ob))) = Inr y \<longleftrightarrow> object_unchanged ws cur ob"
  by (auto simp: rbind_Inr_iff validate_Inr_iff object_unchanged_def)

lemma policy_walk_step:
  assumes "ob \<noteq> NOTHING"
  shows "object_unchanged ws cur ob \<Longrightarrow> policy_walk rd ws cur u lazy ob =
      (case final_def ws ob u of
         Some d \<Rightarrow> Some (if lazy then validate rd ws cur ObjectPropflags (KProperty (pd_definer d) u) else Inr ())
       | None \<Rightarrow> (case final_parent ws ob of None \<Rightarrow> Some (Inr ()) | Some p \<Rightarrow> policy_walk rd ws cur u lazy p))"
    and "\<not> object_unchanged ws cur ob \<Longrightarrow> \<exists>info. policy_walk rd ws cur u lazy ob = Some (Inl info)"
proof -
  let ?v = "rbind (validate rd ws cur ObjectFlags (KObj ob)) (\<lambda>_.
     rbind (validate rd ws cur ObjectParent (KObj ob)) (\<lambda>_.
       validate rd ws cur ObjectPropdefs (KObj ob)))"
  assume "object_unchanged ws cur ob"
  then have "?v = Inr ()" by (simp add: validate_object_iff)
  then show "policy_walk rd ws cur u lazy ob =
      (case final_def ws ob u of
         Some d \<Rightarrow> Some (if lazy then validate rd ws cur ObjectPropflags (KProperty (pd_definer d) u) else Inr ())
       | None \<Rightarrow> (case final_parent ws ob of None \<Rightarrow> Some (Inr ()) | Some p \<Rightarrow> policy_walk rd ws cur u lazy p))"
    using assms by (subst policy_walk.simps) simp
next
  let ?v = "rbind (validate rd ws cur ObjectFlags (KObj ob)) (\<lambda>_.
     rbind (validate rd ws cur ObjectParent (KObj ob)) (\<lambda>_.
       validate rd ws cur ObjectPropdefs (KObj ob)))"
  assume "\<not> object_unchanged ws cur ob"
  then obtain info where "?v = Inl info" by (metis old.sum.exhaust validate_object_iff)
  then show "\<exists>info. policy_walk rd ws cur u lazy ob = Some (Inl info)"
    using assms by (subst policy_walk.simps) simp
qed

lemma policy_walk_exact:
  assumes "parents_wf ws"
  shows "\<exists>r. policy_walk rd ws cur u lazy ob = Some r
    \<and> (r = Inr () \<longleftrightarrow> (\<forall>x. visits ws u ob x \<longrightarrow> visit_ok ws cur u lazy x))"
  using assms [unfolded parents_wf_def]
proof (induction ob rule: wf_induct_rule)
  case (less ob)
  show ?case
  proof (cases "ob = NOTHING")
    case True
    then show ?thesis by (subst policy_walk.simps) (auto elim: visits.cases)
  next
    case ob: False
    show ?thesis
    proof (cases "object_unchanged ws cur ob")
      case False
      then show ?thesis
        using policy_walk_step(2) [OF ob False, of rd u lazy] visits.self [OF ob, of ws u]
        by (auto simp: visit_ok_def)
    next
      case True
      note step = policy_walk_step(1) [OF ob True, of rd u lazy]
      have self: "visit_ok ws cur u lazy ob \<longleftrightarrow> (\<forall>d. final_def ws ob u = Some d \<longrightarrow> lazy \<longrightarrow>
          unchanged ws cur ObjectPropflags (KProperty (pd_definer d) u))"
        using True by (simp add: visit_ok_def)
      show ?thesis
      proof (cases "final_def ws ob u")
        case (Some d)
        then have "visits ws u ob x \<longleftrightarrow> x = ob" for x
          using ob by (subst visits_iff) auto
        then show ?thesis by (simp add: step Some self validate_Inr_iff)
      next
        case None
        have vis: "visits ws u ob x \<longleftrightarrow> x = ob \<or> (\<exists>p. final_parent ws ob = Some p \<and> visits ws u p x)" for x
          using ob None by (subst visits_iff) auto
        show ?thesis
        proof (cases "final_parent ws ob")
          case None
          then show ?thesis using \<open>final_def ws ob u = None\<close> by (simp add: step vis self)
        next
          case (Some p)
          then have "\<exists>r. policy_walk rd ws cur u lazy p = Some r
              \<and> (r = Inr () \<longleftrightarrow> (\<forall>x. visits ws u p x \<longrightarrow> visit_ok ws cur u lazy x))"
            using less.IH [of p] ob by simp
          then show ?thesis
            using None Some by (auto simp: step vis self)
        qed
      qed
    qed
  qed
qed

definition written_property_ok :: "'x relation_working_sets \<Rightarrow> 'x snapshot \<Rightarrow> db_key \<Rightarrow> bool" where
  "written_property_ok ws cur key \<longleftrightarrow> unchanged ws cur ObjectPropflags key
     \<and> (\<forall>ob u. key = KProperty ob u \<longrightarrow>
          (let row = idx_lookup (base_index (ws_of ws ObjectPropflags)) key
           in row = None \<or> property_can_clobber (ws_of ws ObjectPropflags) key \<longrightarrow>
              (\<forall>x. visits ws u ob x \<longrightarrow> visit_ok ws cur u (row = None) x)))"

lemma check_written_properties_exact:
  assumes "parents_wf ws"
  shows "\<exists>r. check_written_properties rd ws cur keys = Some r
    \<and> (r = Inr () \<longleftrightarrow> (\<forall>key \<in> set keys. written_property_ok ws cur key))"
proof (induction keys)
  case (Cons key keys)
  then obtain r where r: "check_written_properties rd ws cur keys = Some r"
    "r = Inr () \<longleftrightarrow> (\<forall>key \<in> set keys. written_property_ok ws cur key)" by blast
  show ?case
  proof (cases key)
    case (KProperty ob u)
    obtain w where "policy_walk rd ws cur u
        (idx_lookup (base_index (ws_of ws ObjectPropflags)) key = None) ob = Some w"
      "w = Inr () \<longleftrightarrow> (\<forall>x. visits ws u ob x \<longrightarrow> visit_ok ws cur u
         (idx_lookup (base_index (ws_of ws ObjectPropflags)) key = None) x)"
      using policy_walk_exact [OF assms] by blast
    with r show ?thesis
      by (cases w) (auto simp: KProperty written_property_ok_def unchanged_def Let_def)
  qed (use r in \<open>auto simp: written_property_ok_def unchanged_def Let_def\<close>)
qed simp

lemma policy_check_returns:
  assumes "parents_wf ws"
  shows "\<exists>r. check_property_policies rd ws cur = Some r"
  using check_written_properties_exact [OF assms, of rd cur "written_property_keys ws"]
  by (auto simp: check_property_policies_def split: sum.split)

section \<open>Clearing hints\<close>

lemma clear_clobber_hint_simps [simp]:
  "read_ts (clear_clobber_hint flags k x) = read_ts x"
  "write_ts (clear_clobber_hint flags k x) = write_ts x"
  "guaranteed_unique (clear_clobber_hint flags k x) = guaranteed_unique x"
  "is_insert (operation (clear_clobber_hint flags k x)) = is_insert (operation x)"
  "is_update (operation (clear_clobber_hint flags k x)) = is_update (operation x)"
  "is_delete (operation (clear_clobber_hint flags k x)) = is_delete (operation x)"
  by (cases "operation x"; simp add: clear_clobber_hint_def)+

lemma clone_for_commit_cleared [simp]: "clone_for_commit (with_cleared_hint v) = clone_for_commit v"
  by (cases v) simp_all

lemma map_of_map_key: "map_of (map (\<lambda>(k, x). (k, f k x)) m) k = map_option (f k) (map_of m k)"
  by (induction m) auto

lemma clear_clobber_hints_simps [simp]:
  "owner_change_reads (clear_clobber_hints ws) = owner_change_reads ws"
  "inherited_policy_reads (clear_clobber_hints ws) = inherited_policy_reads ws"
  "base_index (ws_of (clear_clobber_hints ws) r) = base_index (ws_of ws r)"
  "ws_fully_loaded (ws_of (clear_clobber_hints ws) r) = ws_fully_loaded (ws_of ws r)"
  "hm_keys (tuples (ws_of (clear_clobber_hints ws) r)) = hm_keys (tuples (ws_of ws r))"
  "ws_is_empty (ws_of (clear_clobber_hints ws) r) = ws_is_empty (ws_of ws r)"
  "ws_of (clear_clobber_hints ws) ObjectPropflags = ws_of ws ObjectPropflags"
  by (auto simp: clear_clobber_hints_def Let_def ws_is_empty_def case_prod_unfold comp_def)

lemma clear_clobber_hints_tuple:
  "map_of (tuples (ws_of (clear_clobber_hints ws) r)) k =
     (if r = ObjectPropvalues then map_option (clear_clobber_hint (ws_of ws ObjectPropflags) k)
        (map_of (tuples (ws_of ws r)) k) else map_of (tuples (ws_of ws r)) k)"
  by (simp add: clear_clobber_hints_def Let_def map_of_map_key)

lemma overlay_clear_clobber_hints:
  "overlay clone_for_commit (tuples (ws_of (clear_clobber_hints ws) r)) f =
     overlay clone_for_commit (tuples (ws_of ws r)) f"
proof
  fix k
  have "map_option (\<lambda>v. mk_entry t (clone_for_commit v)) (op_value (clear_clobber_hint (ws_of ws ObjectPropflags) k x)) =
      map_option (\<lambda>v. mk_entry t (clone_for_commit v)) (op_value x)" for t x
    by (cases "operation x") (simp_all add: clear_clobber_hint_def)
  then show "overlay clone_for_commit (tuples (ws_of (clear_clobber_hints ws) r)) f k =
      overlay clone_for_commit (tuples (ws_of ws r)) f k"
    by (simp add: overlay_def clear_clobber_hints_tuple split: option.split)
qed

section \<open>Properties\<close>

text \<open>
  C31. The policy check of a commit returns on every working set whose parent chains are well
  founded, and it succeeds exactly when nothing it depends on has changed since the transaction's
  snapshot: for an ownership transfer the flags, parents and property definitions of every object
  it looked at; for an inherited permission the row, the definition and the object; and for each
  property whose value or permissions the transaction wrote, the permissions row and, when the row
  is missing or grants clobber, the flags, parent and definitions of the holder and its ancestors
  up to the definition, with the definer's permissions when the holder has none.
\<close>

theorem policy_check_exact:
  assumes "parents_wf ws"
  shows "\<exists>r. check_property_policies rd ws cur = Some r
    \<and> (r = Inr () \<longleftrightarrow>
         (\<forall>ob \<in> set (owner_change_reads ws). object_unchanged ws cur ob)
         \<and> (\<forall>(ob, u) \<in> set (inherited_policy_reads ws). unchanged ws cur ObjectPropflags (KProperty ob u)
              \<and> unchanged ws cur ObjectPropdefs (KObj ob) \<and> unchanged ws cur ObjectFlags (KObj ob))
         \<and> (\<forall>key \<in> set (written_property_keys ws). written_property_ok ws cur key))"
proof -
  let ?c = "rbind (check_owner_changes rd ws cur (owner_change_reads ws)) (\<lambda>_.
    check_inherited_policies rd ws cur (inherited_policy_reads ws))"
  have c: "?c = Inr y \<longleftrightarrow> (\<forall>ob \<in> set (owner_change_reads ws). object_unchanged ws cur ob)
      \<and> (\<forall>(ob, u) \<in> set (inherited_policy_reads ws). unchanged ws cur ObjectPropflags (KProperty ob u)
           \<and> unchanged ws cur ObjectPropdefs (KObj ob) \<and> unchanged ws cur ObjectFlags (KObj ob))" for y
    by (simp only: rbind_Inr_iff check_owner_changes_iff check_inherited_policies_iff) auto
  obtain r where r: "check_written_properties rd ws cur (written_property_keys ws) = Some r"
    "r = Inr () \<longleftrightarrow> (\<forall>key \<in> set (written_property_keys ws). written_property_ok ws cur key)"
    using check_written_properties_exact [OF assms] by blast
  show ?thesis
  proof (cases ?c)
    case (Inl info)
    then have "\<not> ((\<forall>ob \<in> set (owner_change_reads ws). object_unchanged ws cur ob)
      \<and> (\<forall>(ob, u) \<in> set (inherited_policy_reads ws). unchanged ws cur ObjectPropflags (KProperty ob u)
           \<and> unchanged ws cur ObjectPropdefs (KObj ob) \<and> unchanged ws cur ObjectFlags (KObj ob)))"
      using c [of "()"] by simp
    then show ?thesis
      by (intro exI [of _ "Inl info"]) (use Inl in \<open>simp add: check_property_policies_def\<close>, blast)
  next
    case (Inr y)
    then show ?thesis
      using c [of y] r
      by (intro exI [of _ r]) (simp add: check_property_policies_def)
  qed
qed

definition demo_loaded :: "'x db_index" where
  "demo_loaded = idx_set_provider_fully_loaded (HashRelationIndex hri_new) True"

definition demo_policy_ws :: "unit relation_working_sets" where
  "demo_policy_ws = \<lparr>owner_change_reads = [], inherited_policy_reads = [],
     ws_of = (\<lambda>r. ws_new (if r = ObjectPropvalues then [(KProperty SYSTEM_OBJECT 7,
       \<lparr>read_ts = 5, write_ts = 5, operation = Insert (VVar 0 ()), guaranteed_unique = False\<rparr>)] else [])
       demo_loaded)\<rparr>"

definition demo_policy_root :: "unit snapshot" where
  "demo_policy_root = \<lparr>s_version = 2, committed_ts = 4, s_caches = caches_new,
     s_index = (\<lambda>r. if r = ObjectPropflags
        then fst (idx_insert_entry demo_loaded 4 (KProperty SYSTEM_OBJECT 7)
               (VPerms (prop_perms_new SYSTEM_OBJECT 0)))
        else demo_loaded), s_commit_bloom = None, bloom_since_version = 0\<rparr>"

theorem policy_check_exact_witness:
  "\<exists>info. check_property_policies \<lparr>rd_display = (\<lambda>_. ''key''), rd_target = key_target\<rparr>
     demo_policy_ws demo_policy_root = Some (Inl info)"
proof -
  let ?rd = "\<lparr>rd_display = (\<lambda>_. ''key''), rd_target = key_target\<rparr>"
  have look: "idx_lookup demo_loaded k = None" for k :: db_key
    by (simp add: demo_loaded_def idx_lookup_def hri_new_def)
  have par: "final_parent demo_policy_ws ob = None" for ob
    by (simp add: final_parent_def final_value_def demo_policy_ws_def ws_new_def look)
  then have wf: "parents_wf demo_policy_ws"
    by (simp add: parents_wf_def)
  have "\<not> unchanged demo_policy_ws demo_policy_root ObjectPropflags (KProperty SYSTEM_OBJECT 7)"
    by (simp add: unchanged_def relation_key_unchanged_def demo_policy_ws_def demo_policy_root_def
        ws_new_def look idx.insert_entry_lookup)
  then have bad: "\<not> written_property_ok demo_policy_ws demo_policy_root (KProperty SYSTEM_OBJECT 7)"
    by (simp add: written_property_ok_def)
  have "KProperty SYSTEM_OBJECT 7 \<in> set (written_property_keys demo_policy_ws)"
    by (simp add: written_property_keys_def demo_policy_ws_def ws_new_def)
  with bad policy_check_exact [OF wf, of ?rd demo_policy_root] show ?thesis
    by (metis (full_types) old.sum.exhaust old.unit.exhaust)
qed

end
