(* ===== verification/Commit.thy ===== *)
theory Commit
  imports Policy
begin

unbundle bit_operations_syntax

text \<open>
  The commit pipeline: checking, building and rebasing snapshots
  (\<^verbatim>\<open>db/src/engine/relation_defs.rs\<close>), the owned commit states
  (\<^verbatim>\<open>db/src/engine/moor_db/commit_pipeline/state.rs\<close>), the publication of snapshots
  (\<^verbatim>\<open>db/src/engine/moor_db/snapshot_planes.rs\<close>), and the start of transactions
  (\<^verbatim>\<open>db/src/engine/moor_db.rs\<close>). Timers, logging and counters are left out; the admission of a commit
  by the batch writer and the hand-over to it are inputs. A function that the program runs on a
  loaded snapshot takes the snapshot as an argument; the interleaving of several commits is in the
  theory that follows.
\<close>

section \<open>Checkers over all relations\<close>

definition clobber_resolver :: "'x db_ws \<Rightarrow> (db_key, 'x db_value) resolver" where
  "clobber_resolver flags conflict =
     (if property_can_clobber flags (pc_domain conflict) then Inr Accept
      else Inl (Conflict (pc_info conflict)))"

definition check_relation_ws ::
  "database_relation \<Rightarrow> 'x db_checker \<Rightarrow> 'x relation_working_sets \<Rightarrow> 'x db_checker \<times> (tx_error + 'x db_ws)" where
  "check_relation_ws r cr ws =
     (if r = ObjectPropvalues
      then check_with_resolver cr (ws_of ws r) (clobber_resolver (ws_of ws ObjectPropflags))
      else check cr (ws_of ws r))"

definition conflict_of_error :: "'x db_checker \<Rightarrow> tx_error \<Rightarrow> conflict_info" where
  "conflict_of_error cr e =
     (case e of
        Conflict info \<Rightarrow> info
      | _ \<Rightarrow> \<lparr>ci_relation_name = cr_relation_name cr, ci_domain_key = ''<unknown>'', ci_target = None,
              ci_conflict_type = ConcurrentWrite\<rparr>)"

fun check_all_from ::
  "database_relation list \<Rightarrow> 'x relation_checkers \<Rightarrow> 'x relation_working_sets
     \<Rightarrow> ('x relation_checkers \<times> 'x relation_working_sets \<times> (conflict_info + unit)) option" where
  "check_all_from [] ck ws = Some (ck, ws, Inr ())"
| "check_all_from (r # rs) ck ws =
     (if ws_is_empty (ws_of ws r) then check_all_from rs ck ws
      else case ck r of
             None \<Rightarrow> None
           | Some cr \<Rightarrow>
               (case check_relation_ws r cr ws of
                  (cr', Inl e) \<Rightarrow> Some (ck(r \<mapsto> cr'), ws, Inl (conflict_of_error cr' e))
                | (cr', Inr w) \<Rightarrow>
                    check_all_from rs (ck(r \<mapsto> cr')) (ws\<lparr>ws_of := (ws_of ws)(r := w)\<rparr>)))"

definition check_all ::
  "'x relation_checkers \<Rightarrow> 'x relation_working_sets
     \<Rightarrow> ('x relation_checkers \<times> 'x relation_working_sets \<times> (conflict_info + unit)) option" where
  "check_all ck ws = check_all_from ALL_RELATIONS ck ws"

fun prepare_apply_from ::
  "db_key hasher \<Rightarrow> database_relation list \<Rightarrow> 'x relation_checkers \<Rightarrow> 'x relation_working_sets \<Rightarrow> commit_bloom
     \<Rightarrow> ('x relation_checkers \<times> commit_bloom) option" where
  "prepare_apply_from dh [] ck ws b = Some (ck, b)"
| "prepare_apply_from dh (r # rs) ck ws b =
     (if ws_is_empty (ws_of ws r) then prepare_apply_from dh rs ck ws b
      else case ck r of
             None \<Rightarrow> None
           | Some cr \<Rightarrow>
               prepare_apply_from dh rs (ck(r \<mapsto> prepare_indexes clone_for_commit cr (ws_of ws r))) ws
                 (foldl (bloom_insert dh) b (hm_keys (tuples (ws_of ws r)))))"

definition prepare_apply_all ::
  "db_key hasher \<Rightarrow> 'x relation_checkers \<Rightarrow> 'x relation_working_sets
     \<Rightarrow> ('x relation_checkers \<times> commit_bloom) option" where
  "prepare_apply_all dh ck ws = prepare_apply_from dh ALL_RELATIONS ck ws bloom_new"

definition MAX_BLOOM_SPAN :: nat where
  "MAX_BLOOM_SPAN = 32"

definition build_snapshot ::
  "'x relation_checkers \<Rightarrow> 'x snapshot \<Rightarrow> timestamp \<Rightarrow> db_caches \<Rightarrow> commit_bloom \<Rightarrow> 'x snapshot" where
  "build_snapshot ck root ts combined_caches bloom =
     (let (bloom', since) =
        (case s_commit_bloom root of
           Some prev_bloom \<Rightarrow>
             (let span = s_version root - bloom_since_version root
              in if span < MAX_BLOOM_SPAN then (bloom_merge bloom prev_bloom, bloom_since_version root)
                 else (bloom, s_version root))
         | None \<Rightarrow> (bloom, s_version root))
      in \<lparr>s_version = s_version root + 1, committed_ts = max (committed_ts root) ts,
          s_caches = (if caches_has_changed combined_caches then combined_caches else s_caches root),
          s_index = (\<lambda>r. case ck r of
             None \<Rightarrow> s_index root r
           | Some cr \<Rightarrow> snapshot_index_or cr (s_index root r)),
          s_commit_bloom = Some bloom', bloom_since_version = since\<rparr>)"

datatype rebase_check_result = BloomDisjoint | ExactlyDisjoint | ActualOverlap conflict_info

definition can_clobber :: "'x relation_working_sets \<Rightarrow> database_relation \<Rightarrow> db_key \<Rightarrow> bool" where
  "can_clobber ws r key \<longleftrightarrow>
     r = ObjectPropvalues \<and> property_can_clobber (ws_of ws ObjectPropflags) key"

definition bloom_proves_disjoint ::
  "db_key hasher \<Rightarrow> 'x relation_working_sets \<Rightarrow> 'x snapshot \<Rightarrow> 'x snapshot \<Rightarrow> bool" where
  "bloom_proves_disjoint dh ws checked winner \<longleftrightarrow>
     s_version checked \<ge> bloom_since_version winner
     \<and> (case s_commit_bloom winner of
          None \<Rightarrow> False
        | Some b \<Rightarrow> list_all (\<lambda>r. list_all (\<lambda>key. \<not> might_contain dh b key)
            (hm_keys (tuples (ws_of ws r)))) ALL_RELATIONS)"

text \<open>The loops over the written keys; \<open>None\<close> as result: no overlap. A missing checker panics.\<close>

fun overlap_in_keys ::
  "'x relation_checkers \<Rightarrow> 'x relation_working_sets \<Rightarrow> 'x snapshot \<Rightarrow> 'x snapshot \<Rightarrow> database_relation
     \<Rightarrow> db_key list \<Rightarrow> conflict_info option option" where
  "overlap_in_keys ck ws checked winner r [] = Some None"
| "overlap_in_keys ck ws checked winner r (key # keys) =
     (if can_clobber ws r key then overlap_in_keys ck ws checked winner r keys
      else if \<not> relation_key_unchanged (s_index checked r) (s_index winner r) key
      then (case ck r of
              None \<Rightarrow> None
            | Some cr \<Rightarrow> Some (Some (make_conflict_info (cr_domain cr) (cr_relation_name cr) key ConcurrentWrite)))
      else overlap_in_keys ck ws checked winner r keys)"

fun overlap_in_relations ::
  "'x relation_checkers \<Rightarrow> 'x relation_working_sets \<Rightarrow> 'x snapshot \<Rightarrow> 'x snapshot \<Rightarrow> database_relation list
     \<Rightarrow> conflict_info option option" where
  "overlap_in_relations ck ws checked winner [] = Some None"
| "overlap_in_relations ck ws checked winner (r # rs) =
     (case overlap_in_keys ck ws checked winner r (hm_keys (tuples (ws_of ws r))) of
        Some None \<Rightarrow> overlap_in_relations ck ws checked winner rs
      | res \<Rightarrow> res)"

definition rebase_check ::
  "db_key hasher \<Rightarrow> db_key relation_domain \<Rightarrow> 'x relation_checkers \<Rightarrow> 'x relation_working_sets
     \<Rightarrow> 'x snapshot \<Rightarrow> 'x snapshot \<Rightarrow> rebase_check_result option" where
  "rebase_check dh rd ck ws checked winner =
     (case check_property_policies rd ws winner of
        None \<Rightarrow> None
      | Some (Inl info) \<Rightarrow> Some (ActualOverlap info)
      | Some (Inr _) \<Rightarrow>
          if bloom_proves_disjoint dh ws checked winner then Some BloomDisjoint
          else case overlap_in_relations ck ws checked winner ALL_RELATIONS of
                 None \<Rightarrow> None
               | Some None \<Rightarrow> Some ExactlyDisjoint
               | Some (Some info) \<Rightarrow> Some (ActualOverlap info))"

definition build_rebased_snapshot ::
  "'x relation_checkers \<Rightarrow> 'x relation_working_sets \<Rightarrow> 'x snapshot \<Rightarrow> timestamp \<Rightarrow> db_caches
     \<Rightarrow> commit_bloom \<Rightarrow> 'x snapshot" where
  "build_rebased_snapshot ck ws winner ts combined_caches our_bloom =
     (let span = s_version winner - bloom_since_version winner;
          (merged_bloom, since) =
            (if span < MAX_BLOOM_SPAN
             then ((case s_commit_bloom winner of
                      None \<Rightarrow> our_bloom | Some winner_bloom \<Rightarrow> bloom_merge our_bloom winner_bloom),
                   bloom_since_version winner)
             else (our_bloom, s_version winner))
      in \<lparr>s_version = s_version winner + 1, committed_ts = max (committed_ts winner) ts,
          s_caches = (if caches_has_changed combined_caches then combined_caches else s_caches winner),
          s_index = (\<lambda>r. case ck r of
             None \<Rightarrow> s_index winner r
           | Some cr \<Rightarrow> rebased_snapshot_index clone_for_commit cr (s_index winner r) (ws_of ws r)),
          s_commit_bloom = Some merged_bloom, bloom_since_version = since\<rparr>)"

section \<open>Publication planes\<close>

record cache_publication =
  cp_version :: nat
  cp_caches :: db_caches

record 'x snapshot_planes =
  root_state :: "'x snapshot"
  cache_pub :: cache_publication

definition snapshot_planes_new :: "'x snapshot \<Rightarrow> 'x snapshot_planes" where
  "snapshot_planes_new initial_root =
     \<lparr>root_state = initial_root,
      cache_pub = \<lparr>cp_version = s_version initial_root, cp_caches = s_caches initial_root\<rparr>\<rparr>"

definition load_root :: "'x snapshot_planes \<Rightarrow> 'x snapshot" where
  "load_root planes = root_state planes"

text \<open>The two loads of \<open>acquire_seed_caches\<close> are separate: the choice of the caches is a function of
  what they returned.\<close>

definition choose_seed_caches :: "'x snapshot \<Rightarrow> cache_publication \<Rightarrow> db_caches" where
  "choose_seed_caches snap pub = (if cp_version pub = s_version snap then cp_caches pub else s_caches snap)"

definition acquire_seed_caches :: "'x snapshot_planes \<Rightarrow> 'x snapshot \<times> db_caches" where
  "acquire_seed_caches planes =
     (root_state planes, choose_seed_caches (root_state planes) (cache_pub planes))"

text \<open>A read-only commit loads the root to decide, then stores.\<close>

definition read_only_publishes :: "'x snapshot \<Rightarrow> nat \<Rightarrow> db_caches \<Rightarrow> bool" where
  "read_only_publishes current_root version combined_caches \<longleftrightarrow>
     caches_has_changed combined_caches \<and> s_version current_root = version"

definition store_cache :: "'x snapshot_planes \<Rightarrow> nat \<Rightarrow> db_caches \<Rightarrow> 'x snapshot_planes" where
  "store_cache planes version combined_caches =
     planes\<lparr>cache_pub := \<lparr>cp_version = version, cp_caches = combined_caches\<rparr>\<rparr>"

definition publish_read_only_cache :: "'x snapshot_planes \<Rightarrow> nat \<Rightarrow> db_caches \<Rightarrow> 'x snapshot_planes" where
  "publish_read_only_cache planes version combined_caches =
     (if read_only_publishes (root_state planes) version combined_caches
      then store_cache planes version combined_caches else planes)"

definition try_publish_write_root ::
  "'x snapshot_planes \<Rightarrow> nat \<Rightarrow> 'x snapshot \<Rightarrow> 'x snapshot_planes \<times> bool" where
  "try_publish_write_root planes expected_version next_root =
     (if s_version (root_state planes) = expected_version
      then (\<lparr>root_state = next_root,
             cache_pub = \<lparr>cp_version = s_version next_root, cp_caches = s_caches next_root\<rparr>\<rparr>, True)
      else (planes, False))"

definition planes_mark_all_fully_loaded :: "'x snapshot_planes \<Rightarrow> 'x snapshot_planes" where
  "planes_mark_all_fully_loaded planes =
     planes\<lparr>root_state := snapshot_with_all_fully_loaded (root_state planes)\<rparr>"

section \<open>Sequences\<close>

definition SEQUENCE_COUNT :: nat where
  "SEQUENCE_COUNT = 15"

record sequence_state =
  seq_values :: "64 word list"
  seq_dirty :: "16 word"

definition sequences_new :: sequence_state where
  "sequences_new = \<lparr>seq_values = replicate SEQUENCE_COUNT (-1), seq_dirty = 0\<rparr>"

definition seq_set_initial :: "sequence_state \<Rightarrow> nat \<Rightarrow> 64 word \<Rightarrow> sequence_state" where
  "seq_set_initial s i v = s\<lparr>seq_values := (seq_values s)[i := v]\<rparr>"

definition seq_load :: "sequence_state \<Rightarrow> nat \<Rightarrow> 64 word" where
  "seq_load s i = seq_values s ! i"

definition seq_mark_dirty :: "sequence_state \<Rightarrow> nat \<Rightarrow> sequence_state" where
  "seq_mark_dirty s i = s\<lparr>seq_dirty := seq_dirty s OR push_bit i 1\<rparr>"

definition seq_increment :: "sequence_state \<Rightarrow> nat \<Rightarrow> sequence_state \<times> 64 word" where
  "seq_increment s i =
     (let v = seq_load s i + 1
      in (seq_mark_dirty (s\<lparr>seq_values := (seq_values s)[i := v]\<rparr>) i, v))"

text \<open>The loop of \<open>update_max\<close> ends with the round whose exchange succeeds; the value is signed.\<close>

definition seq_update_max :: "sequence_state \<Rightarrow> nat \<Rightarrow> 64 word \<Rightarrow> sequence_state \<times> 64 word" where
  "seq_update_max s i v =
     (let current = seq_load s i
      in if sint v \<le> sint current then (s, current)
         else (seq_mark_dirty (s\<lparr>seq_values := (seq_values s)[i := v]\<rparr>) i, current))"

definition seq_claim_dirty :: "sequence_state \<Rightarrow> sequence_state \<times> 16 word" where
  "seq_claim_dirty s = (s\<lparr>seq_dirty := 0\<rparr>, seq_dirty s)"

section \<open>The database\<close>

record 'x moor_db =
  db_monotonic :: nat
  db_relations :: "'x relations"
  db_planes :: "'x snapshot_planes"
  db_sequences :: sequence_state

definition tx_seed_of :: "timestamp \<Rightarrow> 'x snapshot \<Rightarrow> db_caches \<Rightarrow> 'x tx_seed" where
  "tx_seed_of n snap cs =
     \<lparr>seed_tx = \<lparr>tx_ts = n, tx_visible_ts = committed_ts snap, tx_snapshot_version = s_version snap\<rparr>,
      seed_snapshot = snap, seed_caches = cs\<rparr>"

definition acquire_tx_seed :: "'x moor_db \<Rightarrow> 'x moor_db \<times> 'x tx_seed" where
  "acquire_tx_seed db =
     (let (snap, cs) = acquire_seed_caches (db_planes db)
      in (db\<lparr>db_monotonic := db_monotonic db + 1\<rparr>,
          tx_seed_of (db_monotonic db) snap cs))"

definition start_transaction :: "'x moor_db \<Rightarrow> 'x moor_db \<times> 'x ws_transaction" where
  "start_transaction db =
     (let (db', seed) = acquire_tx_seed db in (db', relations_start_transaction (db_relations db) seed))"

definition mark_all_fully_loaded :: "'x moor_db \<Rightarrow> 'x moor_db" where
  "mark_all_fully_loaded db = db\<lparr>db_planes := planes_mark_all_fully_loaded (db_planes db)\<rparr>"

text \<open>
  Opening seeds every relation from its provider. \<open>saved\<close> is what the sequences partition holds, or
  \<open>None\<close> for a fresh database; decoding and the files are not modelled. The check of the timestamp
  addition for overflow is left out, timestamps being unbounded here.
\<close>

definition load_sequences :: "(nat \<Rightarrow> 64 word option) \<Rightarrow> sequence_state \<Rightarrow> sequence_state" where
  "load_sequences stored s =
     foldl (\<lambda>s i. seq_set_initial s i (case stored i of None \<Rightarrow> -1 | Some v \<Rightarrow> v)) s [0..<SEQUENCE_COUNT]"

definition try_open :: "'x relations \<Rightarrow> (nat \<Rightarrow> 64 word option) option \<Rightarrow> tx_error + 'x moor_db" where
  "try_open rels saved =
     rbind (relations_snapshot rels 0 0 caches_new) (\<lambda>initial_root.
       Inr \<lparr>db_monotonic = max (committed_ts initial_root + 1) 1, db_relations = rels,
            db_planes = snapshot_planes_new initial_root,
            db_sequences = (case saved of None \<Rightarrow> sequences_new
              | Some stored \<Rightarrow> load_sequences stored sequences_new)\<rparr>)"

section \<open>The states of a commit\<close>

record 'x commit_data =
  cd_working_sets :: "'x relation_working_sets"
  cd_checkers :: "'x relation_checkers"
  cd_caches :: db_caches
  cd_bloom :: commit_bloom
  cd_tx_timestamp :: timestamp

record 'x prepared_commit =
  pr_data :: "'x commit_data"
  pr_checked_root :: "'x snapshot"
  pr_candidate :: "'x snapshot"

record 'x rebase_required =
  rr_data :: "'x commit_data"
  rr_checked_root :: "'x snapshot"

record 'x published_commit =
  pb_working_sets :: "'x relation_working_sets"
  pb_publication_version :: nat
  pb_tx_timestamp :: timestamp

datatype world_state_error = DatabaseOverloaded nat | DatabaseError string

datatype prepare_error = PrepConflict conflict_info | PrepDatabase world_state_error

text \<open>What the batch writer answers to a request for admission: its queue is not modelled.\<close>

datatype commit_admission = Admitted | AdmissionTimeout nat | AdmissionUnavailable

datatype commit_result =
  CommitSuccess bool timestamp
| ConflictRetry "conflict_info option"

definition skip_conflict_check :: "nat \<Rightarrow> commit_bloom \<Rightarrow> 'x snapshot \<Rightarrow> bool" where
  "skip_conflict_check version tx_bloom current_root \<longleftrightarrow>
     version = s_version current_root
     \<or> version \<ge> bloom_since_version current_root
       \<and> (case s_commit_bloom current_root of
            None \<Rightarrow> False
          | Some snap_bloom \<Rightarrow> \<not> might_intersect tx_bloom snap_bloom)"

text \<open>
  \<open>prepare\<close> against the root it loads: first the checks, then the candidate. \<open>None\<close>: a missing
  checker (a panic) or an endless walk up the parents.
\<close>

definition prepare_check ::
  "db_key relation_domain \<Rightarrow> 'x relations \<Rightarrow> 'x snapshot \<Rightarrow> 'x working_sets
     \<Rightarrow> (conflict_info + 'x relation_checkers \<times> 'x relation_working_sets) option" where
  "prepare_check rd rels current_root wss =
     (let version = tx_snapshot_version (wss_tx wss);
          ws = fst (extract_relation_working_sets wss)
      in case (if version \<noteq> s_version current_root then check_property_policies rd ws current_root
               else Some (Inr ())) of
           None \<Rightarrow> None
         | Some (Inl info) \<Rightarrow> Some (Inl info)
         | Some (Inr _) \<Rightarrow>
             (let ws1 = clear_clobber_hints ws;
                  ck = begin_check_all rels current_root ws1
              in if skip_conflict_check version (wss_tx_bloom wss) current_root then Some (Inr (ck, ws1))
                 else case check_all ck ws1 of
                        None \<Rightarrow> None
                      | Some (_, _, Inl info) \<Rightarrow> Some (Inl info)
                      | Some (ck1, ws2, Inr _) \<Rightarrow> Some (Inr (ck1, ws2))))"

definition prepare ::
  "db_key hasher \<Rightarrow> db_key relation_domain \<Rightarrow> 'x relations \<Rightarrow> 'x snapshot \<Rightarrow> commit_admission
     \<Rightarrow> 'x working_sets \<Rightarrow> (prepare_error + 'x prepared_commit) option" where
  "prepare dh rd rels current_root admission wss =
     (let tx_timestamp = tx_ts (wss_tx wss); cs = snd (extract_relation_working_sets wss)
      in case prepare_check rd rels current_root wss of
           None \<Rightarrow> None
         | Some (Inl info) \<Rightarrow> Some (Inl (PrepConflict (enrich_conflict_info current_root info)))
         | Some (Inr (ck, ws)) \<Rightarrow>
             (case prepare_apply_all dh ck ws of
                None \<Rightarrow> None
              | Some (ck', bloom) \<Rightarrow>
                  (let next_root = build_snapshot ck' current_root tx_timestamp (caches_fork cs) bloom
                   in case admission of
                        AdmissionTimeout waited \<Rightarrow> Some (Inl (PrepDatabase (DatabaseOverloaded waited)))
                      | AdmissionUnavailable \<Rightarrow> Some (Inl (PrepDatabase (DatabaseError
                          ''Database commit queue admission is unavailable'')))
                      | Admitted \<Rightarrow>
                          Some (Inr \<lparr>pr_data = \<lparr>cd_working_sets = ws, cd_checkers = ck', cd_caches = cs,
                                       cd_bloom = bloom, cd_tx_timestamp = tx_timestamp\<rparr>,
                                     pr_checked_root = current_root, pr_candidate = next_root\<rparr>))))"

definition try_publish ::
  "'x snapshot_planes \<Rightarrow> 'x prepared_commit
     \<Rightarrow> 'x snapshot_planes \<times> ('x rebase_required + 'x published_commit)" where
  "try_publish planes pr =
     (case try_publish_write_root planes (s_version (pr_checked_root pr)) (pr_candidate pr) of
        (planes', True) \<Rightarrow>
          (planes', Inr \<lparr>pb_working_sets = cd_working_sets (pr_data pr),
             pb_publication_version = s_version (pr_candidate pr),
             pb_tx_timestamp = cd_tx_timestamp (pr_data pr)\<rparr>)
      | (planes', False) \<Rightarrow>
          (planes', Inl \<lparr>rr_data = pr_data pr, rr_checked_root = pr_checked_root pr\<rparr>))"

definition rebase ::
  "db_key hasher \<Rightarrow> db_key relation_domain \<Rightarrow> 'x snapshot \<Rightarrow> 'x rebase_required
     \<Rightarrow> (conflict_info + 'x prepared_commit) option" where
  "rebase dh rd winner rr =
     (let cd = rr_data rr
      in case rebase_check dh rd (cd_checkers cd) (cd_working_sets cd) (rr_checked_root rr) winner of
           None \<Rightarrow> None
         | Some (ActualOverlap info) \<Rightarrow> Some (Inl (enrich_conflict_info winner info))
         | Some _ \<Rightarrow>
             Some (Inr \<lparr>pr_data = cd, pr_checked_root = winner,
                        pr_candidate = build_rebased_snapshot (cd_checkers cd) (cd_working_sets cd) winner
                          (cd_tx_timestamp cd) (caches_fork (cd_caches cd)) (cd_bloom cd)\<rparr>))"

text \<open>
  The hand-over to the batch writer: the published operations and the sequences that were dirty
  when they were claimed, with their values. Encoding and the writer's queue are not modelled; a
  failure there is reported and does not change the result.
\<close>

record 'x write_batch =
  wb_version :: nat
  wb_timestamp :: timestamp
  wb_working_sets :: "'x relation_working_sets"
  wb_sequences :: "(nat \<times> 64 word) list"

definition claim_sequences :: "sequence_state \<Rightarrow> sequence_state \<times> (nat \<times> 64 word) list" where
  "claim_sequences seqs =
     (let (seqs', dirty_sequences) = seq_claim_dirty seqs
      in (seqs', map (\<lambda>i. (i, seq_load seqs' i))
           (filter (\<lambda>i. \<not> dirty_sequences AND push_bit i 1 = 0) [0..<SEQUENCE_COUNT])))"

definition enqueue_persistence ::
  "sequence_state \<Rightarrow> 'x published_commit \<Rightarrow> sequence_state \<times> 'x write_batch \<times> commit_result" where
  "enqueue_persistence seqs pb =
     (let (seqs', entries) = claim_sequences seqs
      in (seqs',
          \<lparr>wb_version = pb_publication_version pb, wb_timestamp = pb_tx_timestamp pb,
           wb_working_sets = pb_working_sets pb, wb_sequences = entries\<rparr>,
          CommitSuccess True (pb_tx_timestamp pb)))"

definition MAX_REBASE_ATTEMPTS :: nat where
  "MAX_REBASE_ATTEMPTS = 16"

section \<open>Checking and building\<close>

subsection \<open>The check of all relations\<close>

definition all_loaded :: "'x snapshot \<Rightarrow> bool" where
  "all_loaded root \<longleftrightarrow>
     (\<forall>r. idx_ok (s_index root r) \<and> idx_is_provider_fully_loaded (s_index root r))"

definition ws_wf :: "'x relation_working_sets \<Rightarrow> bool" where
  "ws_wf ws \<longleftrightarrow> (\<forall>r. hm_ok (tuples (ws_of ws r)) \<and> ops_timely (tuples (ws_of ws r)))"

text \<open>A checker for each relation that was written, on an index of the root.\<close>

definition ck_fits :: "'x relation_checkers \<Rightarrow> 'x snapshot \<Rightarrow> 'x relation_working_sets \<Rightarrow> bool" where
  "ck_fits ck root ws \<longleftrightarrow> (\<forall>r. case ck r of
       None \<Rightarrow> ws_is_empty (ws_of ws r)
     | Some cr \<Rightarrow> \<not> ws_is_empty (ws_of ws r) \<and> cr_index cr = s_index root r)"

definition passes ::
  "'x snapshot \<Rightarrow> 'x relation_working_sets \<Rightarrow> database_relation \<Rightarrow> bool" where
  "passes root ws r \<longleftrightarrow>
     (\<forall>k x. map_of (tuples (ws_of ws r)) k = Some x \<longrightarrow> \<not> guaranteed_unique x \<longrightarrow> \<not> can_clobber ws r k \<longrightarrow>
        conflict_of (map_option (\<lambda>e. (ets e, evalue e)) (idx_lookup (s_index root r) k)) x = None)"

lemma ALL_RELATIONS_all: "r \<in> set ALL_RELATIONS"
  by (cases r) (simp_all add: ALL_RELATIONS_def)

lemma ALL_RELATIONS_distinct: "distinct ALL_RELATIONS"
  by (simp add: ALL_RELATIONS_def)

lemma begin_check_all_fits: "ck_fits (begin_check_all rels root ws) root ws"
  by (simp add: ck_fits_def begin_check_all_def begin_check_from_index_def)

lemma check_op_loaded:
  "idx_is_provider_fully_loaded (cr_index cr) \<Longrightarrow> fst (check_op cr base R d x) = cr"
  by (simp add: check_op_def split: option.split)

lemma check_loop_loaded:
  "idx_is_provider_fully_loaded (cr_index cr) \<Longrightarrow> fst (check_loop cr base R m) = cr"
proof (induction m)
  case (Cons y m)
  obtain d x where "y = (d, x)" by fastforce
  with Cons check_op_loaded [of cr base R d x] show ?case
    by (auto split: prod.split sum.split)
qed simp

lemma check_relation_ws_loaded:
  assumes "idx_is_provider_fully_loaded (cr_index cr)"
  shows "cr_index (fst (check_relation_ws r cr ws)) = cr_index cr"
proof -
  have "fst (check_with_resolver cr w R) = cr\<lparr>cr_dirty := \<not> ws_is_empty w\<rparr>" for w R
    using check_loop_loaded [of "cr\<lparr>cr_dirty := \<not> ws_is_empty w\<rparr>" "base_index w" R "tuples w"] assms
    by (auto simp: check_with_resolver_def split: prod.split sum.split)
  then show ?thesis by (simp add: check_relation_ws_def check_def)
qed

lemma check_spec_clobber:
  assumes "check_spec cr base (clobber_resolver flags) d x = Inr x'"
  shows "x' = x \<and> (no_conflict cr d x \<or> property_can_clobber flags d)"
  using assms
  by (auto simp: check_spec_def no_conflict_def resolve_op_def clobber_resolver_def rbind_Inr_iff
      make_potential_conflict_def split: if_splits option.splits)

lemma check_relation_ws_ok:
  assumes "hm_ok (tuples (ws_of ws r))" and "ops_timely (tuples (ws_of ws r))"
    and "snd (check_relation_ws r cr ws) = Inr w"
  shows "w = ws_of ws r"
    and "\<And>k x. map_of (tuples (ws_of ws r)) k = Some x \<Longrightarrow> no_conflict cr k x \<or> can_clobber ws r k"
proof -
  define R where "R = (if r = ObjectPropvalues then clobber_resolver (ws_of ws ObjectPropflags)
    else fail_on_conflict)"
  have "snd (check_with_resolver cr (ws_of ws r) R) = Inr w"
    using assms(3) by (simp add: check_relation_ws_def check_def R_def split: if_splits)
  then obtain m where m: "traverse_ops (check_spec cr (base_index (ws_of ws r)) R) (tuples (ws_of ws r)) = Inr m"
    and w: "w = (ws_of ws r)\<lparr>tuples := m\<rparr>"
    by (auto simp: check_with_resolver_result [OF assms(2)] rbind_Inr_iff)
  have op: "x' = x \<and> (no_conflict cr k x \<or> can_clobber ws r k)"
    if "check_spec cr (base_index (ws_of ws r)) R k x = Inr x'" for k x x'
    using that by (auto simp: R_def can_clobber_def check_spec_fail dest: check_spec_clobber split: if_splits)
  show "no_conflict cr k x \<or> can_clobber ws r k" if "map_of (tuples (ws_of ws r)) k = Some x" for k x
    using traverse_ops_lookup [OF m, of k] that op by auto
  have "\<exists>x'. check_spec cr (base_index (ws_of ws r)) R k x = Inr x'"
    if "(k, x) \<in> set (tuples (ws_of ws r))" for k x
    using traverse_ops_succeeds [of "check_spec cr (base_index (ws_of ws r)) R" "tuples (ws_of ws r)"] m that
    by blast
  then have "traverse_ops (check_spec cr (base_index (ws_of ws r)) R) (tuples (ws_of ws r)) =
      Inr (tuples (ws_of ws r))"
    by (intro traverse_ops_ok) (metis op)
  then show "w = ws_of ws r" using m w by simp
qed

lemma ck_fits_update:
  "ck_fits ck root ws \<Longrightarrow> ck r = Some cr \<Longrightarrow> cr_index cr' = cr_index cr \<Longrightarrow> ck_fits (ck(r \<mapsto> cr')) root ws"
  by (auto simp: ck_fits_def split: option.splits)

lemma no_conflict_loaded:
  assumes "idx_is_provider_fully_loaded (cr_index cr)" and "no_conflict cr k x" and "\<not> guaranteed_unique x"
  shows "conflict_of (map_option (\<lambda>e. (ets e, evalue e)) (idx_lookup (cr_index cr) k)) x = None"
  using assms by (auto simp: no_conflict_def cr_state_def split: option.splits)

lemma check_all_from_ok:
  assumes "all_loaded root" and "ws_wf ws" and "ck_fits ck root ws"
  shows "\<exists>ck' ws' res. check_all_from rs ck ws = Some (ck', ws', res)
    \<and> (res = Inr () \<longrightarrow> ws' = ws \<and> ck_fits ck' root ws \<and> (\<forall>r \<in> set rs. passes root ws r))"
  using assms(3)
proof (induction rs arbitrary: ck)
  case (Cons r rs)
  show ?case
  proof (cases "ck r")
    case None
    then have empty: "ws_is_empty (ws_of ws r)"
      using Cons.prems by (auto simp: ck_fits_def dest: spec [of _ r])
    then have "passes root ws r" by (simp add: passes_def ws_is_empty_def)
    then show ?thesis using Cons empty by simp
  next
    case (Some cr)
    then have fits: "\<not> ws_is_empty (ws_of ws r)" "cr_index cr = s_index root r"
      using Cons.prems by (auto simp: ck_fits_def dest: spec [of _ r])
    then have loaded: "idx_is_provider_fully_loaded (cr_index cr)"
      using assms(1) by (simp add: all_loaded_def)
    have wf: "hm_ok (tuples (ws_of ws r))" "ops_timely (tuples (ws_of ws r))"
      using assms(2) by (simp_all add: ws_wf_def)
    obtain cr' out where run: "check_relation_ws r cr ws = (cr', out)" by fastforce
    show ?thesis
    proof (cases out)
      case (Inl e)
      then show ?thesis using run Some fits by simp
    next
      case (Inr w)
      have w: "w = ws_of ws r" and
        nc: "\<And>k x. map_of (tuples (ws_of ws r)) k = Some x \<Longrightarrow> no_conflict cr k x \<or> can_clobber ws r k"
        using check_relation_ws_ok [OF wf, of cr w] run Inr by auto
      have "passes root ws r"
        using nc no_conflict_loaded [OF loaded] unfolding passes_def fits(2) by blast
      moreover have "ck_fits (ck(r \<mapsto> cr')) root ws"
        using ck_fits_update [OF Cons.prems Some] check_relation_ws_loaded [OF loaded, of r ws] run by simp
      moreover have "check_all_from (r # rs) ck ws = check_all_from rs (ck(r \<mapsto> cr')) ws"
        using run Inr Some fits w by simp
      ultimately show ?thesis using Cons.IH by auto
    qed
  qed
qed simp

lemma check_all_ok:
  assumes "all_loaded root" and "ws_wf ws" and "ck_fits ck root ws"
  obtains ck' ws' res where "check_all ck ws = Some (ck', ws', res)"
    and "res = Inr () \<Longrightarrow> ws' = ws \<and> ck_fits ck' root ws \<and> (\<forall>r. passes root ws r)"
  using check_all_from_ok [OF assms, of ALL_RELATIONS] ALL_RELATIONS_all unfolding check_all_def by blast

lemma check_all_passed:
  assumes "all_loaded root" and "ws_wf ws" and "ck_fits ck root ws"
    and "check_all ck ws = Some (ck', ws', Inr ())"
  shows "ws' = ws \<and> ck_fits ck' root ws \<and> (\<forall>r. passes root ws r)"
  by (rule check_all_ok [OF assms(1-3)]) (use assms(4) in simp)

subsection \<open>The snapshot that is built\<close>

definition written_keys :: "'x relation_working_sets \<Rightarrow> db_key set" where
  "written_keys ws = (\<Union>r. set (hm_keys (tuples (ws_of ws r))))"

text \<open>The checkers after the indexes are prepared: marked as changed.\<close>

definition ck_ready :: "'x relation_checkers \<Rightarrow> 'x relation_working_sets \<Rightarrow> bool" where
  "ck_ready ck ws \<longleftrightarrow> (\<forall>r. case ck r of
       None \<Rightarrow> ws_is_empty (ws_of ws r)
     | Some cr \<Rightarrow> cr_dirty cr)"

definition ck_prepared :: "'x relation_checkers \<Rightarrow> 'x snapshot \<Rightarrow> 'x relation_working_sets \<Rightarrow> database_relation \<Rightarrow> bool" where
  "ck_prepared ck root ws r \<longleftrightarrow> (case ck r of
       None \<Rightarrow> ws_is_empty (ws_of ws r)
     | Some cr \<Rightarrow> cr_dirty cr
         \<and> cr_index cr = prepared_index clone_for_commit (s_index root r) (ws_of ws r))"

text \<open>
  What a candidate is, however it was built: the working sets laid over the root, one version
  later. The Bloom filter is that of the commit, alone or merged with the filter of the root; \<open>None\<close>
  in place of the filter of the root counts as covering from \<open>bloom_since_version\<close>.
\<close>

definition built ::
  "'x relation_working_sets \<Rightarrow> 'x snapshot \<Rightarrow> timestamp \<Rightarrow> commit_bloom \<Rightarrow> 'x snapshot \<Rightarrow> bool" where
  "built ws root n b cand \<longleftrightarrow>
     s_version cand = s_version root + 1 \<and> committed_ts cand = max (committed_ts root) n
     \<and> s_caches cand = s_caches root \<and> all_loaded cand
     \<and> (\<forall>r. idx_is_secondary (s_index cand r) = idx_is_secondary (s_index root r))
     \<and> (\<forall>r. idx_lookup (s_index cand r) =
          overlay clone_for_commit (tuples (ws_of ws r)) (idx_lookup (s_index root r)))
     \<and> (s_commit_bloom cand = Some b \<and> bloom_since_version cand = s_version root
        \<or> (\<exists>p. s_commit_bloom root = Some p \<and> s_commit_bloom cand = Some (bloom_merge b p)
             \<and> bloom_since_version cand = bloom_since_version root)
        \<or> s_commit_bloom root = None \<and> s_commit_bloom cand = Some b
             \<and> bloom_since_version cand = bloom_since_version root)"

lemma caches_fork_unchanged [simp]: "\<not> caches_has_changed (caches_fork cs)"
  by (simp add: caches_fork_def caches_has_changed_def vc_fork_def vc_has_changed_def pc_fork_def
      pc_has_changed_def ac_fork_def ac_has_changed_def)

lemma prepare_apply_from_ok:
  assumes "distinct rs" and "\<And>r. r \<in> set rs \<Longrightarrow> case ck r of
       None \<Rightarrow> ws_is_empty (ws_of ws r)
     | Some cr \<Rightarrow> \<not> ws_is_empty (ws_of ws r) \<and> cr_index cr = s_index root r"
  shows "\<exists>ck'. prepare_apply_from dh rs ck ws b = Some (ck', bloom_insert_keys dh (ws_of ws) rs b)
    \<and> (\<forall>r. if r \<in> set rs then ck_prepared ck' root ws r else ck' r = ck r)"
  using assms
proof (induction rs arbitrary: ck b)
  case (Cons r rs)
  have rest: "r \<notin> set rs" "distinct rs" using Cons.prems(1) by simp_all
  show ?case
  proof (cases "ck r")
    case None
    then have empty: "ws_is_empty (ws_of ws r)"
      using Cons.prems(2) [of r] by simp
    then have keys: "hm_keys (tuples (ws_of ws r)) = []" by (simp add: ws_is_empty_def)
    obtain ck' where ck': "prepare_apply_from dh rs ck ws b = Some (ck', bloom_insert_keys dh (ws_of ws) rs b)"
      and inv: "\<And>q. if q \<in> set rs then ck_prepared ck' root ws q else ck' q = ck q"
      using Cons.IH [OF rest(2), of ck b] Cons.prems(2) by (metis list.set_intros(2))
    have "ck_prepared ck' root ws r"
      using inv [of r] rest(1) None empty by (simp add: ck_prepared_def)
    with ck' inv keys empty show ?thesis
      by (auto simp: bloom_insert_keys_def)
  next
    case (Some cr)
    then have fits: "\<not> ws_is_empty (ws_of ws r)" "cr_index cr = s_index root r"
      using Cons.prems(2) [of r] by simp_all
    let ?cr = "prepare_indexes clone_for_commit cr (ws_of ws r)"
    let ?b = "foldl (bloom_insert dh) b (hm_keys (tuples (ws_of ws r)))"
    have "case (ck(r \<mapsto> ?cr)) q of None \<Rightarrow> ws_is_empty (ws_of ws q)
        | Some cr \<Rightarrow> \<not> ws_is_empty (ws_of ws q) \<and> cr_index cr = s_index root q" if "q \<in> set rs" for q
      using Cons.prems(2) [of q] that rest(1) by (auto split: option.splits)
    from Cons.IH [OF rest(2), of "ck(r \<mapsto> ?cr)" ?b] this
    obtain ck' where ck': "prepare_apply_from dh rs (ck(r \<mapsto> ?cr)) ws ?b =
          Some (ck', bloom_insert_keys dh (ws_of ws) rs ?b)"
      and inv: "\<And>q. if q \<in> set rs then ck_prepared ck' root ws q else ck' q = (ck(r \<mapsto> ?cr)) q"
      by blast
    have "ck_prepared ck' root ws r"
      using inv [of r] rest(1) fits by (simp add: ck_prepared_def prepare_indexes_eq)
    with ck' inv fits Some show ?thesis
      by (auto simp: bloom_insert_keys_def)
  qed
qed (simp add: bloom_insert_keys_def)

lemma prepare_apply_all_ok:
  assumes "ck_fits ck root ws"
  obtains ck' where "prepare_apply_all dh ck ws = Some (ck', bloom_insert_keys dh (ws_of ws) ALL_RELATIONS bloom_new)"
    and "\<And>r. ck_prepared ck' root ws r"
  using prepare_apply_from_ok [OF ALL_RELATIONS_distinct, where ck = ck and ws = ws and root = root and dh = dh
    and b = bloom_new] assms ALL_RELATIONS_all
  unfolding prepare_apply_all_def ck_fits_def by auto

lemma bloom_insert_keys_covers:
  assumes "bloom.covers dh b K"
  shows "bloom.covers dh (bloom_insert_keys dh ws rs b) (K \<union> (\<Union>r \<in> set rs. set (hm_keys (tuples (ws r)))))"
  using assms
proof (induction rs arbitrary: b K)
  case (Cons r rs)
  from Cons.IH [OF bloom.covers_foldl [OF Cons.prems, of "hm_keys (tuples (ws r))"]]
  show ?case by (simp add: bloom_insert_keys_def Un_assoc)
qed (simp add: bloom_insert_keys_def)

lemma commit_bloom_covers:
  "bloom.covers dh (bloom_insert_keys dh (ws_of ws) ALL_RELATIONS bloom_new) (written_keys ws)"
  using bloom_insert_keys_covers [OF bloom.covers_empty, of dh "ws_of ws" ALL_RELATIONS] ALL_RELATIONS_all
  by (auto elim!: bloom.covers_mono simp: written_keys_def)

lemma build_snapshot_built:
  assumes "all_loaded root" and "ws_wf ws" and "\<And>r. ck_prepared ck root ws r"
  shows "built ws root n b (build_snapshot ck root n (caches_fork cs) b)"
proof -
  let ?s = "build_snapshot ck root n (caches_fork cs) b"
  have index: "s_index ?s r = (if ws_is_empty (ws_of ws r) \<and> ck r = None then s_index root r
      else prepared_index clone_for_commit (s_index root r) (ws_of ws r))" for r
    using assms(3) [of r]
    by (auto simp: build_snapshot_def ck_prepared_def snapshot_index_or_def split: option.splits prod.splits)
  have wf: "hm_ok (tuples (ws_of ws r))" for r
    using assms(2) by (simp add: ws_wf_def)
  have "idx_ok (s_index ?s r)" "idx_is_provider_fully_loaded (s_index ?s r)" for r
    using assms(1) wf [of r] by (simp_all add: index all_loaded_def prep.build_ok prep.build_loaded)
  moreover have "idx_is_secondary (s_index ?s r) = idx_is_secondary (s_index root r)" for r
    by (simp add: index)
  moreover have "idx_lookup (s_index ?s r) =
      overlay clone_for_commit (tuples (ws_of ws r)) (idx_lookup (s_index root r))" for r
    by (simp add: index prep.build_lookup [OF wf] ws_is_empty_def)
  ultimately show ?thesis
    unfolding built_def all_loaded_def
    by (auto simp: build_snapshot_def split: option.split)
qed

lemma build_rebased_built:
  assumes "all_loaded root" and "ws_wf ws" and "ck_ready ck ws"
  shows "built ws root n b (build_rebased_snapshot ck ws root n (caches_fork cs) b)"
proof -
  let ?s = "build_rebased_snapshot ck ws root n (caches_fork cs) b"
  have index: "s_index ?s r = (if ck r = None then s_index root r
      else rebased_index clone_for_commit (s_index root r) (ws_of ws r))" for r
    using assms(3)
    by (auto simp: build_rebased_snapshot_def ck_ready_def rebased_snapshot_index_eq Let_def
        dest: spec [of _ r] split: option.splits prod.splits)
  have wf: "hm_ok (tuples (ws_of ws r))" for r
    using assms(2) by (simp add: ws_wf_def)
  have "idx_ok (s_index ?s r)" "idx_is_provider_fully_loaded (s_index ?s r)" for r
    using assms(1) wf [of r] by (simp_all add: index all_loaded_def reb.build_ok reb.build_loaded)
  moreover have "idx_is_secondary (s_index ?s r) = idx_is_secondary (s_index root r)" for r
    by (simp add: index)
  moreover have "idx_lookup (s_index ?s r) =
      overlay clone_for_commit (tuples (ws_of ws r)) (idx_lookup (s_index root r))" for r
    using assms(3)
    by (auto simp: index reb.build_lookup [OF wf] ws_is_empty_def ck_ready_def dest: spec [of _ r])
  ultimately show ?thesis
    unfolding built_def all_loaded_def
    by (auto simp: build_rebased_snapshot_def Let_def split: option.split)
qed

subsection \<open>Preparation\<close>

lemma ws_wf_clear_clobber_hints: "ws_wf ws \<Longrightarrow> ws_wf (clear_clobber_hints ws)"
  by (auto simp: ws_wf_def ops_timely_def clear_clobber_hints_def Let_def case_prod_unfold comp_def)

lemma can_clobber_clear [simp]: "can_clobber (clear_clobber_hints ws) = can_clobber ws"
  by (simp add: can_clobber_def fun_eq_iff)

lemma written_keys_clear [simp]: "written_keys (clear_clobber_hints ws) = written_keys ws"
  by (simp add: written_keys_def)

lemma ck_prepared_ready: "(\<And>r. ck_prepared ck root ws r) \<Longrightarrow> ck_ready ck ws"
  unfolding ck_prepared_def ck_ready_def by (metis (no_types, lifting) option.case_eq_if)

text \<open>What holds of the data of a commit from its preparation on.\<close>

definition cd_ok :: "db_key hasher \<Rightarrow> 'x commit_data \<Rightarrow> bool" where
  "cd_ok dh cd \<longleftrightarrow> ws_wf (cd_working_sets cd) \<and> ck_ready (cd_checkers cd) (cd_working_sets cd)
     \<and> bloom.covers dh (cd_bloom cd) (written_keys (cd_working_sets cd))"

definition pr_ok :: "db_key hasher \<Rightarrow> 'x prepared_commit \<Rightarrow> bool" where
  "pr_ok dh pr \<longleftrightarrow> cd_ok dh (pr_data pr)
     \<and> built (cd_working_sets (pr_data pr)) (pr_checked_root pr) (cd_tx_timestamp (pr_data pr))
         (cd_bloom (pr_data pr)) (pr_candidate pr)"

lemma prepare_check_ok:
  assumes "all_loaded root" and "ws_wf (wss_relations wss)"
    and "prepare_check rd rels root wss = Some (Inr (ck, ws))"
  shows "ws = clear_clobber_hints (wss_relations wss)" and "ck_fits ck root ws"
    and "skip_conflict_check (tx_snapshot_version (wss_tx wss)) (wss_tx_bloom wss) root
      \<or> (\<forall>r. passes root ws r)"
proof -
  let ?ws = "clear_clobber_hints (wss_relations wss)"
  let ?skip = "skip_conflict_check (tx_snapshot_version (wss_tx wss)) (wss_tx_bloom wss) root"
  note fits = begin_check_all_fits [of rels root ?ws]
  have "ws = ?ws \<and> ck_fits ck root ws \<and> (?skip \<or> (\<forall>r. passes root ws r))"
  proof (cases ?skip)
    case True
    then show ?thesis
      using assms(3) fits by (simp add: prepare_check_def extract_relation_working_sets_def Let_def
          split: option.splits sum.splits if_splits)
  next
    case False
    then have "check_all (begin_check_all rels root ?ws) ?ws = Some (ck, ws, Inr ())"
      using assms(3) by (simp add: prepare_check_def extract_relation_working_sets_def Let_def
          split: option.splits sum.splits prod.splits if_splits)
    from check_all_passed [OF assms(1) ws_wf_clear_clobber_hints [OF assms(2)] fits this]
    show ?thesis by simp
  qed
  then show "ws = ?ws" "ck_fits ck root ws" "?skip \<or> (\<forall>r. passes root ws r)" by blast+
qed

lemma prepare_check_total:
  assumes "all_loaded root" and "ws_wf (wss_relations wss)"
    and "tx_snapshot_version (wss_tx wss) \<noteq> s_version root \<Longrightarrow>
      \<exists>res. check_property_policies rd (wss_relations wss) root = Some res"
  shows "\<exists>res. prepare_check rd rels root wss = Some res"
proof -
  let ?ws = "clear_clobber_hints (wss_relations wss)"
  obtain ck1 ws2 res where res: "check_all (begin_check_all rels root ?ws) ?ws = Some (ck1, ws2, res)"
    by (rule check_all_ok [OF assms(1) ws_wf_clear_clobber_hints [OF assms(2)] begin_check_all_fits [of rels]])
  obtain pol where pol: "(if tx_snapshot_version (wss_tx wss) \<noteq> s_version root
      then check_property_policies rd (wss_relations wss) root else Some (Inr ())) = Some pol"
    using assms(3) by (cases "tx_snapshot_version (wss_tx wss) = s_version root") (simp, metis)
  show ?thesis
    unfolding prepare_check_def extract_relation_working_sets_def Let_def fst_conv pol
    by (cases pol; cases res) (simp_all add: res)
qed

lemma prepare_total:
  assumes "all_loaded root" and "ws_wf (wss_relations wss)"
    and "tx_snapshot_version (wss_tx wss) \<noteq> s_version root \<Longrightarrow>
      \<exists>res. check_property_policies rd (wss_relations wss) root = Some res"
  shows "\<exists>res. prepare dh rd rels root adm wss = Some res"
proof -
  obtain res where res: "prepare_check rd rels root wss = Some res"
    using prepare_check_total [OF assms] by blast
  show ?thesis
  proof (cases res)
    case (Inr y)
    obtain ck ws where y: "y = (ck, ws)" by fastforce
    then obtain z where "prepare_apply_all dh ck ws = Some z"
      using prepare_check_ok(2) [OF assms(1,2)] prepare_apply_all_ok res Inr by blast
    then show ?thesis
      using res Inr y by (simp add: prepare_def Let_def split: prod.split commit_admission.split)
  qed (simp add: prepare_def res)
qed

lemma prepare_prepared:
  assumes "all_loaded root" and "ws_wf (wss_relations wss)"
    and "prepare dh rd rels root adm wss = Some (Inr pr)"
  shows "pr_ok dh pr" and "pr_checked_root pr = root"
    and "cd_working_sets (pr_data pr) = clear_clobber_hints (wss_relations wss)"
    and "cd_tx_timestamp (pr_data pr) = tx_ts (wss_tx wss)"
    and "skip_conflict_check (tx_snapshot_version (wss_tx wss)) (wss_tx_bloom wss) root
      \<or> (\<forall>r. passes root (clear_clobber_hints (wss_relations wss)) r)"
proof -
  let ?ws = "clear_clobber_hints (wss_relations wss)"
  note wf = ws_wf_clear_clobber_hints [OF assms(2)]
  obtain ck1 ws2 ck2 b where ck1: "prepare_check rd rels root wss = Some (Inr (ck1, ws2))"
    and ck2: "prepare_apply_all dh ck1 ws2 = Some (ck2, b)"
    and pr: "pr = \<lparr>pr_data = \<lparr>cd_working_sets = ws2, cd_checkers = ck2, cd_caches = wss_caches wss,
        cd_bloom = b, cd_tx_timestamp = tx_ts (wss_tx wss)\<rparr>, pr_checked_root = root,
        pr_candidate = build_snapshot ck2 root (tx_ts (wss_tx wss)) (caches_fork (wss_caches wss)) b\<rparr>"
    using assms(3) by (auto simp: prepare_def extract_relation_working_sets_def Let_def
        split: option.splits sum.splits commit_admission.splits prod.splits)
  note checked = prepare_check_ok [OF assms(1,2) ck1]
  obtain "b = bloom_insert_keys dh (ws_of ?ws) ALL_RELATIONS bloom_new"
      and prep: "\<And>r. ck_prepared ck2 root ?ws r"
    using prepare_apply_all_ok [OF checked(2), of dh] ck2 checked(1) by fastforce
  then show "pr_ok dh pr"
    using checked(1) wf commit_bloom_covers [of dh ?ws] build_snapshot_built [OF assms(1) wf prep]
      ck_prepared_ready [OF prep]
    by (simp add: pr_ok_def cd_ok_def pr)
  show "pr_checked_root pr = root" "cd_working_sets (pr_data pr) = ?ws"
    "cd_tx_timestamp (pr_data pr) = tx_ts (wss_tx wss)"
    "skip_conflict_check (tx_snapshot_version (wss_tx wss)) (wss_tx_bloom wss) root \<or> (\<forall>r. passes root ?ws r)"
    using checked by (simp_all add: pr)
qed

subsection \<open>Rebasing\<close>

lemma overlap_in_keys_ok:
  assumes "ck r = None \<Longrightarrow> keys = []"
  shows "\<exists>res. overlap_in_keys ck ws checked winner r keys = Some res \<and> (res = None \<longrightarrow>
    (\<forall>k \<in> set keys. can_clobber ws r k \<or> relation_key_unchanged (s_index checked r) (s_index winner r) k))"
proof (cases "ck r")
  case (Some cr)
  then show ?thesis by (induction keys) auto
qed (use assms in simp)

lemma overlap_in_relations_ok:
  assumes "ck_ready ck ws"
  shows "\<exists>res. overlap_in_relations ck ws checked winner rs = Some res \<and> (res = None \<longrightarrow>
    (\<forall>r \<in> set rs. \<forall>k \<in> set (hm_keys (tuples (ws_of ws r))).
       can_clobber ws r k \<or> relation_key_unchanged (s_index checked r) (s_index winner r) k))"
proof (induction rs)
  case (Cons r rs)
  have "ck r = None \<Longrightarrow> hm_keys (tuples (ws_of ws r)) = []"
    using assms by (auto simp: ck_ready_def ws_is_empty_def dest: spec [of _ r])
  from overlap_in_keys_ok [where ck = ck and r = r and ws = ws and checked = checked and winner = winner, OF this]
  obtain res where "overlap_in_keys ck ws checked winner r (hm_keys (tuples (ws_of ws r))) = Some res"
    and "res = None \<longrightarrow> (\<forall>k \<in> set (hm_keys (tuples (ws_of ws r))). can_clobber ws r k
      \<or> relation_key_unchanged (s_index checked r) (s_index winner r) k)"
    by blast
  with Cons show ?case by (cases res) auto
qed simp

lemma rebase_total:
  assumes "cd_ok dh (rr_data rr)"
    and "\<exists>res. check_property_policies rd (cd_working_sets (rr_data rr)) winner = Some res"
  shows "\<exists>res. rebase dh rd winner rr = Some res"
proof -
  from assms(2) obtain res where "check_property_policies rd (cd_working_sets (rr_data rr)) winner = Some res"
    by blast
  moreover obtain res' where "overlap_in_relations (cd_checkers (rr_data rr)) (cd_working_sets (rr_data rr))
      (rr_checked_root rr) winner ALL_RELATIONS = Some res'"
    using overlap_in_relations_ok assms(1) by (fastforce simp: cd_ok_def)
  ultimately show ?thesis
    by (cases res; cases res') (simp_all add: rebase_def rebase_check_def Let_def)
qed

lemma rebase_prepared:
  assumes "all_loaded winner" and "cd_ok dh (rr_data rr)" and "rebase dh rd winner rr = Some (Inr pr)"
  shows "pr_ok dh pr" and "pr_checked_root pr = winner" and "pr_data pr = rr_data rr"
    and "bloom_proves_disjoint dh (cd_working_sets (rr_data rr)) (rr_checked_root rr) winner
      \<or> (\<forall>r. \<forall>k \<in> set (hm_keys (tuples (ws_of (cd_working_sets (rr_data rr)) r))).
           can_clobber (cd_working_sets (rr_data rr)) r k
           \<or> relation_key_unchanged (s_index (rr_checked_root rr) r) (s_index winner r) k)"
proof -
  let ?cd = "rr_data rr"
  let ?ws = "cd_working_sets ?cd"
  have pr: "pr = \<lparr>pr_data = ?cd, pr_checked_root = winner, pr_candidate =
      build_rebased_snapshot (cd_checkers ?cd) ?ws winner (cd_tx_timestamp ?cd) (caches_fork (cd_caches ?cd)) (cd_bloom ?cd)\<rparr>"
    using assms(3) by (auto simp: rebase_def Let_def split: option.splits rebase_check_result.splits)
  then show "pr_checked_root pr = winner" "pr_data pr = ?cd" by simp_all
  show "pr_ok dh pr"
    using assms(2) build_rebased_built [OF assms(1)] by (simp add: pr_ok_def pr cd_ok_def)
  have "rebase_check dh rd (cd_checkers ?cd) ?ws (rr_checked_root rr) winner \<in> {Some BloomDisjoint, Some ExactlyDisjoint}"
    using assms(3) by (auto simp: rebase_def Let_def split: option.splits rebase_check_result.splits)
  then have "bloom_proves_disjoint dh ?ws (rr_checked_root rr) winner \<or>
      overlap_in_relations (cd_checkers ?cd) ?ws (rr_checked_root rr) winner ALL_RELATIONS = Some None"
    by (auto simp: rebase_check_def split: option.splits sum.splits if_splits)
  then show "bloom_proves_disjoint dh ?ws (rr_checked_root rr) winner
      \<or> (\<forall>r. \<forall>k \<in> set (hm_keys (tuples (ws_of ?ws r))). can_clobber ?ws r k
           \<or> relation_key_unchanged (s_index (rr_checked_root rr) r) (s_index winner r) k)"
    using overlap_in_relations_ok [of "cd_checkers ?cd" ?ws "rr_checked_root rr" winner ALL_RELATIONS]
      assms(2) ALL_RELATIONS_all unfolding cd_ok_def by (metis option.inject)
qed

end
