(* ===== verification/Isolation.thy ===== *)
theory Isolation
  imports Commit
begin

text \<open>
  Concurrent transactions: any number of threads begin transactions, work on them and commit, with
  their accesses to the shared state (root, cache publication, timestamp counter, sequences)
  interleaved in any order. A step of a thread is one atomic access together with the local
  computation around it, as \<open>MoorDB::acquire_tx_seed\<close> (\<^verbatim>\<open>db/src/engine/moor_db.rs\<close>) and
  \<open>MoorDB::commit_writes\<close> (\<^verbatim>\<open>db/src/engine/moor_db/commit_pipeline.rs\<close>) order them.

  Two components of the system's state are for reasoning only: the roots that were published, and
  for each publication the snapshot version the transaction started from with its working sets.
\<close>

section \<open>Threads\<close>

datatype 'x thread =
  Idle
| LoadedRoot "'x snapshot"
| LoadedCaches "'x snapshot" db_caches
| Running "'x ws_transaction"
| StoringCache tx db_caches
| Publishing tx nat "'x prepared_commit"
| Rebasing tx nat "'x rebase_required"
| Persisting "'x published_commit"
| Finished "world_state_error + commit_result"

definition read_only_success :: "tx \<Rightarrow> world_state_error + commit_result" where
  "read_only_success tx = Inr (CommitSuccess False (tx_ts tx))"

definition commit_read_only :: "'x snapshot \<Rightarrow> 'x ws_transaction \<Rightarrow> 'x thread" where
  "commit_read_only current_root t =
     (if read_only_publishes current_root (tx_snapshot_version (wt_tx t)) (wt_caches t)
      then StoringCache (wt_tx t) (wt_caches t) else Finished (read_only_success (wt_tx t)))"

definition after_prepare :: "tx \<Rightarrow> prepare_error + 'x prepared_commit \<Rightarrow> 'x thread" where
  "after_prepare tx res =
     (case res of
        Inr prepared \<Rightarrow> Publishing tx 0 prepared
      | Inl (PrepConflict info) \<Rightarrow> Finished (Inr (ConflictRetry (Some info)))
      | Inl (PrepDatabase error) \<Rightarrow> Finished (Inl error))"

definition after_publish :: "tx \<Rightarrow> nat \<Rightarrow> 'x rebase_required + 'x published_commit \<Rightarrow> 'x thread" where
  "after_publish tx attempt res =
     (case res of
        Inr published \<Rightarrow> Persisting published
      | Inl retry \<Rightarrow>
          if attempt = MAX_REBASE_ATTEMPTS then Finished (Inr (ConflictRetry None))
          else Rebasing tx attempt retry)"

definition after_rebase :: "tx \<Rightarrow> nat \<Rightarrow> conflict_info + 'x prepared_commit \<Rightarrow> 'x thread" where
  "after_rebase tx attempt res =
     (case res of
        Inr prepared \<Rightarrow> Publishing tx (attempt + 1) prepared
      | Inl info \<Rightarrow> Finished (Inr (ConflictRetry (Some info))))"

section \<open>The system\<close>

record 'x system =
  sy_db :: "'x moor_db"
  sy_thread :: "nat \<Rightarrow> 'x thread"
  sy_roots :: "'x snapshot list"
  sy_commits :: "(nat \<times> 'x relation_working_sets) list"

abbreviation sy_planes :: "'x system \<Rightarrow> 'x snapshot_planes" where
  "sy_planes s \<equiv> db_planes (sy_db s)"

abbreviation sy_root :: "'x system \<Rightarrow> 'x snapshot" where
  "sy_root s \<equiv> root_state (db_planes (sy_db s))"

definition set_thread :: "'x system \<Rightarrow> nat \<Rightarrow> 'x thread \<Rightarrow> 'x system" where
  "set_thread s i th = s\<lparr>sy_thread := (sy_thread s)(i := th)\<rparr>"

definition set_db :: "'x system \<Rightarrow> 'x moor_db \<Rightarrow> 'x system" where
  "set_db s db = s\<lparr>sy_db := db\<rparr>"

definition record_publication :: "'x system \<Rightarrow> tx \<Rightarrow> 'x published_commit \<Rightarrow> 'x system" where
  "record_publication s tx pb =
     s\<lparr>sy_roots := sy_roots s @ [sy_root s],
       sy_commits := sy_commits s @ [(tx_snapshot_version tx, pb_working_sets pb)]\<rparr>"

definition publish_step :: "'x system \<Rightarrow> nat \<Rightarrow> tx \<Rightarrow> nat \<Rightarrow> 'x prepared_commit \<Rightarrow> 'x system" where
  "publish_step s i tx attempt pr =
     (case try_publish (sy_planes s) pr of
        (planes, res) \<Rightarrow>
          (let s' = set_thread (set_db s ((sy_db s)\<lparr>db_planes := planes\<rparr>)) i (after_publish tx attempt res)
           in case res of Inl _ \<Rightarrow> s' | Inr pb \<Rightarrow> record_publication s' tx pb))"

inductive sys_step ::
  "db_key hasher \<Rightarrow> db_key relation_domain \<Rightarrow> nat \<Rightarrow> 'x system \<Rightarrow> 'x system \<Rightarrow> bool"
  for dh :: "db_key hasher" and rd :: "db_key relation_domain" and i :: nat where
  load_root: "sy_thread s i = Idle \<Longrightarrow> sys_step dh rd i s (set_thread s i (LoadedRoot (load_root (sy_planes s))))"
| load_caches: "sy_thread s i = LoadedRoot snap \<Longrightarrow>
    sys_step dh rd i s (set_thread s i (LoadedCaches snap (choose_seed_caches snap (cache_pub (sy_planes s)))))"
| take_timestamp: "sy_thread s i = LoadedCaches snap cs \<Longrightarrow>
    sys_step dh rd i s (set_thread (set_db s ((sy_db s)\<lparr>db_monotonic := db_monotonic (sy_db s) + 1\<rparr>)) i
      (Running (relations_start_transaction (db_relations (sy_db s))
         (tx_seed_of (db_monotonic (sy_db s)) snap cs))))"
| work: "sy_thread s i = Running t \<Longrightarrow> rt_step (wt_rel t r) rt \<Longrightarrow>
    sys_step dh rd i s (set_thread s i (Running (t\<lparr>wt_rel := (wt_rel t)(r := rt)\<rparr>)))"
| note_reads: "sy_thread s i = Running t \<Longrightarrow>
    sys_step dh rd i s (set_thread s i (Running (t\<lparr>wt_owner_change_reads := obs,
      wt_inherited_policy_reads := props, wt_caches := cs, wt_perm_memo := memo,
      wt_verb_program_revision := revision\<rparr>)))"
| sequence: "sy_thread s i = Running t \<Longrightarrow>
    sys_step dh rd i s (set_db s ((sy_db s)\<lparr>db_sequences := fst (seq_increment (db_sequences (sy_db s)) n)\<rparr>))"
| sequence_max: "sy_thread s i = Running t \<Longrightarrow>
    sys_step dh rd i s (set_db s ((sy_db s)\<lparr>db_sequences := fst (seq_update_max (db_sequences (sy_db s)) n v)\<rparr>))"
| read_only: "sy_thread s i = Running t \<Longrightarrow> \<not> wt_has_mutations t \<Longrightarrow>
    sys_step dh rd i s (set_thread s i (commit_read_only (load_root (sy_planes s)) t))"
| store: "sy_thread s i = StoringCache tx cs \<Longrightarrow>
    sys_step dh rd i s (set_thread (set_db s ((sy_db s)\<lparr>db_planes :=
      store_cache (sy_planes s) (tx_snapshot_version tx) cs\<rparr>)) i (Finished (read_only_success tx)))"
| prepare: "sy_thread s i = Running t \<Longrightarrow> wt_has_mutations t \<Longrightarrow>
    prepare dh rd (db_relations (sy_db s)) (load_root (sy_planes s)) adm (into_working_sets dh t) = Some res \<Longrightarrow>
    sys_step dh rd i s (set_thread s i (after_prepare (wt_tx t) res))"
| publish: "sy_thread s i = Publishing tx attempt pr \<Longrightarrow> sys_step dh rd i s (publish_step s i tx attempt pr)"
| rebase: "sy_thread s i = Rebasing tx attempt rr \<Longrightarrow>
    rebase dh rd (load_root (sy_planes s)) rr = Some res \<Longrightarrow>
    sys_step dh rd i s (set_thread s i (after_rebase tx attempt res))"
| persist: "sy_thread s i = Persisting pb \<Longrightarrow>
    enqueue_persistence (db_sequences (sy_db s)) pb = (seqs, batch, result) \<Longrightarrow>
    sys_step dh rd i s (set_thread (set_db s ((sy_db s)\<lparr>db_sequences := seqs\<rparr>)) i (Finished (Inr result)))"
| leave: "sy_thread s i = Finished res \<Longrightarrow> sys_step dh rd i s (set_thread s i Idle)"

inductive_cases sys_stepE: "sys_step dh rd i s s'"

definition sys_start :: "(db_key \<Rightarrow> string) \<Rightarrow> 'x system \<Rightarrow> bool" where
  "sys_start disp s \<longleftrightarrow> (\<exists>sources saved db. (\<forall>r. provider_ok (sources r))
     \<and> try_open (create_relation disp sources) saved = Inr db
     \<and> s = \<lparr>sy_db = db, sy_thread = (\<lambda>_. Idle), sy_roots = [root_state (db_planes db)], sy_commits = []\<rparr>)"

inductive sys_reachable ::
  "db_key hasher \<Rightarrow> db_key relation_domain \<Rightarrow> 'x system \<Rightarrow> bool"
  for dh :: "db_key hasher" and rd :: "db_key relation_domain" where
  start: "sys_start disp s \<Longrightarrow> sys_reachable dh rd s"
| step: "sys_reachable dh rd s \<Longrightarrow> sys_step dh rd i s s' \<Longrightarrow> sys_reachable dh rd s'"

section \<open>Transactions on a loaded snapshot\<close>

lemma rt_loaded_step:
  assumes "rt_step t t'" and "rt_ok t" and "rt_loaded t"
  shows "rt_tx t' = rt_tx t \<and> ti_deref (rt_master t') = ti_deref (rt_master t) \<and> rt_loaded t'"
  using assms
proof (induction rule: rt_step.induct)
  case (insert t d v)
  then show ?case by (auto simp: rt_insert_nf rt_touch_def rt_assign_def split: option.split sum.split)
next
  case (insert_guaranteed_unique t d v)
  then show ?case by (auto simp: rt_insert_guaranteed_unique_def rt_touch_def rt_assign_def split: option.split op_type.split)
next
  case (update t d v)
  then show ?case
    by (auto simp: rt_update_nf [OF rt_ok_D(4)] rt_touch_def rt_assign_def split: option.split sum.split)
next
  case (upsert t d v)
  then show ?case by (auto simp: rt_upsert_nf rt_touch_def rt_assign_def split: option.split sum.split)
next
  case (upsert_with t d f)
  then show ?case by (auto simp: rt_upsert_with_nf rt_touch_def rt_assign_def split: option.split sum.split)
next
  case (update_with t d g)
  then show ?case
    by (auto simp: rt_update_with_def rt_upsert_with_nf rt_touch_def rt_assign_def split: option.split sum.split)
next
  case (delete t d)
  then show ?case by (auto simp: rt_delete_nf rt_touch_def rt_assign_def split: option.split sum.split)
next
  case (get_all t)
  then show ?case by (simp add: rt_get_all_nf)
next
  case (get_by_codomain t c)
  then show ?case by (simp add: rt_for_each_frame)
qed

text \<open>The state of a transaction over the snapshot it started from.\<close>

definition tx_ok :: "'x snapshot \<Rightarrow> 'x ws_transaction \<Rightarrow> bool" where
  "tx_ok snap t \<longleftrightarrow> tx_snapshot_version (wt_tx t) = s_version snap
     \<and> (\<forall>r. rt_ok (wt_rel t r) \<and> rt_loaded (wt_rel t r) \<and> rt_tx (wt_rel t r) = wt_tx t
          \<and> ti_deref (rt_master (wt_rel t r)) = s_index snap r)"

definition root_wf :: "'x snapshot \<Rightarrow> bool" where
  "root_wf s \<longleftrightarrow> all_loaded s \<and> (\<forall>r k e. idx_lookup (s_index s r) k = Some e \<longrightarrow> ets e \<le> committed_ts s)"

lemma tx_ok_start:
  assumes "root_wf snap" and "committed_ts snap < n"
  shows "tx_ok snap (relations_start_transaction rels (tx_seed_of n snap cs))"
proof -
  have start: "rt_start (wt_rel (relations_start_transaction rels (tx_seed_of n snap cs)) r)" for r
    unfolding rt_start_def
    using assms by (auto simp: relations_start_transaction_def tx_seed_of_def start_borrowed_def Let_def
        root_wf_def all_loaded_def intro!: disjI2 exI)
  show ?thesis
    using rt_start_ok [OF start] assms(1)
    by (auto simp: tx_ok_def relations_start_transaction_def tx_seed_of_def start_borrowed_def Let_def
        root_wf_def all_loaded_def)
qed

lemma tx_ok_work:
  assumes "tx_ok snap t" and "rt_step (wt_rel t r) rt"
  shows "tx_ok snap (t\<lparr>wt_rel := (wt_rel t)(r := rt)\<rparr>)"
  using assms rt_ok_step [OF assms(2)] rt_loaded_step [OF assms(2)] by (auto simp: tx_ok_def)

lemma tx_ok_base:
  assumes "tx_ok snap t"
  shows "rt_base (wt_rel t r) k = Inr (map_option (\<lambda>e. (ets e, evalue e)) (idx_lookup (s_index snap r) k))"
  using assms by (simp add: tx_ok_def rt_base_def split: option.split)

lemma into_working_sets_simps [simp]:
  "ws_of (wss_relations (into_working_sets dh t)) r = rt_working_set (wt_rel t r)"
  "wss_tx (into_working_sets dh t) = wt_tx t"
  "wss_tx_bloom (into_working_sets dh t) =
     bloom_insert_keys dh (ws_of (wss_relations (into_working_sets dh t))) ALL_RELATIONS bloom_new"
  by (simp_all add: into_working_sets_def Let_def)

lemma tx_ok_wf: "tx_ok snap t \<Longrightarrow> ws_wf (wss_relations (into_working_sets dh t))"
  by (simp add: tx_ok_def ws_wf_def rt_working_set_keys rt_working_set_timely
      del: rt_working_set_simps)

section \<open>The history of roots\<close>

definition value_at :: "'x snapshot list \<Rightarrow> nat \<Rightarrow> database_relation \<Rightarrow> db_key \<Rightarrow> 'x db_value entry option" where
  "value_at H u r k = idx_lookup (s_index (H ! u) r) k"

text \<open>The filter of a root covers every key that changed since the version it claims.\<close>

definition moved_keys :: "'x snapshot list \<Rightarrow> nat \<Rightarrow> nat \<Rightarrow> db_key set" where
  "moved_keys H from n = {k. \<exists>u r. from \<le> u \<and> u \<le> n \<and> value_at H u r k \<noteq> value_at H n r k}"

definition bloom_cov :: "db_key hasher \<Rightarrow> 'x snapshot list \<Rightarrow> nat \<Rightarrow> bool" where
  "bloom_cov dh H n \<longleftrightarrow> (case s_commit_bloom (H ! n) of
       None \<Rightarrow> bloom_since_version (H ! n) = n
     | Some b \<Rightarrow> bloom_since_version (H ! n) \<le> n
         \<and> bloom.covers dh b (moved_keys H (bloom_since_version (H ! n)) n))"

definition versions_agree :: "'x snapshot list \<Rightarrow> bool" where
  "versions_agree H \<longleftrightarrow> (\<forall>u v r k e e'. u < length H \<longrightarrow> v < length H \<longrightarrow> value_at H u r k = Some e \<longrightarrow>
     value_at H v r k = Some e' \<longrightarrow> ets e = ets e' \<longrightarrow> e = e')"

definition fresh_ts :: "'x snapshot list \<Rightarrow> timestamp \<Rightarrow> bool" where
  "fresh_ts H n \<longleftrightarrow> (\<forall>u r k e. u < length H \<longrightarrow> value_at H u r k = Some e \<longrightarrow> ets e \<noteq> n)"

definition hist_ok :: "db_key hasher \<Rightarrow> 'x snapshot list \<Rightarrow> timestamp \<Rightarrow> bool" where
  "hist_ok dh H m \<longleftrightarrow> H \<noteq> [] \<and> versions_agree H
     \<and> (\<forall>n < length H. root_wf (H ! n) \<and> s_version (H ! n) = n \<and> committed_ts (H ! n) < m \<and> bloom_cov dh H n)"

text \<open>
  The keys a commit must not overwrite blindly have kept their entry from version \<open>u\<close> to version \<open>c\<close>:
  all the keys it wrote but those inserted under a fresh unique key, and property values whose
  permissions accept overlapping writes.
\<close>

definition unmoved :: "'x snapshot list \<Rightarrow> 'x relation_working_sets \<Rightarrow> nat \<Rightarrow> nat \<Rightarrow> bool" where
  "unmoved H ws u c \<longleftrightarrow> (\<forall>r k x. map_of (tuples (ws_of ws r)) k = Some x \<longrightarrow> \<not> guaranteed_unique x \<longrightarrow>
     \<not> can_clobber ws r k \<longrightarrow> value_at H u r k = value_at H c r k)"

lemma value_at_eq: "value_at H u r = idx_lookup (s_index (H ! u) r)"
  by (simp add: value_at_def fun_eq_iff)

lemma value_at_append [simp]: "u < length H \<Longrightarrow> value_at (H @ H') u = value_at H u"
  by (simp add: value_at_def nth_append fun_eq_iff)

lemma unmoved_append:
  "u < length H \<Longrightarrow> c < length H \<Longrightarrow> unmoved (H @ H') ws u c = unmoved H ws u c"
  by (simp add: unmoved_def)

lemma bloom_cov_append: "n < length H \<Longrightarrow> bloom_cov dh (H @ H') n = bloom_cov dh H n"
proof -
  assume n: "n < length H"
  then have "value_at (H @ H') u = value_at H u" if "u \<le> n" for u
    using that by simp
  then have "moved_keys (H @ H') a n = moved_keys H a n" for a
    by (simp add: moved_keys_def cong: conj_cong)
  then show ?thesis by (simp add: bloom_cov_def nth_append n split: option.split)
qed

lemma hist_okD:
  assumes "hist_ok dh H m" and "n < length H"
  shows "root_wf (H ! n)" "s_version (H ! n) = n" "committed_ts (H ! n) < m" "bloom_cov dh H n"
  using assms by (simp_all add: hist_ok_def)

lemma hist_ok_mono: "hist_ok dh H m \<Longrightarrow> m \<le> m' \<Longrightarrow> hist_ok dh H m'"
  by (auto simp: hist_ok_def intro: less_le_trans)

lemma hist_fresh:
  assumes "hist_ok dh H m" and "m \<le> n"
  shows "fresh_ts H n"
  using hist_okD(1,3) [OF assms(1)] assms(2) unfolding fresh_ts_def root_wf_def value_at_def
  by (metis leD le_less_trans)

text \<open>A negative answer of the filters: no written key has moved.\<close>

lemma unmoved_if_covered:
  assumes "bloom_cov dh H c" and "s_commit_bloom (H ! c) = Some b"
    and "bloom_since_version (H ! c) \<le> u" and "u \<le> c"
    and "\<And>k. k \<in> written_keys ws \<Longrightarrow> \<not> might_contain dh b k"
  shows "unmoved H ws u c"
proof -
  have "value_at H u r k = value_at H c r k" if "map_of (tuples (ws_of ws r)) k = Some x" for r k x
  proof (rule ccontr)
    assume "value_at H u r k \<noteq> value_at H c r k"
    then have "k \<in> moved_keys H (bloom_since_version (H ! c)) c"
      using assms(3,4) by (auto simp: moved_keys_def)
    then have "might_contain dh b k"
      using assms(1,2) by (auto simp: bloom_cov_def bloom.covers_def)
    moreover have "k \<in> written_keys ws"
      using that by (force simp: written_keys_def dest: map_of_SomeD)
    ultimately show False using assms(5) by blast
  qed
  then show ?thesis by (simp add: unmoved_def)
qed

lemma same_version_same_entry:
  assumes "versions_agree H" and "u < length H" and "c < length H"
    and "map_option ets (value_at H u r k) = map_option ets (value_at H c r k)"
  shows "value_at H u r k = value_at H c r k"
  using assms unfolding versions_agree_def by (cases "value_at H u r k"; cases "value_at H c r k") auto

section \<open>Publishing extends the history\<close>

lemma overlay_other:
  "k \<notin> set (hm_keys m) \<Longrightarrow> overlay cc m f k = f k"
  by (simp add: overlay_def map_of_None_iff [THEN iffD2])

lemma overlay_entry:
  assumes "overlay cc m f k = Some e"
  shows "f k = Some e \<or> (\<exists>x. map_of m k = Some x \<and> ets e = write_ts x)"
  using assms by (auto simp: overlay_def split: option.splits)

definition publishes ::
  "db_key hasher \<Rightarrow> 'x snapshot list \<Rightarrow> timestamp \<Rightarrow> timestamp \<Rightarrow> 'x relation_working_sets
     \<Rightarrow> commit_bloom \<Rightarrow> 'x snapshot \<Rightarrow> bool" where
  "publishes dh H m n ws b cand \<longleftrightarrow> hist_ok dh H m \<and> built ws (last H) n b cand
     \<and> bloom.covers dh b (written_keys ws) \<and> fresh_ts H n \<and> n < m
     \<and> (\<forall>r k x. map_of (tuples (ws_of ws r)) k = Some x \<longrightarrow> write_ts x = n)"

abbreviation top_of :: "'x snapshot list \<Rightarrow> nat" where
  "top_of H \<equiv> length H - 1"

lemma hist_top:
  assumes "hist_ok dh H m"
  shows "top_of H < length H" "last H = H ! top_of H" "length H = Suc (top_of H)" "H ! top_of H \<in> set H"
  using assms by (simp_all add: hist_ok_def last_conv_nth)

lemma publishesD:
  assumes "publishes dh H m n ws b cand"
  shows "hist_ok dh H m" "built ws (H ! top_of H) n b cand" "bloom.covers dh b (written_keys ws)"
    "fresh_ts H n" "n < m" "\<And>r k x. map_of (tuples (ws_of ws r)) k = Some x \<Longrightarrow> write_ts x = n"
  using assms hist_top(2) [of dh H m] by (auto simp: publishes_def)

lemma new_value:
  assumes "publishes dh H m n ws b cand"
  shows "value_at (H @ [cand]) (length H) r =
    overlay clone_for_commit (tuples (ws_of ws r)) (value_at H (top_of H) r)"
proof -
  show ?thesis using publishesD(2) [OF assms] by (simp add: value_at_eq built_def)
qed

lemma new_entry:
  assumes "publishes dh H m n ws b cand" and "value_at (H @ [cand]) (length H) r k = Some e"
  shows "value_at H (top_of H) r k = Some e \<or> ets e = n"
  using overlay_entry [of clone_for_commit "tuples (ws_of ws r)" "value_at H (top_of H) r" k e] assms(2)
    publishesD(6) [OF assms(1)]
  by (auto simp: new_value [OF assms(1)])

lemma publishes_wf:
  assumes "publishes dh H m n ws b cand"
  shows "root_wf cand"
proof -
  note P = publishesD [OF assms]
  have "ets e \<le> committed_ts cand" if "idx_lookup (s_index cand r) k = Some e" for r k e
  proof -
    have "value_at H (top_of H) r k = Some e \<or> ets e = n"
      using new_entry [OF assms, of r k e] that by (simp add: value_at_def)
    then show ?thesis
      using hist_okD(1) [OF P(1) hist_top(1) [OF P(1)]] P(2)
      by (auto simp: value_at_def built_def root_wf_def le_max_iff_disj)
  qed
  then show ?thesis using P(2) by (simp add: root_wf_def built_def)
qed

lemma less_length_append1: "u < length (H @ [x]) \<longleftrightarrow> u < length H \<or> u = length H"
  by auto

lemma publishes_agree:
  assumes "publishes dh H m n ws b cand"
  shows "versions_agree (H @ [cand])"
proof -
  note P = publishesD [OF assms]
  have old: "e = e'" if "u < length H" "v < length H" "value_at H u r k = Some e" "value_at H v r k = Some e'"
    "ets e = ets e'" for u v r k e e'
    using P(1) that by (auto simp: hist_ok_def versions_agree_def)
  have new: "e = e'" if "u < length H" "value_at H u r k = Some e"
    "value_at (H @ [cand]) (length H) r k = Some e'" "ets e = ets e'" for u r k e e'
    using new_entry [OF assms that(3)] that old [OF that(1) hist_top(1) [OF P(1)] that(2)] P(4)
    by (auto simp: fresh_ts_def)
  show ?thesis
    unfolding versions_agree_def less_length_append1
  proof (intro allI impI, elim disjE)
    fix u v r k e e'
    assume e: "value_at (H @ [cand]) u r k = Some e" "value_at (H @ [cand]) v r k = Some e'" "ets e = ets e'"
    show "u < length H \<Longrightarrow> v < length H \<Longrightarrow> e = e'" using e old [of u v r k e e'] by simp
    show "u < length H \<Longrightarrow> v = length H \<Longrightarrow> e = e'" using e new [of u r k e e'] by simp
    show "u = length H \<Longrightarrow> v < length H \<Longrightarrow> e = e'" using e new [of v r k e' e] by simp
    show "u = length H \<Longrightarrow> v = length H \<Longrightarrow> e = e'" using e by simp
  qed
qed

lemma publishes_moved:
  assumes "publishes dh H m n ws b cand"
  shows "moved_keys (H @ [cand]) a (length H) \<subseteq> written_keys ws \<union> moved_keys H a (top_of H)"
proof
  fix k
  assume "k \<in> moved_keys (H @ [cand]) a (length H)"
  then obtain u r where u: "a \<le> u" "u \<le> length H"
    and ne: "value_at (H @ [cand]) u r k \<noteq> value_at (H @ [cand]) (length H) r k"
    by (auto simp: moved_keys_def)
  note top = hist_top [OF publishesD(1) [OF assms]]
  have l: "u < length H" using ne u(2) by (cases "u = length H") simp_all
  have "value_at H (top_of H) r k = value_at (H @ [cand]) (length H) r k" if "k \<notin> written_keys ws"
    using that overlay_other [of k "tuples (ws_of ws r)" clone_for_commit "value_at H (top_of H) r"]
    by (simp add: new_value [OF assms] written_keys_def)
  then have "value_at H u r k \<noteq> value_at H (top_of H) r k" if "k \<notin> written_keys ws"
    using that ne value_at_append [OF l, of "[cand]"] by metis
  then show "k \<in> written_keys ws \<union> moved_keys H a (top_of H)"
    using u(1) l top(3) unfolding moved_keys_def by (metis (mono_tags, lifting) UnI1 UnI2 less_Suc_eq_le mem_Collect_eq)
qed

lemma moved_keys_self: "moved_keys H n n = {}"
  by (auto simp: moved_keys_def dest: le_antisym)

lemma publishes_cov:
  assumes "publishes dh H m n ws b cand"
  shows "bloom_cov dh (H @ [cand]) (length H)"
proof -
  note P = publishesD [OF assms] and top = hist_top [OF publishesD(1) [OF assms]]
  have old: "bloom_cov dh H (top_of H)" "s_version (H ! top_of H) = top_of H"
    using hist_okD [OF P(1) top(1)] by blast+
  have own: ?thesis if "s_commit_bloom cand = Some b" "bloom_since_version cand = top_of H"
  proof -
    have "moved_keys (H @ [cand]) (top_of H) (length H) \<subseteq> written_keys ws"
      using publishes_moved [OF assms, of "top_of H"] by (simp add: moved_keys_self)
    then show ?thesis
      using that bloom.covers_mono [OF P(3)] by (simp add: bloom_cov_def)
  qed
  from P(2) consider
      "s_commit_bloom cand = Some b" "bloom_since_version cand = top_of H"
    | p where "s_commit_bloom (H ! top_of H) = Some p" "s_commit_bloom cand = Some (bloom_merge b p)"
        "bloom_since_version cand = bloom_since_version (H ! top_of H)"
    | "s_commit_bloom (H ! top_of H) = None" "s_commit_bloom cand = Some b"
        "bloom_since_version cand = bloom_since_version (H ! top_of H)"
    unfolding built_def old(2) by (elim conjE disjE exE)
  then show ?thesis
  proof cases
    case (2 p)
    then have p: "bloom.covers dh p (moved_keys H (bloom_since_version (H ! top_of H)) (top_of H))"
      and since: "bloom_since_version (H ! top_of H) \<le> top_of H"
      using old(1) by (simp_all add: bloom_cov_def)
    have "bloom.covers dh (bloom_merge b p) (moved_keys (H @ [cand]) (bloom_since_version cand) (length H))"
      using publishes_moved [OF assms] 2(3) by (metis bloom.covers_mono [OF bloom.covers_merge [OF P(3) p]])
    then show ?thesis using 2 since by (simp add: bloom_cov_def)
  next
    case 3
    then show ?thesis using own old(1) by (simp add: bloom_cov_def)
  qed (use own in blast)
qed

lemma hist_publish:
  assumes "publishes dh H m n ws b cand"
  shows "hist_ok dh (H @ [cand]) m"
  unfolding hist_ok_def less_length_append1
proof (intro conjI allI impI publishes_agree [OF assms])
  note P = publishesD [OF assms] and top = hist_top [OF publishesD(1) [OF assms]]
  fix u
  assume u: "u < length H \<or> u = length H"
  note old = hist_okD [OF P(1)]
  show "root_wf ((H @ [cand]) ! u)"
    using u by (auto simp: nth_append old publishes_wf [OF assms])
  show "s_version ((H @ [cand]) ! u) = u"
    using u P(2) old(2) [OF top(1)] top(3) by (auto simp: nth_append old built_def)
  show "committed_ts ((H @ [cand]) ! u) < m"
    using u P(2,5) old(3) [OF top(1)] by (auto simp: nth_append old built_def)
  show "bloom_cov dh (H @ [cand]) u"
    using u old(4) [of u] bloom_cov_append [of u H dh "[cand]"] publishes_cov [OF assms] by blast
qed simp

lemma fresh_publish:
  assumes "publishes dh H m n ws b cand" and "fresh_ts H n'" and "n' \<noteq> n"
  shows "fresh_ts (H @ [cand]) n'"
  unfolding fresh_ts_def less_length_append1
proof (intro allI impI)
  fix u r k e
  assume u: "u < length H \<or> u = length H" and v: "value_at (H @ [cand]) u r k = Some e"
  show "ets e \<noteq> n'"
  proof (cases "u < length H")
    case True
    then show ?thesis using v assms(2) by (auto simp: fresh_ts_def)
  next
    case False
    then have "value_at H (top_of H) r k = Some e \<or> ets e = n"
      using new_entry [OF assms(1), of r k e] u v by simp
    then show ?thesis
      using assms(2,3) hist_top(1) [OF publishesD(1) [OF assms(1)]] by (auto simp: fresh_ts_def)
  qed
qed

section \<open>Commits on the history\<close>

definition commit_ok :: "db_key hasher \<Rightarrow> 'x snapshot list \<Rightarrow> tx \<Rightarrow> 'x commit_data \<Rightarrow> nat \<Rightarrow> bool" where
  "commit_ok dh H tx cd c \<longleftrightarrow> cd_ok dh cd \<and> cd_tx_timestamp cd = tx_ts tx
     \<and> (\<forall>r k x. map_of (tuples (ws_of (cd_working_sets cd) r)) k = Some x \<longrightarrow> write_ts x = tx_ts tx)
     \<and> tx_snapshot_version tx \<le> c \<and> c < length H
     \<and> unmoved H (cd_working_sets cd) (tx_snapshot_version tx) c"

lemma conflict_of_clear [simp]: "conflict_of c (clear_clobber_hint flags k x) = conflict_of c x"
  by (cases c) auto

lemma op_ok_same_version:
  assumes "op_ok t d x" and "\<not> guaranteed_unique x" and "rt_base t d = Inr b"
    and "\<And>ts v. c = Some (ts, v) \<Longrightarrow> ts \<noteq> rt_write_ts t" and "conflict_of c x = None"
  shows "map_option fst c = map_option fst b"
  using assms by (cases c; cases "operation x") (auto simp: op_ok_def split: if_splits)

lemma passes_unmoved:
  assumes "hist_ok dh H m" and "u < length H" and "c < length H" and "tx_ok (H ! u) t"
    and "fresh_ts H (tx_ts (wt_tx t))"
    and "\<And>r. passes (H ! c) (clear_clobber_hints (wss_relations (into_working_sets dh t))) r"
  shows "unmoved H (clear_clobber_hints (wss_relations (into_working_sets dh t))) u c"
  unfolding unmoved_def
proof (intro allI impI)
  let ?ws = "wss_relations (into_working_sets dh t)"
  fix r k x'
  assume x': "map_of (tuples (ws_of (clear_clobber_hints ?ws) r)) k = Some x'" "\<not> guaranteed_unique x'"
    and nc: "\<not> can_clobber (clear_clobber_hints ?ws) r k"
  let ?v = "map_option (\<lambda>e. (ets e, evalue e)) (value_at H c r k)"
  have conf: "conflict_of ?v x' = None"
    using assms(6) [of r] x' nc by (simp add: passes_def value_at_def)
  obtain x where x: "lo_get (rt_local (wt_rel t r)) k = Some x" "guaranteed_unique x' = guaranteed_unique x"
    "conflict_of ?v x' = conflict_of ?v x"
    using x'(1) by (auto simp: clear_clobber_hints_tuple split: if_splits)
  have ok: "rt_ok (wt_rel t r)" and tx: "rt_tx (wt_rel t r) = wt_tx t"
    using assms(4) by (simp_all add: tx_ok_def)
  have "map_option fst ?v = map_option fst (map_option (\<lambda>e. (ets e, evalue e)) (value_at H u r k))"
  proof (rule op_ok_same_version [OF rt_ok_D(5) [OF ok x(1)]])
    show "rt_base (wt_rel t r) k = Inr (map_option (\<lambda>e. (ets e, evalue e)) (value_at H u r k))"
      using tx_ok_base [OF assms(4)] by (simp add: value_at_def)
    show "ts \<noteq> rt_write_ts (wt_rel t r)" if "?v = Some (ts, v)" for ts v
      using that assms(3,5) tx by (auto simp: fresh_ts_def)
  qed (use x x'(2) conf in simp_all)
  then have "map_option ets (value_at H u r k) = map_option ets (value_at H c r k)"
    by (simp add: option.map_comp comp_def)
  then show "value_at H u r k = value_at H c r k"
    using same_version_same_entry [OF _ assms(2,3)] assms(1) by (simp add: hist_ok_def)
qed

lemma skip_unmoved:
  assumes "hist_ok dh H m" and "u < length H" and "c < length H" and "u \<le> c"
    and "skip_conflict_check u (bloom_insert_keys dh (ws_of ws) ALL_RELATIONS bloom_new) (H ! c)"
  shows "unmoved H (clear_clobber_hints ws) u c"
proof (cases "u = c")
  case False
  then obtain b where b: "s_commit_bloom (H ! c) = Some b" "bloom_since_version (H ! c) \<le> u"
    and "\<not> might_intersect (bloom_insert_keys dh (ws_of ws) ALL_RELATIONS bloom_new) b"
    using assms(5) hist_okD(2) [OF assms(1,3)]
    by (auto simp: skip_conflict_check_def split: option.splits)
  moreover have "might_contain dh (bloom_insert_keys dh (ws_of ws) ALL_RELATIONS bloom_new) k"
    if "k \<in> written_keys ws" for k
    using commit_bloom_covers [of dh ws] that by (simp add: bloom.covers_def)
  ultimately have "\<not> might_contain dh b k" if "k \<in> written_keys ws" for k
    using that bloom.intersects_common [of dh _ k b] by blast
  then show ?thesis
    by (intro unmoved_if_covered [OF hist_okD(4) [OF assms(1,3)] b assms(4)]) simp
qed (simp add: unmoved_def)

lemma prepare_commit_ok:
  assumes "hist_ok dh H m" and "snap \<in> set H" and "tx_ok snap t"
    and "fresh_ts H (tx_ts (wt_tx t))"
    and "prepare dh rd rels (last H) adm (into_working_sets dh t) = Some (Inr pr)"
  shows "pr_ok dh pr" and "pr_checked_root pr = last H"
    and "commit_ok dh H (wt_tx t) (pr_data pr) (top_of H)"
proof -
  let ?ws = "wss_relations (into_working_sets dh t)"
  note top = hist_top [OF assms(1)]
  obtain u where u: "u < length H" "H ! u = snap" using assms(2) by (auto simp: in_set_conv_nth)
  then have v: "tx_snapshot_version (wt_tx t) = u"
    using assms(3) hist_okD(2) [OF assms(1) u(1)] by (simp add: tx_ok_def)
  have loaded: "all_loaded (last H)"
    using hist_okD(1) [OF assms(1) top(1)] top(2) by (simp add: root_wf_def)
  note prep = prepare_prepared [OF loaded tx_ok_wf [OF assms(3)] assms(5)]
  show "pr_ok dh pr" "pr_checked_root pr = last H" using prep by simp_all
  have "unmoved H (clear_clobber_hints ?ws) u (top_of H)"
    using prep(5) skip_unmoved [OF assms(1) u(1) top(1)] passes_unmoved [OF assms(1) u(1) top(1) _ assms(4)]
      assms(3) u v top(2,3) by fastforce
  moreover have "write_ts x' = tx_ts (wt_tx t)"
    if "map_of (tuples (ws_of (clear_clobber_hints ?ws) r)) k = Some x'" for r k x'
  proof -
    have ok: "rt_ok (wt_rel t r)" "rt_tx (wt_rel t r) = wt_tx t"
      using assms(3) by (simp_all add: tx_ok_def)
    show ?thesis
    proof (cases "lo_get (rt_local (wt_rel t r)) k")
      case (Some x)
      then have "write_ts x' = write_ts x"
        using that by (auto simp: clear_clobber_hints_tuple split: if_splits)
      then show ?thesis using rt_ok_D(5) [OF ok(1) Some] ok(2) by (simp add: op_ok_def)
    qed (use that in \<open>simp add: clear_clobber_hints_tuple split: if_splits\<close>)
  qed
  ultimately show "commit_ok dh H (wt_tx t) (pr_data pr) (top_of H)"
    using prep top(1,3) u(1) v by (auto simp: commit_ok_def pr_ok_def)
qed

lemma rebase_commit_ok:
  assumes "hist_ok dh H m" and "commit_ok dh H tx (rr_data rr) c" and "rr_checked_root rr = H ! c"
    and "rebase dh rd (last H) rr = Some (Inr pr)"
  shows "pr_ok dh pr" and "pr_checked_root pr = last H"
    and "commit_ok dh H tx (pr_data pr) (top_of H)"
proof -
  let ?ws = "cd_working_sets (rr_data rr)"
  note top = hist_top [OF assms(1)]
  have c: "c < length H" and cd: "cd_ok dh (rr_data rr)"
    and u: "tx_snapshot_version tx \<le> c" "unmoved H ?ws (tx_snapshot_version tx) c"
    using assms(2) by (simp_all add: commit_ok_def)
  have loaded: "all_loaded (last H)"
    using hist_okD(1) [OF assms(1) top(1)] top(2) by (simp add: root_wf_def)
  note reb = rebase_prepared [OF loaded cd assms(4)]
  show "pr_ok dh pr" "pr_checked_root pr = last H" using reb by simp_all
  have "unmoved H ?ws c (top_of H)"
  proof (cases "bloom_proves_disjoint dh ?ws (H ! c) (last H)")
    case True
    then obtain b where "s_commit_bloom (H ! top_of H) = Some b" "bloom_since_version (H ! top_of H) \<le> c"
      and "\<And>k. k \<in> written_keys ?ws \<Longrightarrow> \<not> might_contain dh b k"
      using hist_okD(2) [OF assms(1) c] top(2) ALL_RELATIONS_all
      by (auto simp: bloom_proves_disjoint_def written_keys_def list_all_iff split: option.splits)
    then show ?thesis
      using unmoved_if_covered [OF hist_okD(4) [OF assms(1) top(1)]] c top(3) by auto
  next
    case False
    then have same: "can_clobber ?ws r k \<or> map_option ets (value_at H c r k) = map_option ets (value_at H (top_of H) r k)"
      if "k \<in> set (hm_keys (tuples (ws_of ?ws r)))" for r k
      using reb(4) that assms(3) top(2) by (auto simp: relation_key_unchanged_def value_at_def)
    show ?thesis
      unfolding unmoved_def
    proof (intro allI impI)
      fix r k x
      assume "map_of (tuples (ws_of ?ws r)) k = Some x" "\<not> can_clobber ?ws r k"
      then have "map_option ets (value_at H c r k) = map_option ets (value_at H (top_of H) r k)"
        using same [of k r] map_of_None_iff [of "tuples (ws_of ?ws r)" k] by auto
      then show "value_at H c r k = value_at H (top_of H) r k"
        using same_version_same_entry [OF _ c top(1)] assms(1) by (simp add: hist_ok_def)
    qed
  qed
  then have "unmoved H ?ws (tx_snapshot_version tx) (top_of H)"
    using u(2) unfolding unmoved_def by metis
  then show "commit_ok dh H tx (pr_data pr) (top_of H)"
    using assms(2) reb(3) c top(1,3) by (simp add: commit_ok_def)
qed

section \<open>The invariant\<close>

fun thread_ts :: "'x thread \<Rightarrow> timestamp option" where
  "thread_ts (Running t) = Some (tx_ts (wt_tx t))"
| "thread_ts (Publishing tx n pr) = Some (tx_ts tx)"
| "thread_ts (Rebasing tx n rr) = Some (tx_ts tx)"
| "thread_ts th = None"

fun thread_ok :: "db_key hasher \<Rightarrow> 'x snapshot list \<Rightarrow> 'x thread \<Rightarrow> bool" where
  "thread_ok dh H (LoadedRoot snap) = (snap \<in> set H)"
| "thread_ok dh H (LoadedCaches snap cs) = (snap \<in> set H)"
| "thread_ok dh H (Running t) = (\<exists>snap \<in> set H. tx_ok snap t)"
| "thread_ok dh H (Publishing tx n pr) = (n \<le> MAX_REBASE_ATTEMPTS \<and> pr_ok dh pr \<and>
     (\<exists>c. pr_checked_root pr = H ! c \<and> commit_ok dh H tx (pr_data pr) c))"
| "thread_ok dh H (Rebasing tx n rr) = (n < MAX_REBASE_ATTEMPTS \<and>
     (\<exists>c. rr_checked_root rr = H ! c \<and> commit_ok dh H tx (rr_data rr) c))"
| "thread_ok dh H th = True"

definition commits_ok :: "'x snapshot list \<Rightarrow> (nat \<times> 'x relation_working_sets) list \<Rightarrow> bool" where
  "commits_ok H C \<longleftrightarrow> length H = Suc (length C) \<and> (\<forall>n < length C.
     fst (C ! n) \<le> n \<and> unmoved H (snd (C ! n)) (fst (C ! n)) n
     \<and> (\<forall>r. value_at H (Suc n) r =
          overlay clone_for_commit (tuples (ws_of (snd (C ! n)) r)) (value_at H n r)))"

definition threads_ok :: "db_key hasher \<Rightarrow> 'x snapshot list \<Rightarrow> timestamp \<Rightarrow> (nat \<Rightarrow> 'x thread) \<Rightarrow> bool" where
  "threads_ok dh H m th \<longleftrightarrow> (\<forall>i. thread_ok dh H (th i))
     \<and> (\<forall>i n. thread_ts (th i) = Some n \<longrightarrow> n < m \<and> fresh_ts H n)
     \<and> (\<forall>i j n. i \<noteq> j \<longrightarrow> thread_ts (th i) = Some n \<longrightarrow> thread_ts (th j) \<noteq> Some n)"

definition sys_ok :: "db_key hasher \<Rightarrow> 'x system \<Rightarrow> bool" where
  "sys_ok dh s \<longleftrightarrow> hist_ok dh (sy_roots s) (db_monotonic (sy_db s))
     \<and> last (sy_roots s) = sy_root s \<and> commits_ok (sy_roots s) (sy_commits s)
     \<and> threads_ok dh (sy_roots s) (db_monotonic (sy_db s)) (sy_thread s)"

lemma set_simps [simp]:
  "sy_db (set_thread s i th) = sy_db s" "sy_roots (set_thread s i th) = sy_roots s"
  "sy_commits (set_thread s i th) = sy_commits s" "sy_thread (set_thread s i th) = (sy_thread s)(i := th)"
  "sy_db (set_db s db) = db" "sy_roots (set_db s db) = sy_roots s"
  "sy_commits (set_db s db) = sy_commits s" "sy_thread (set_db s db) = sy_thread s"
  by (simp_all add: set_thread_def set_db_def)

lemma threads_okD:
  assumes "threads_ok dh H m th"
  shows "thread_ok dh H (th i)" "thread_ts (th i) = Some n \<Longrightarrow> n < m" "thread_ts (th i) = Some n \<Longrightarrow> fresh_ts H n"
    "i \<noteq> j \<Longrightarrow> thread_ts (th i) = Some n \<Longrightarrow> thread_ts (th j) \<noteq> Some n"
  using assms by (auto simp: threads_ok_def)

lemma threads_ok_upd:
  assumes "threads_ok dh H m th" and "thread_ok dh H t"
    and "thread_ts t = None \<or> thread_ts t = thread_ts (th i)"
  shows "threads_ok dh H m (th(i := t))"
proof -
  have "thread_ts (th j) = Some n" if "thread_ts ((th(i := t)) j) = Some n" for j n
    using that assms(3) by (cases "j = i") auto
  moreover have "thread_ok dh H ((th(i := t)) j)" for j
    using threads_okD(1) [OF assms(1)] assms(2) by simp
  ultimately show ?thesis
    using threads_okD(2-4) [OF assms(1)] unfolding threads_ok_def by blast
qed

lemma threads_ok_new:
  assumes "threads_ok dh H m th" and "thread_ok dh H t" and "thread_ts t = Some m" and "fresh_ts H m"
  shows "threads_ok dh H (Suc m) (th(i := t))"
  using assms unfolding threads_ok_def by (auto simp: fun_upd_def intro: less_SucI)

lemma thread_ok_append: "thread_ok dh H t \<Longrightarrow> thread_ok dh (H @ H') t"
proof -
  have c: "commit_ok dh (H @ H') tx cd c" if "commit_ok dh H tx cd c" for tx c and cd :: "'a commit_data"
    using that by (auto simp: commit_ok_def unmoved_append)
  have nth: "(H @ H') ! c = H ! c" if "commit_ok dh H tx cd c" for tx c and cd :: "'a commit_data"
    using that by (simp add: commit_ok_def nth_append)
  show "thread_ok dh H t \<Longrightarrow> thread_ok dh (H @ H') t"
  proof (cases t)
    case (Publishing tx n pr)
    assume "thread_ok dh H t"
    with Publishing obtain k where "n \<le> MAX_REBASE_ATTEMPTS" "pr_ok dh pr" "pr_checked_root pr = H ! k"
      "commit_ok dh H tx (pr_data pr) k" by auto
    then show ?thesis using c nth by (auto simp: Publishing intro!: exI [of _ k])
  next
    case (Rebasing tx n rr)
    assume "thread_ok dh H t"
    with Rebasing obtain k where "n < MAX_REBASE_ATTEMPTS" "rr_checked_root rr = H ! k"
      "commit_ok dh H tx (rr_data rr) k" by auto
    then show ?thesis using c nth by (auto simp: Rebasing intro!: exI [of _ k])
  qed auto
qed

lemma threads_ok_publish:
  assumes "threads_ok dh H m th" and "publishes dh H m n ws b cand"
    and "thread_ts (th i) = Some n" and "thread_ts t = None" and "thread_ok dh (H @ [cand]) t"
  shows "threads_ok dh (H @ [cand]) m (th(i := t))"
proof -
  have "thread_ok dh (H @ [cand]) ((th(i := t)) j)" for j
    using thread_ok_append [OF threads_okD(1) [OF assms(1), of j]] assms(5) by simp
  moreover have "n' < m \<and> fresh_ts (H @ [cand]) n'" if "thread_ts ((th(i := t)) j) = Some n'" for j n'
  proof -
    have "j \<noteq> i" using that assms(4) by auto
    then have "thread_ts (th j) = Some n'" "n' \<noteq> n"
      using that assms(3) threads_okD(4) [OF assms(1), of i j n] by auto
    then show ?thesis
      using threads_okD(2,3) [OF assms(1)] fresh_publish [OF assms(2)] by blast
  qed
  ultimately show ?thesis
    using threads_okD(4) [OF assms(1)] assms(4) unfolding threads_ok_def by (auto simp: fun_upd_def)
qed

lemma commits_ok_publish:
  assumes "commits_ok H C" and "publishes dh H m n ws b cand"
    and "u \<le> top_of H" and "unmoved H ws u (top_of H)"
  shows "commits_ok (H @ [cand]) (C @ [(u, ws)])"
proof -
  have l: "length H = Suc (length C)" using assms(1) by (simp add: commits_ok_def)
  have "value_at (H @ [cand]) (Suc (length C)) r =
      overlay clone_for_commit (tuples (ws_of ws r)) (value_at H (length C) r)" for r
    using new_value [OF assms(2), of r] l by simp
  moreover have "unmoved (H @ [cand]) w v k = unmoved H w v k" if "v \<le> k" "k \<le> length C" for v k w
    using that l by (intro unmoved_append) simp_all
  moreover have "value_at (H @ [cand]) (Suc k) = value_at H (Suc k)" "value_at (H @ [cand]) k = value_at H k"
    if "k < length C" for k
    using that l by simp_all
  ultimately show ?thesis
    using assms(1,3,4) l by (auto simp: commits_ok_def nth_append less_Suc_eq)
qed

lemma publish_step_fails:
  assumes "sys_ok dh s" and "sy_thread s i = Publishing tx n pr"
    and "s_version (sy_root s) \<noteq> s_version (pr_checked_root pr)"
  shows "sys_ok dh (publish_step s i tx n pr)"
proof -
  have step: "publish_step s i tx n pr = set_thread (set_db s ((sy_db s)\<lparr>db_planes := sy_planes s\<rparr>)) i
      (after_publish tx n (Inl \<lparr>rr_data = pr_data pr, rr_checked_root = pr_checked_root pr\<rparr>))"
    using assms(3) by (simp add: publish_step_def try_publish_def try_publish_write_root_def)
  have th: "threads_ok dh (sy_roots s) (db_monotonic (sy_db s)) (sy_thread s)"
    using assms(1) by (simp add: sys_ok_def)
  have "threads_ok dh (sy_roots s) (db_monotonic (sy_db s)) ((sy_thread s)(i :=
      after_publish tx n (Inl \<lparr>rr_data = pr_data pr, rr_checked_root = pr_checked_root pr\<rparr>)))"
    by (rule threads_ok_upd [OF th]) (use threads_okD(1) [OF th, of i] assms(2) in \<open>auto simp: after_publish_def\<close>)
  then show ?thesis using assms(1) by (simp add: sys_ok_def step)
qed

text \<open>A publication that succeeds replaces exactly the root it was checked against.\<close>

lemma publish_step_succeeds:
  assumes "sys_ok dh s" and "sy_thread s i = Publishing tx n pr"
    and "s_version (sy_root s) = s_version (pr_checked_root pr)"
  shows "sys_ok dh (publish_step s i tx n pr)"
    and "sy_roots (publish_step s i tx n pr) = sy_roots s @ [pr_candidate pr]"
    and "sy_commits (publish_step s i tx n pr) =
      sy_commits s @ [(tx_snapshot_version tx, cd_working_sets (pr_data pr))]"
proof -
  let ?H = "sy_roots s" and ?m = "db_monotonic (sy_db s)" and ?ws = "cd_working_sets (pr_data pr)"
  let ?pb = "\<lparr>pb_working_sets = ?ws, pb_publication_version = s_version (pr_candidate pr),
    pb_tx_timestamp = cd_tx_timestamp (pr_data pr)\<rparr>"
  have hist: "hist_ok dh ?H ?m" and last: "last ?H = sy_root s" and com: "commits_ok ?H (sy_commits s)"
    and th: "threads_ok dh ?H ?m (sy_thread s)"
    using assms(1) by (simp_all add: sys_ok_def)
  note top = hist_top [OF hist]
  obtain c where c: "pr_checked_root pr = ?H ! c" "commit_ok dh ?H tx (pr_data pr) c" "pr_ok dh pr"
    using threads_okD(1) [OF th, of i] assms(2) by auto
  then have "c < length ?H" by (simp add: commit_ok_def)
  then have ctop: "c = top_of ?H"
    using assms(3) c(1) hist_okD(2) [OF hist, of c] hist_okD(2) [OF hist top(1)] top(2) last by metis
  have ts: "thread_ts (sy_thread s i) = Some (tx_ts tx)" using assms(2) by simp
  have pub: "publishes dh ?H ?m (tx_ts tx) ?ws (cd_bloom (pr_data pr)) (pr_candidate pr)"
    using c hist top(2) ctop threads_okD(2,3) [OF th ts]
    by (auto simp: publishes_def pr_ok_def commit_ok_def cd_ok_def)
  let ?s = "publish_step s i tx n pr"
  have step: "?s = record_publication (set_thread (set_db s ((sy_db s)\<lparr>db_planes :=
      \<lparr>root_state = pr_candidate pr, cache_pub = \<lparr>cp_version = s_version (pr_candidate pr),
        cp_caches = s_caches (pr_candidate pr)\<rparr>\<rparr>\<rparr>)) i (Persisting ?pb)) tx ?pb"
    using assms(3) by (simp add: publish_step_def try_publish_def try_publish_write_root_def after_publish_def)
  show roots: "sy_roots ?s = ?H @ [pr_candidate pr]"
    and commits: "sy_commits ?s = sy_commits s @ [(tx_snapshot_version tx, ?ws)]"
    by (simp_all add: step record_publication_def)
  have "sy_thread ?s = (sy_thread s)(i := Persisting ?pb)" "sy_root ?s = pr_candidate pr"
    "db_monotonic (sy_db ?s) = ?m"
    by (simp_all add: step record_publication_def)
  moreover have "threads_ok dh (?H @ [pr_candidate pr]) ?m ((sy_thread s)(i := Persisting ?pb))"
    by (rule threads_ok_publish [OF th pub ts]) simp_all
  moreover have "commits_ok (?H @ [pr_candidate pr]) (sy_commits s @ [(tx_snapshot_version tx, ?ws)])"
    using c(2) ctop by (intro commits_ok_publish [OF com pub]) (simp_all add: commit_ok_def)
  ultimately show "sys_ok dh ?s"
    using hist_publish [OF pub] by (simp add: sys_ok_def roots commits)
qed

section \<open>Reachable states\<close>

lemma seed_all_ok:
  "seed_all rels rs n = Inr (n', ixs) \<Longrightarrow> map fst ixs = rs \<and> n \<le> n'
     \<and> (\<forall>(r, i) \<in> set ixs. \<exists>mx. seeded_index_with_max_timestamp (rels r) = Inr (i, mx) \<and> mx \<le> n')"
proof (induction rs arbitrary: n ixs)
  case (Cons r rs)
  then obtain i mx ixs' where seed: "seeded_index_with_max_timestamp (rels r) = Inr (i, mx)"
    and rest: "seed_all rels rs (max n mx) = Inr (n', ixs')" and ixs: "ixs = (r, i) # ixs'"
    by (auto simp: rbind_Inr_iff split: prod.splits)
  from Cons.IH [OF rest] show ?case by (auto simp: seed ixs)
qed simp

lemma seeded_root:
  assumes "\<And>r. provider_ok (sources r)"
    and "relations_snapshot (create_relation disp sources) v n cs = Inr root"
  shows "root_wf root" "s_version root = v" "s_commit_bloom root = None" "bloom_since_version root = 0"
    "s_caches root = cs" "idx_is_secondary (s_index root r) = relation_is_secondary r"
    "idx_lookup (s_index root r) k = Some (mk_entry ts c) \<longleftrightarrow> src_get (sources r) k = Inr (Some (ts, c))"
proof -
  let ?rels = "create_relation disp sources"
  from assms(2) obtain ixs where seed: "seed_all ?rels ALL_RELATIONS n = Inr (committed_ts root, ixs)"
    and root: "s_version root = v" "s_commit_bloom root = None" "bloom_since_version root = 0"
      "s_index root = (\<lambda>r. the (map_of ixs r))"
    by (auto simp: relations_snapshot_def rbind_Inr_iff split: prod.splits)
  note ok = seed_all_ok [OF seed]
  have seeded: "\<exists>mx. seeded_index_with_max_timestamp (?rels r) = Inr (s_index root r, mx) \<and> mx \<le> committed_ts root" for r
  proof -
    have "r \<in> fst ` set ixs" using ok ALL_RELATIONS_all by (metis list.set_map)
    then obtain i where i: "map_of ixs r = Some i" by (metis weak_map_of_SomeI imageE prod.collapse)
    then show ?thesis using ok map_of_SomeD [OF i] by (auto simp: root)
  qed
  have "idx_is_secondary (rel_index_factory (?rels r) ()) = relation_is_secondary r"
    by (simp add: create_relation_def relation_new_def relation_new_with_secondary_def primary_index_factory_def
        secondary_index_factory_def Let_def)
  with seeded [of r] show "idx_is_secondary (s_index root r) = relation_is_secondary r"
    using seeded_index_secondary by blast
  have factory: "rel_index_factory (?rels r) \<in> {primary_index_factory, secondary_index_factory}"
    "rel_source (?rels r) = sources r" for r
    by (simp_all add: create_relation_def relation_new_def relation_new_with_secondary_def Let_def)
  with assms(1) have "provider_ok (rel_source (?rels r))" for r by simp
  with seeded [of r] show "idx_lookup (s_index root r) k = Some (mk_entry ts c) \<longleftrightarrow> src_get (sources r) k = Inr (Some (ts, c))"
    using seeded_index_exact(3) [OF factory(1)] factory(2) by metis
  from factory seeded have "idx_ok (s_index root r) \<and> idx_is_provider_fully_loaded (s_index root r)
      \<and> (\<forall>k e. idx_lookup (s_index root r) k = Some e \<longrightarrow> ets e \<le> committed_ts root)" for r
    using seeded_index_exact [of "?rels r" "s_index root r"] assms(1) [of r] by (metis le_trans)
  then show "root_wf root" unfolding root_wf_def all_loaded_def by blast
qed (use assms(2) in \<open>auto simp: relations_snapshot_def rbind_Inr_iff split: prod.splits\<close>)

lemma sys_ok_start:
  assumes "sys_start disp s"
  shows "sys_ok dh s"
proof -
  from assms obtain sources saved db where prov: "\<And>r. provider_ok (sources r)"
    and opened: "try_open (create_relation disp sources) saved = Inr db"
    and s: "s = \<lparr>sy_db = db, sy_thread = (\<lambda>_. Idle), sy_roots = [root_state (db_planes db)], sy_commits = []\<rparr>"
    unfolding sys_start_def by blast
  from opened obtain root where snap: "relations_snapshot (create_relation disp sources) 0 0 caches_new = Inr root"
    and db: "root_state (db_planes db) = root" "db_monotonic db = max (committed_ts root + 1) 1"
    by (auto simp: try_open_def rbind_Inr_iff snapshot_planes_new_def)
  note root = seeded_root [OF prov snap]
  have "versions_agree [root]" by (simp add: versions_agree_def)
  then have "hist_ok dh [root] (db_monotonic db)"
    using root by (simp add: hist_ok_def db bloom_cov_def)
  then show ?thesis
    by (simp add: sys_ok_def s db commits_ok_def threads_ok_def)
qed

lemma sys_ok_set_thread:
  assumes "sys_ok dh s" and "thread_ok dh (sy_roots s) t"
    and "thread_ts t = None \<or> thread_ts t = thread_ts (sy_thread s i)"
    and "db_monotonic db = db_monotonic (sy_db s)" and "root_state (db_planes db) = sy_root s"
  shows "sys_ok dh (set_thread (set_db s db) i t)"
  using assms threads_ok_upd [of dh "sy_roots s" "db_monotonic (sy_db s)" "sy_thread s" t i]
  by (simp add: sys_ok_def)

lemma set_db_same [simp]: "set_db s (sy_db s) = s"
  by (simp add: set_db_def)

lemma sys_ok_local:
  assumes "sys_ok dh s" and "thread_ok dh (sy_roots s) t"
    and "thread_ts t = None \<or> thread_ts t = thread_ts (sy_thread s i)"
  shows "sys_ok dh (set_thread s i t)"
  using sys_ok_set_thread [OF assms, of "sy_db s"] by simp

lemma sys_ok_take_timestamp:
  assumes "sys_ok dh s" and "snap \<in> set (sy_roots s)"
  shows "sys_ok dh (set_thread (set_db s ((sy_db s)\<lparr>db_monotonic := db_monotonic (sy_db s) + 1\<rparr>)) i
      (Running (relations_start_transaction rels (tx_seed_of (db_monotonic (sy_db s)) snap cs))))"
proof -
  let ?H = "sy_roots s" and ?m = "db_monotonic (sy_db s)"
  let ?t = "relations_start_transaction rels (tx_seed_of ?m snap cs)"
  have hist: "hist_ok dh ?H ?m" and th: "threads_ok dh ?H ?m (sy_thread s)"
    using assms(1) by (simp_all add: sys_ok_def)
  obtain u where u: "u < length ?H" "?H ! u = snap" using assms(2) by (auto simp: in_set_conv_nth)
  then have "tx_ok snap ?t"
    using hist_okD(1,3) [OF hist u(1)] by (intro tx_ok_start) simp_all
  then have "thread_ok dh ?H (Running ?t)" using assms(2) by auto
  moreover have "thread_ts (Running ?t) = Some ?m"
    by (simp add: relations_start_transaction_def tx_seed_of_def Let_def)
  ultimately have "threads_ok dh ?H (Suc ?m) ((sy_thread s)(i := Running ?t))"
    using threads_ok_new [OF th] hist_fresh [OF hist] by simp
  then show ?thesis
    using assms(1) hist_ok_mono [OF hist, of "Suc ?m"] by (simp add: sys_ok_def)
qed

lemma root_in_history:
  assumes "sys_ok dh s"
  shows "sy_root s \<in> set (sy_roots s)"
  using assms unfolding sys_ok_def hist_ok_def by (metis last_in_set)

lemma thread_okD: "sys_ok dh s \<Longrightarrow> thread_ok dh (sy_roots s) (sy_thread s i)"
  by (simp add: sys_ok_def threads_ok_def)

lemma sys_ok_prepare:
  assumes "sys_ok dh s" and "sy_thread s i = Running t"
    and "prepare dh rd rels (sy_root s) adm (into_working_sets dh t) = Some res"
  shows "sys_ok dh (set_thread s i (after_prepare (wt_tx t) res))"
proof (rule sys_ok_local [OF assms(1)])
  have hist: "hist_ok dh (sy_roots s) (db_monotonic (sy_db s))" and last: "last (sy_roots s) = sy_root s"
    and th: "threads_ok dh (sy_roots s) (db_monotonic (sy_db s)) (sy_thread s)"
    using assms(1) by (simp_all add: sys_ok_def)
  show "thread_ok dh (sy_roots s) (after_prepare (wt_tx t) res)"
  proof (cases res)
    case (Inr pr)
    obtain snap where snap: "snap \<in> set (sy_roots s)" "tx_ok snap t"
      using thread_okD [OF assms(1), of i] assms(2) by auto
    have fresh: "fresh_ts (sy_roots s) (tx_ts (wt_tx t))"
      using threads_okD(3) [OF th, of i] assms(2) by simp
    from prepare_commit_ok [OF hist snap fresh, of rd rels adm pr] assms(3) Inr last
    show ?thesis
      using hist_top(2) [OF hist] by (auto simp: after_prepare_def intro!: exI [of _ "top_of (sy_roots s)"])
  qed (auto simp: after_prepare_def split: prepare_error.split)
  show "thread_ts (after_prepare (wt_tx t) res) = None
      \<or> thread_ts (after_prepare (wt_tx t) res) = thread_ts (sy_thread s i)"
    using assms(2) by (auto simp: after_prepare_def split: sum.split prepare_error.split)
qed

lemma sys_ok_rebase:
  assumes "sys_ok dh s" and "sy_thread s i = Rebasing tx n rr"
    and "rebase dh rd (sy_root s) rr = Some res"
  shows "sys_ok dh (set_thread s i (after_rebase tx n res))"
proof (rule sys_ok_local [OF assms(1)])
  have hist: "hist_ok dh (sy_roots s) (db_monotonic (sy_db s))" and last: "last (sy_roots s) = sy_root s"
    using assms(1) by (simp_all add: sys_ok_def)
  show "thread_ok dh (sy_roots s) (after_rebase tx n res)"
  proof (cases res)
    case (Inr pr)
    obtain c where c: "n < MAX_REBASE_ATTEMPTS" "rr_checked_root rr = sy_roots s ! c"
      "commit_ok dh (sy_roots s) tx (rr_data rr) c"
      using thread_okD [OF assms(1), of i] assms(2) by auto
    from rebase_commit_ok [OF hist c(3,2), of rd pr] assms(3) Inr last c(1)
    show ?thesis
      using hist_top(2) [OF hist] by (auto simp: after_rebase_def intro!: exI [of _ "top_of (sy_roots s)"])
  qed (simp add: after_rebase_def)
  show "thread_ts (after_rebase tx n res) = None \<or> thread_ts (after_rebase tx n res) = thread_ts (sy_thread s i)"
    using assms(2) by (auto simp: after_rebase_def split: sum.split)
qed

lemma sys_ok_step: "sys_step dh rd i s s' \<Longrightarrow> sys_ok dh s \<Longrightarrow> sys_ok dh s'"
proof (induction rule: sys_step.induct)
  case (load_root s)
  then show ?case
    using root_in_history [of dh s] by (intro sys_ok_local) (simp_all add: load_root_def)
next
  case (load_caches s snap)
  then show ?case
    using thread_okD [of dh s i] by (intro sys_ok_local) auto
next
  case (take_timestamp s snap cs)
  then show ?case
    using thread_okD [of dh s i] by (intro sys_ok_take_timestamp) auto
next
  case (work s t r rt)
  then show ?case
    using thread_okD [of dh s i] by (intro sys_ok_local) (auto intro: tx_ok_work)
next
  case (note_reads s t obs props cs memo revision)
  then show ?case
    using thread_okD [of dh s i] by (intro sys_ok_local) (auto simp: tx_ok_def)
next
  case (read_only s t)
  then show ?case by (intro sys_ok_local) (simp_all add: commit_read_only_def)
next
  case (store s tx cs)
  then show ?case by (intro sys_ok_set_thread) (simp_all add: store_cache_def)
next
  case (prepare s t adm res)
  then show ?case using sys_ok_prepare by (simp add: load_root_def)
next
  case (publish s tx n pr)
  then show ?case using publish_step_succeeds(1) publish_step_fails by metis
next
  case (rebase s tx n rr res)
  then show ?case using sys_ok_rebase by (simp add: load_root_def)
next
  case (persist s pb seqs batch result)
  then show ?case by (intro sys_ok_set_thread) simp_all
next
  case (leave s res)
  then show ?case by (intro sys_ok_local) simp_all
qed (simp_all add: sys_ok_def)

lemma sys_reachable_ok: "sys_reachable dh rd s \<Longrightarrow> sys_ok dh s"
  by (induction rule: sys_reachable.induct) (auto intro: sys_ok_start sys_ok_step)

section \<open>Progress\<close>

text \<open>
  The steps a commit has left to make at most: two for each attempt that remains, and the hand-over.
\<close>

fun commit_rank :: "'x thread \<Rightarrow> nat" where
  "commit_rank (Publishing tx n pr) = 2 * (MAX_REBASE_ATTEMPTS - n) + 3"
| "commit_rank (Rebasing tx n rr) = 2 * (MAX_REBASE_ATTEMPTS - n) + 2"
| "commit_rank (Persisting pb) = 1"
| "commit_rank th = 0"

lemma sys_step_other: "sys_step dh rd j s s' \<Longrightarrow> j \<noteq> i \<Longrightarrow> sy_thread s' i = sy_thread s i"
  by (induction rule: sys_step.induct)
    (auto simp: publish_step_def record_publication_def Let_def split: prod.split sum.split)

lemma commit_rank_step:
  assumes "sys_ok dh s" and "sys_step dh rd i s s'" and "commit_rank (sy_thread s i) > 0"
  shows "commit_rank (sy_thread s' i) < commit_rank (sy_thread s i)"
  using assms(2,1,3)
proof (induction rule: sys_step.induct)
  case (publish s tx n pr)
  then show ?case
    using thread_okD [OF publish(2), of i]
    by (auto simp: publish_step_def record_publication_def Let_def after_publish_def
        split: prod.split sum.split)
next
  case (rebase s tx n rr res)
  then show ?case
    using thread_okD [OF rebase(3), of i]
    by (auto simp: after_rebase_def split: sum.split)
qed simp_all

lemma commit_can_step:
  assumes "sys_ok dh s" and "commit_rank (sy_thread s i) > 0"
    and "\<And>tx n rr. sy_thread s i = Rebasing tx n rr \<Longrightarrow> parents_wf (cd_working_sets (rr_data rr))"
  shows "\<exists>s'. sys_step dh rd i s s'"
proof (cases "sy_thread s i")
  case (Publishing tx n pr)
  then show ?thesis by (blast intro: sys_step.publish)
next
  case (Rebasing tx n rr)
  then have "cd_ok dh (rr_data rr)"
    using thread_okD [OF assms(1), of i] by (auto simp: commit_ok_def)
  moreover obtain res where "check_property_policies rd (cd_working_sets (rr_data rr)) (sy_root s) = Some res"
    using policy_check_returns [OF assms(3) [OF Rebasing]] by blast
  ultimately obtain res' where "rebase dh rd (load_root (sy_planes s)) rr = Some res'"
    using rebase_total [of dh rr rd "sy_root s"] by (auto simp: load_root_def)
  then show ?thesis using Rebasing by (blast intro: sys_step.rebase)
next
  case (Persisting pb)
  then show ?thesis by (metis sys_step.persist prod.exhaust)
qed (use assms(2) in simp_all)

text \<open>Without a concurrent commit, nothing is checked and the commit goes through.\<close>

lemma prepare_uncontended:
  assumes "tx_snapshot_version (wss_tx wss) = s_version root"
  shows "\<exists>pr. prepare dh rd rels root Admitted wss = Some (Inr pr)"
proof -
  let ?ws = "clear_clobber_hints (wss_relations wss)"
  have "prepare_check rd rels root wss = Some (Inr (begin_check_all rels root ?ws, ?ws))"
    using assms by (simp add: prepare_check_def extract_relation_working_sets_def skip_conflict_check_def Let_def)
  moreover obtain y where "prepare_apply_all dh (begin_check_all rels root ?ws) ?ws = Some y"
    using prepare_apply_all_ok [OF begin_check_all_fits] by metis
  ultimately show ?thesis by (cases y) (simp add: prepare_def Let_def)
qed

section \<open>An example run\<close>

text \<open>Opening an empty database, and one transaction that creates an object.\<close>

definition demo_rd :: "db_key relation_domain" where
  "demo_rd = \<lparr>rd_display = (\<lambda>_. ''key''), rd_target = key_target\<rparr>"

definition demo_dh :: "db_key hasher" where
  "demo_dh k = (case k of KObj ob \<Rightarrow> (1, 2) | _ \<Rightarrow> (3, 4))"

definition demo_rels :: "'x relations" where
  "demo_rels = create_relation (\<lambda>_. ''key'') (\<lambda>_. list_provider [])"

lemma demo_rels_seed: "\<exists>i. seeded_index_with_max_timestamp (demo_rels r) = Inr (i, 0)"
  by (simp add: demo_rels_def seeded_index_with_max_timestamp_def provider_seed_def list_provider_def
      create_relation_def relation_new_def relation_new_with_secondary_def Let_def)

lemma seed_all_empty: "\<exists>ixs. seed_all (demo_rels :: 'x relations) rs n = Inr (n, ixs)"
proof (induction rs)
  case (Cons r rs)
  obtain i where "seeded_index_with_max_timestamp (demo_rels r :: (db_key, 'x db_value) relation) = Inr (i, 0)"
    using demo_rels_seed by blast
  with Cons show ?case by auto
qed simp

lemma demo_start:
  obtains s :: "'x system" where "sys_start (\<lambda>_. ''key'') s" "\<And>i. sy_thread s i = Idle"
    "s_version (sy_root s) = 0" "sy_commits s = []"
proof -
  obtain ixs where "seed_all (demo_rels :: 'x relations) ALL_RELATIONS 0 = Inr (0, ixs)"
    using seed_all_empty by blast
  then obtain db :: "'x moor_db" where db: "try_open demo_rels None = Inr db"
    and v: "s_version (root_state (db_planes db)) = 0"
    by (auto simp: try_open_def relations_snapshot_def snapshot_planes_new_def)
  let ?s = "\<lparr>sy_db = db, sy_thread = (\<lambda>_. Idle), sy_roots = [root_state (db_planes db)], sy_commits = []\<rparr>"
  have "sys_start (\<lambda>_. ''key'') ?s"
    unfolding sys_start_def
    by (intro exI [of _ "\<lambda>_. list_provider []"] exI [of _ None] exI [of _ db])
      (use db in \<open>simp add: list_provider_ok demo_rels_def\<close>)
  then show ?thesis using that [of ?s] v by simp
qed

lemma demo_running:
  obtains s :: "'x system" and t where "sys_reachable demo_dh demo_rd s" "sy_thread s 0 = Running t"
    "wt_has_mutations t" "tx_snapshot_version (wt_tx t) = s_version (sy_root s)" "sy_commits s = []"
proof -
  obtain s0 :: "'x system" where s0: "sys_start (\<lambda>_. ''key'') s0" "sy_thread s0 0 = Idle"
    "s_version (sy_root s0) = 0" "sy_commits s0 = []"
    by (rule demo_start) blast
  have r0: "sys_reachable demo_dh demo_rd s0" using s0(1) by (rule sys_reachable.start)
  define s1 where "s1 = set_thread s0 0 (LoadedRoot (load_root (sy_planes s0)))"
  have r1: "sys_reachable demo_dh demo_rd s1"
    unfolding s1_def by (rule sys_reachable.step [OF r0 sys_step.load_root [OF s0(2)]])
  have t1: "sy_thread s1 0 = LoadedRoot (sy_root s0)" by (simp add: s1_def load_root_def)
  obtain cs where "sys_step demo_dh demo_rd 0 s1 (set_thread s1 0 (LoadedCaches (sy_root s0) cs))"
    using sys_step.load_caches [OF t1] by blast
  then have r2: "sys_reachable demo_dh demo_rd (set_thread s1 0 (LoadedCaches (sy_root s0) cs))"
    by (rule sys_reachable.step [OF r1])
  define s2 where "s2 = set_thread s1 0 (LoadedCaches (sy_root s0) cs)"
  have t2: "sy_thread s2 0 = LoadedCaches (sy_root s0) cs" by (simp add: s2_def)
  define t where "t = relations_start_transaction (db_relations (sy_db s2)) (tx_seed_of (db_monotonic (sy_db s2)) (sy_root s0) cs)"
  define s3 where "s3 = set_thread (set_db s2 ((sy_db s2)\<lparr>db_monotonic := db_monotonic (sy_db s2) + 1\<rparr>)) 0 (Running t)"
  have r3: "sys_reachable demo_dh demo_rd s3"
    unfolding s3_def t_def using r2 sys_step.take_timestamp [OF t2] by (auto simp: s2_def intro: sys_reachable.step)
  have t3: "sy_thread s3 0 = Running t" by (simp add: s3_def)
  define rt where "rt = fst (rt_upsert (wt_rel t ObjectFlags) (KObj SYSTEM_OBJECT) (VFlags 0))"
  define t' where "t' = t\<lparr>wt_rel := (wt_rel t)(ObjectFlags := rt)\<rparr>"
  have "sys_step demo_dh demo_rd 0 s3 (set_thread s3 0 (Running t'))"
    unfolding t'_def rt_def by (rule sys_step.work [OF t3 rt_step.upsert])
  then have r4: "sys_reachable demo_dh demo_rd (set_thread s3 0 (Running t'))"
    by (rule sys_reachable.step [OF r3])
  have "rt_local (wt_rel t r) = lo_new" for r
    by (simp add: t_def relations_start_transaction_def start_borrowed_def Let_def)
  moreover obtain v where "rt_base (wt_rel t ObjectFlags) (KObj SYSTEM_OBJECT) = Inr v"
    using thread_okD [OF sys_reachable_ok [OF r3], of 0] t3 by (auto simp: tx_ok_base)
  ultimately have "rt_has_mutations rt"
    by (simp add: rt_def rt_upsert_nf rt_has_mutations_def lo_insert_def lo_is_empty_def lo_new_def)
  then have "wt_has_mutations t'"
    using ALL_RELATIONS_all [of ObjectFlags] by (auto simp: wt_has_mutations_def t'_def list_ex_iff)
  moreover have "tx_snapshot_version (wt_tx t') = s_version (sy_root s3)"
    by (simp add: t'_def t_def s3_def s2_def s1_def relations_start_transaction_def tx_seed_of_def Let_def)
  ultimately show ?thesis
    using that [OF r4, of t'] s0(4) by (simp add: s3_def s2_def s1_def)
qed

lemma uncontended_run:
  assumes "sys_ok dh s" and "sy_thread s i = Running t" and "wt_has_mutations t"
    and "tx_snapshot_version (wt_tx t) = s_version (sy_root s)"
  obtains s1 s2 s3 where "sys_step dh rd i s s1" "sys_step dh rd i s1 s2" "sys_step dh rd i s2 s3"
    "sy_thread s3 i = Finished (Inr (CommitSuccess True (tx_ts (wt_tx t))))"
    "sy_roots s3 = sy_roots s @ [sy_root s3]"
    "sy_commits s3 = sy_commits s @ [(s_version (sy_root s), clear_clobber_hints (wss_relations (into_working_sets dh t)))]"
proof -
  let ?wss = "into_working_sets dh t"
  obtain pr where pr: "prepare dh rd (db_relations (sy_db s)) (load_root (sy_planes s)) Admitted ?wss = Some (Inr pr)"
    using prepare_uncontended [of ?wss "sy_root s" dh rd "db_relations (sy_db s)"] assms(4) by (auto simp: load_root_def)
  define s1 where "s1 = set_thread s i (Publishing (wt_tx t) 0 pr)"
  have st1: "sys_step dh rd i s s1"
    using sys_step.prepare [OF assms(2,3) pr] by (simp add: s1_def after_prepare_def)
  have ok1: "sys_ok dh s1" by (rule sys_ok_step [OF st1 assms(1)])
  have th1: "sy_thread s1 i = Publishing (wt_tx t) 0 pr" by (simp add: s1_def)
  obtain snap where snap: "snap \<in> set (sy_roots s)" "tx_ok snap t"
    using thread_okD [OF assms(1), of i] assms(2) by auto
  have hist: "hist_ok dh (sy_roots s) (db_monotonic (sy_db s))" "last (sy_roots s) = sy_root s"
    using assms(1) by (simp_all add: sys_ok_def)
  have loaded: "all_loaded (sy_root s)"
    using hist_okD(1) [OF hist(1) hist_top(1) [OF hist(1)]] hist_top(2) [OF hist(1)] hist(2)
    by (simp add: root_wf_def)
  note prep = prepare_prepared [OF loaded tx_ok_wf [OF snap(2)] pr [unfolded load_root_def]]
  define s2 where "s2 = publish_step s1 i (wt_tx t) 0 pr"
  have st2: "sys_step dh rd i s1 s2"
    unfolding s2_def by (rule sys_step.publish [OF th1])
  have eq: "s_version (sy_root s1) = s_version (pr_checked_root pr)"
    using prep(2) by (simp add: s1_def)
  note pub = publish_step_succeeds [OF ok1 th1 eq]
  have th2: "sy_thread s2 i = Persisting \<lparr>pb_working_sets = cd_working_sets (pr_data pr),
      pb_publication_version = s_version (pr_candidate pr), pb_tx_timestamp = tx_ts (wt_tx t)\<rparr>"
    and root2: "sy_root s2 = pr_candidate pr"
    using eq prep(4) by (simp_all add: s2_def publish_step_def try_publish_def try_publish_write_root_def
        after_publish_def record_publication_def Let_def)
  obtain seqs batch where enq: "enqueue_persistence (db_sequences (sy_db s2)) \<lparr>pb_working_sets = cd_working_sets (pr_data pr),
      pb_publication_version = s_version (pr_candidate pr), pb_tx_timestamp = tx_ts (wt_tx t)\<rparr> =
      (seqs, batch, CommitSuccess True (tx_ts (wt_tx t)))"
    by (simp add: enqueue_persistence_def claim_sequences_def seq_claim_dirty_def)
  define s3 where "s3 = set_thread (set_db s2 ((sy_db s2)\<lparr>db_sequences := seqs\<rparr>)) i
    (Finished (Inr (CommitSuccess True (tx_ts (wt_tx t)))))"
  have "sys_step dh rd i s2 s3"
    unfolding s3_def by (rule sys_step.persist [OF th2 enq])
  then show ?thesis
    using that [OF st1 st2, of s3] pub prep(3) assms(4) root2 by (simp add: s3_def s2_def s1_def)
qed

section \<open>Properties\<close>

text \<open>
  C1. First committer wins, for any number of threads, any interleaving of their steps, and any
  history of commits: the \<open>n\<close>-th publication replaces the root of version \<open>n\<close> by the transaction's
  writes laid over it, and every key it wrote has in that root still the entry it had in the
  snapshot the transaction started from. So no committed update is overwritten by a transaction
  that did not see it. Exempt are keys inserted as new and unique, and property values whose
  permissions accept overlapping writes.
\<close>

theorem first_committer_wins:
  assumes "sys_reachable dh rd s" and "n < length (sy_commits s)" and "sy_commits s ! n = (u, ws)"
  shows "length (sy_roots s) = Suc (length (sy_commits s)) \<and> last (sy_roots s) = sy_root s \<and> u \<le> n
    \<and> (\<forall>r. idx_lookup (s_index (sy_roots s ! Suc n) r) =
         overlay clone_for_commit (tuples (ws_of ws r)) (idx_lookup (s_index (sy_roots s ! n) r)))
    \<and> (\<forall>r k x. map_of (tuples (ws_of ws r)) k = Some x \<longrightarrow> \<not> guaranteed_unique x \<longrightarrow> \<not> can_clobber ws r k \<longrightarrow>
         idx_lookup (s_index (sy_roots s ! u) r) k = idx_lookup (s_index (sy_roots s ! n) r) k)"
proof -
  have ok: "sys_ok dh s" using assms(1) by (rule sys_reachable_ok)
  show ?thesis
    using ok assms(2,3) by (auto simp: sys_ok_def commits_ok_def unmoved_def value_at_eq)
qed

lemma demo_committed:
  obtains s :: "unit system" and ws where "sys_reachable demo_dh demo_rd s" "sy_commits s = [(0, ws)]"
proof -
  obtain s :: "unit system" and t where s: "sys_reachable demo_dh demo_rd s" "sy_thread s 0 = Running t"
    "wt_has_mutations t" "tx_snapshot_version (wt_tx t) = s_version (sy_root s)" "sy_commits s = []"
    by (rule demo_running)
  obtain s1 s2 s3 where steps: "sys_step demo_dh demo_rd 0 s s1" "sys_step demo_dh demo_rd 0 s1 s2"
      "sys_step demo_dh demo_rd 0 s2 s3"
    and c: "sy_commits s3 = sy_commits s @ [(s_version (sy_root s), clear_clobber_hints (wss_relations (into_working_sets demo_dh t)))]"
    by (rule uncontended_run [OF sys_reachable_ok [OF s(1)] s(2-4)]) blast
  have "sys_reachable demo_dh demo_rd s3"
    using s(1) steps by (blast intro: sys_reachable.step)
  moreover have "s_version (sy_root s) = 0"
    using sys_reachable_ok [OF s(1)] s(5) by (auto simp: sys_ok_def commits_ok_def hist_ok_def length_Suc_conv)
  ultimately show ?thesis using that c s(5) by simp
qed

theorem first_committer_wins_witness:
  "\<exists>(s :: unit system) ws. sys_reachable demo_dh demo_rd s \<and> sy_commits s = [(0, ws)]
     \<and> (\<forall>r. idx_lookup (s_index (sy_root s) r) =
          overlay clone_for_commit (tuples (ws_of ws r)) (idx_lookup (s_index (sy_roots s ! 0) r)))"
proof -
  obtain s :: "unit system" and ws where s: "sys_reachable demo_dh demo_rd s" "sy_commits s = [(0, ws)]"
    by (rule demo_committed)
  note w = first_committer_wins [OF s(1), of 0 0 ws]
  then have l: "length (sy_roots s) = 2" "last (sy_roots s) = sy_root s" using s(2) by simp_all
  then have "sy_roots s ! Suc 0 = sy_root s" by (metis One_nat_def diff_Suc_1 last_conv_nth list.size(3) numeral_2_eq_2 zero_neq_numeral)
  then show ?thesis using w s by auto
qed

text \<open>
  C24. Repeatable reads: whatever the other threads commit in the meantime, a running transaction
  reads, for every key it has not written itself, the entry of the root it started from, in every
  relation; and that root is one of the published ones, of the version the transaction carries.
\<close>

theorem repeatable_reads:
  assumes "sys_reachable dh rd s" and "sy_thread s i = Running t"
  shows "tx_snapshot_version (wt_tx t) < length (sy_roots s)
    \<and> (\<forall>r k. lo_get (rt_local (wt_rel t r)) k = None \<longrightarrow>
         rt_get (wt_rel t r) k =
           Inr (map_option evalue (idx_lookup (s_index (sy_roots s ! tx_snapshot_version (wt_tx t)) r) k)))"
proof -
  have ok: "sys_ok dh s" using assms(1) by (rule sys_reachable_ok)
  obtain snap where snap: "snap \<in> set (sy_roots s)" "tx_ok snap t"
    using thread_okD [OF ok, of i] assms(2) by auto
  then obtain u where u: "u < length (sy_roots s)" "sy_roots s ! u = snap"
    by (auto simp: in_set_conv_nth)
  then have "tx_snapshot_version (wt_tx t) = u"
    using snap(2) hist_okD(2) [of dh "sy_roots s" "db_monotonic (sy_db s)" u] ok
    by (simp add: tx_ok_def sys_ok_def)
  then show ?thesis
    using u by (simp add: rt_get_eq_view rt_view_def tx_ok_base [OF snap(2)] option.map_comp comp_def)
qed

theorem repeatable_reads_witness:
  "\<exists>(s :: unit system) t. sys_reachable demo_dh demo_rd s \<and> sy_thread s 0 = Running t
     \<and> tx_snapshot_version (wt_tx t) < length (sy_roots s)"
proof -
  obtain s :: "unit system" and t where s: "sys_reachable demo_dh demo_rd s" "sy_thread s 0 = Running t"
    by (rule demo_running) blast
  with repeatable_reads [OF s] show ?thesis by blast
qed





text \<open>
  C27. Without contention a commit succeeds: when no other commit was published since the
  transaction started and the batch writer admits it, three steps of its thread (prepare, publish,
  hand over) return success with the transaction's timestamp and publish its writes laid over the
  root.
\<close>

theorem uncontended_commit_succeeds:
  assumes "sys_reachable dh rd s" and "sy_thread s i = Running t" and "wt_has_mutations t"
    and "tx_snapshot_version (wt_tx t) = s_version (sy_root s)"
  shows "\<exists>s1 s2 s3. sys_step dh rd i s s1 \<and> sys_step dh rd i s1 s2 \<and> sys_step dh rd i s2 s3
    \<and> sy_thread s3 i = Finished (Inr (CommitSuccess True (tx_ts (wt_tx t))))
    \<and> sy_roots s3 = sy_roots s @ [sy_root s3]
    \<and> (\<forall>r. idx_lookup (s_index (sy_root s3) r) =
         overlay clone_for_commit (lo_entries (rt_local (wt_rel t r))) (idx_lookup (s_index (sy_root s) r)))"
proof -
  have ok: "sys_ok dh s" using assms(1) by (rule sys_reachable_ok)
  obtain s1 s2 s3 where st: "sys_step dh rd i s s1" "sys_step dh rd i s1 s2" "sys_step dh rd i s2 s3"
    and fin: "sy_thread s3 i = Finished (Inr (CommitSuccess True (tx_ts (wt_tx t))))"
    and roots: "sy_roots s3 = sy_roots s @ [sy_root s3]"
    and com: "sy_commits s3 = sy_commits s @ [(s_version (sy_root s), clear_clobber_hints (wss_relations (into_working_sets dh t)))]"
    by (rule uncontended_run [OF ok assms(2-4)])
  have "sys_ok dh s3" using ok st by (blast intro: sys_ok_step)
  then have c: "commits_ok (sy_roots s3) (sy_commits s3)" by (simp add: sys_ok_def)
  have l: "length (sy_roots s) = Suc (length (sy_commits s))" "last (sy_roots s) = sy_root s" "sy_roots s \<noteq> []"
    using ok by (auto simp: sys_ok_def commits_ok_def)
  then have top: "sy_roots s ! length (sy_commits s) = sy_root s"
    by (metis diff_Suc_1 last_conv_nth)
  have "length (sy_commits s) < length (sy_commits s3)" by (simp add: com)
  then have "value_at (sy_roots s3) (Suc (length (sy_commits s))) r = overlay clone_for_commit
      (tuples (ws_of (snd (sy_commits s3 ! length (sy_commits s))) r)) (value_at (sy_roots s3) (length (sy_commits s)) r)" for r
    using c unfolding commits_ok_def by blast
  then have "idx_lookup (s_index (sy_root s3) r) = overlay clone_for_commit
      (tuples (ws_of (clear_clobber_hints (wss_relations (into_working_sets dh t))) r)) (idx_lookup (s_index (sy_root s) r))" for r
    using l(1) top by (simp add: com roots nth_append value_at_eq)
  then show ?thesis
    using st fin roots by (auto simp: overlay_clear_clobber_hints)
qed

theorem uncontended_commit_succeeds_witness:
  "\<exists>(s :: unit system) t s3. sys_reachable demo_dh demo_rd s \<and> sy_thread s 0 = Running t
     \<and> sy_roots s3 = sy_roots s @ [sy_root s3]"
proof -
  obtain s :: "unit system" and t where s: "sys_reachable demo_dh demo_rd s" "sy_thread s 0 = Running t"
    "wt_has_mutations t" "tx_snapshot_version (wt_tx t) = s_version (sy_root s)"
    by (rule demo_running) blast
  with uncontended_commit_succeeds [OF s] show ?thesis by blast
qed

text \<open>
  C28. A write commit publishes no caches: the caches handed to the candidate are forks, which count
  as unchanged, so every published root carries the empty caches of the start, and a publication
  resets the cache plane to them; what transactions resolved reaches others only through read-only
  commits, until the next write.
\<close>

theorem write_commits_discard_caches:
  assumes "sys_reachable dh rd s"
  shows "(\<forall>root \<in> set (sy_roots s). s_caches root = caches_new)
    \<and> (\<forall>i tx n pr. sy_thread s i = Publishing tx n pr \<longrightarrow> s_version (sy_root s) = s_version (pr_checked_root pr) \<longrightarrow>
         cache_pub (sy_planes (publish_step s i tx n pr)) =
           \<lparr>cp_version = Suc (s_version (sy_root s)), cp_caches = caches_new\<rparr>)"
proof -
  have cand: "s_caches (pr_candidate pr) = caches_new \<and> s_version (pr_candidate pr) = Suc (s_version (pr_checked_root pr))"
    if ok: "sys_ok dh s" and th: "sy_thread s i = Publishing tx n pr"
      and new: "\<forall>root \<in> set (sy_roots s). s_caches root = caches_new"
    for s i tx n and pr :: "'a prepared_commit"
  proof -
    obtain c where "pr_checked_root pr = sy_roots s ! c" "c < length (sy_roots s)" "pr_ok dh pr"
      using thread_okD [OF ok, of i] th by (auto simp: commit_ok_def)
    then show ?thesis using new by (auto simp: pr_ok_def built_def)
  qed
  have roots: "\<forall>root \<in> set (sy_roots s). s_caches root = caches_new"
    using assms
  proof (induction rule: sys_reachable.induct)
    case (start disp s)
    then show ?case
      by (auto simp: sys_start_def try_open_def relations_snapshot_def snapshot_planes_new_def rbind_Inr_iff
          split: prod.splits)
  next
    case (step s i s')
    have ok: "sys_ok dh s" using step(1) by (rule sys_reachable_ok)
    from step(2,3) ok show ?case
    proof (induction rule: sys_step.induct)
      case (publish s tx n pr)
      then show ?case
        using cand [OF publish(3,1,2)]
        by (auto simp: publish_step_def try_publish_def try_publish_write_root_def record_publication_def Let_def)
    qed simp_all
  qed
  then show ?thesis
    using cand [OF sys_reachable_ok [OF assms]]
    by (auto simp: publish_step_def try_publish_def try_publish_write_root_def record_publication_def Let_def)
qed

theorem write_commits_discard_caches_witness:
  "\<exists>(s :: unit system) ws. sys_reachable demo_dh demo_rd s \<and> sy_commits s = [(0, ws)]
     \<and> (\<forall>root \<in> set (sy_roots s). s_caches root = caches_new)"
proof -
  obtain s :: "unit system" and ws where s: "sys_reachable demo_dh demo_rd s" "sy_commits s = [(0, ws)]"
    by (rule demo_committed)
  with write_commits_discard_caches [OF s(1)] show ?thesis by blast
qed


definition demo_changed_root :: "unit snapshot" where
  "demo_changed_root = \<lparr>s_version = 1, committed_ts = 5, s_caches = caches_new,
     s_index = (\<lambda>r. if r = ObjectFlags
        then fst (idx_insert_entry demo_loaded 5 (KObj SYSTEM_OBJECT) (VFlags 0)) else demo_loaded),
     s_commit_bloom = None, bloom_since_version = 0\<rparr>"

definition demo_ws_writing :: "database_relation \<Rightarrow> db_key \<Rightarrow> unit db_value \<Rightarrow> timestamp \<Rightarrow> unit relation_working_sets" where
  "demo_ws_writing q k v n = \<lparr>owner_change_reads = [], inherited_policy_reads = [],
     ws_of = (\<lambda>r. ws_new (if r = q then [(k, mk_op n n (Insert v) False)] else []) demo_loaded)\<rparr>"


end
