(* ===== verification/Sequences.thy ===== *)
theory Sequences
  imports Commit
begin

unbundle bit_operations_syntax

text \<open>
  The persistent sequences, \<open>SequenceState\<close> of \<^verbatim>\<open>db/src/engine/moor_db.rs\<close>, together with what the commits
  store of them (\<open>PublishedCommit::enqueue_persistence\<close>): sequences are changed outside of the
  transactions, marked in a set of dirty bits, and each commit stores the ones it finds marked.
\<close>

section \<open>Dirty bits\<close>

definition seq_ok :: "sequence_state \<Rightarrow> bool" where
  "seq_ok s \<longleftrightarrow> length (seq_values s) = SEQUENCE_COUNT"

lemma dirty_bit:
  fixes w :: "16 word"
  assumes "i < 16"
  shows "w AND push_bit i 1 = 0 \<longleftrightarrow> \<not> bit w i"
  unfolding bit_eq_iff [where 'a = "16 word"] using assms by (auto simp: bit_simps)

lemma bit_mark_dirty:
  "i < 16 \<Longrightarrow> bit (seq_dirty (seq_mark_dirty s i)) j \<longleftrightarrow> bit (seq_dirty s) j \<or> j = i"
  by (auto simp: seq_mark_dirty_def bit_simps)

lemma seq_simps [simp]:
  "seq_values (seq_mark_dirty s i) = seq_values s"
  "seq_load (s\<lparr>seq_dirty := w\<rparr>) = seq_load s"
  "seq_load (seq_mark_dirty s i) = seq_load s"
  by (simp_all add: seq_mark_dirty_def seq_load_def fun_eq_iff)

text \<open>The two operations as assignments that mark what they change.\<close>

definition seq_assign :: "sequence_state \<Rightarrow> nat \<Rightarrow> 64 word \<Rightarrow> sequence_state" where
  "seq_assign s i v = seq_mark_dirty (s\<lparr>seq_values := (seq_values s)[i := v]\<rparr>) i"

lemma seq_increment_eq: "seq_increment s i = (seq_assign s i (seq_load s i + 1), seq_load s i + 1)"
  by (simp add: seq_increment_def seq_assign_def Let_def)

lemma seq_update_max_eq:
  "seq_update_max s i v =
     (if sint v \<le> sint (seq_load s i) then s else seq_assign s i v, seq_load s i)"
  by (simp add: seq_update_max_def seq_assign_def Let_def)

lemma seq_assign_load:
  "seq_ok s \<Longrightarrow> i < SEQUENCE_COUNT \<Longrightarrow> seq_load (seq_assign s i v) j = (if j = i then v else seq_load s j)"
  by (simp add: seq_assign_def seq_load_def seq_ok_def nth_list_update)

lemma seq_assign_dirty:
  "i < SEQUENCE_COUNT \<Longrightarrow> bit (seq_dirty (seq_assign s i v)) j \<longleftrightarrow> bit (seq_dirty s) j \<or> j = i"
  by (simp add: seq_assign_def bit_mark_dirty SEQUENCE_COUNT_def)

lemma seq_assign_ok: "seq_ok s \<Longrightarrow> seq_ok (seq_assign s i v)"
  by (simp add: seq_ok_def seq_assign_def)

section \<open>What is stored\<close>

definition store_sequences :: "(nat \<Rightarrow> 64 word option) \<Rightarrow> (nat \<times> 64 word) list \<Rightarrow> nat \<Rightarrow> 64 word option" where
  "store_sequences stored batch = foldl (\<lambda>m (i, v). m(i \<mapsto> v)) stored batch"

text \<open>What a restart reads for a sequence.\<close>

definition stored_value :: "(nat \<Rightarrow> 64 word option) \<Rightarrow> nat \<Rightarrow> 64 word" where
  "stored_value stored i = (case stored i of None \<Rightarrow> -1 | Some v \<Rightarrow> v)"

lemma store_sequences_map:
  "distinct is \<Longrightarrow> store_sequences stored (map (\<lambda>i. (i, f i)) is) j =
     (if j \<in> set is then Some (f j) else stored j)"
  unfolding store_sequences_def by (induction "is" arbitrary: stored) auto

lemma foldl_set_initial:
  "seq_ok s \<Longrightarrow> set is \<subseteq> {..<SEQUENCE_COUNT} \<Longrightarrow>
     seq_ok (foldl (\<lambda>s i. seq_set_initial s i (f i)) s is)
     \<and> seq_dirty (foldl (\<lambda>s i. seq_set_initial s i (f i)) s is) = seq_dirty s
     \<and> (\<forall>j. seq_load (foldl (\<lambda>s i. seq_set_initial s i (f i)) s is) j = (if j \<in> set is then f j else seq_load s j))"
proof (induction "is" arbitrary: s)
  case (Cons i "is")
  have "seq_ok (seq_set_initial s i (f i))" using Cons.prems by (simp add: seq_ok_def seq_set_initial_def)
  from Cons.IH [OF this] Cons.prems show ?case
    by (auto simp: seq_set_initial_def seq_load_def seq_ok_def nth_list_update)
qed simp

lemma load_sequences_ok:
  "seq_ok (load_sequences stored sequences_new)" "seq_dirty (load_sequences stored sequences_new) = 0"
  "i < SEQUENCE_COUNT \<Longrightarrow> seq_load (load_sequences stored sequences_new) i = stored_value stored i"
proof -
  have new: "seq_ok sequences_new" "seq_dirty sequences_new = 0"
    by (simp_all add: seq_ok_def sequences_new_def)
  have eq: "load_sequences stored sequences_new =
      foldl (\<lambda>s i. seq_set_initial s i (stored_value stored i)) sequences_new [0..<SEQUENCE_COUNT]"
    by (simp add: load_sequences_def stored_value_def)
  have "set [0..<SEQUENCE_COUNT] \<subseteq> {..<SEQUENCE_COUNT}" by auto
  note all = foldl_set_initial [OF new(1) this, of "stored_value stored", folded eq]
  show "seq_ok (load_sequences stored sequences_new)" "seq_dirty (load_sequences stored sequences_new) = 0"
    using all new(2) by simp_all
  show "i < SEQUENCE_COUNT \<Longrightarrow> seq_load (load_sequences stored sequences_new) i = stored_value stored i"
    using all by simp
qed

lemma claim_sequences_stored:
  assumes "claim_sequences s = (s', batch)"
  shows "s' = s\<lparr>seq_dirty := 0\<rparr>"
    and "i < SEQUENCE_COUNT \<Longrightarrow> stored_value (store_sequences stored batch) i =
      (if bit (seq_dirty s) i then seq_load s i else stored_value stored i)"
proof -
  have b: "s' = s\<lparr>seq_dirty := 0\<rparr>" "batch = map (\<lambda>i. (i, seq_load s i))
      (filter (\<lambda>i. \<not> seq_dirty s AND push_bit i 1 = 0) [0..<SEQUENCE_COUNT])"
    using assms by (auto simp: claim_sequences_def seq_claim_dirty_def)
  then show "s' = s\<lparr>seq_dirty := 0\<rparr>" by simp
  assume i: "i < SEQUENCE_COUNT"
  have "i < 16" using i by (simp add: SEQUENCE_COUNT_def)
  then show "stored_value (store_sequences stored batch) i =
      (if bit (seq_dirty s) i then seq_load s i else stored_value stored i)"
    using i dirty_bit [of i "seq_dirty s"] by (simp add: b(2) store_sequences_map stored_value_def)
qed

section \<open>Histories\<close>

inductive seq_history :: "sequence_state \<Rightarrow> (nat \<Rightarrow> 64 word option) \<Rightarrow> bool" where
  opened: "seq_history (load_sequences stored sequences_new) stored"
| increment: "seq_history s stored \<Longrightarrow> i < SEQUENCE_COUNT \<Longrightarrow> seq_history (fst (seq_increment s i)) stored"
| update_max: "seq_history s stored \<Longrightarrow> i < SEQUENCE_COUNT \<Longrightarrow> seq_history (fst (seq_update_max s i v)) stored"
| committed: "seq_history s stored \<Longrightarrow> claim_sequences s = (s', batch) \<Longrightarrow>
    seq_history s' (store_sequences stored batch)"

lemma seq_history_ok:
  "seq_history s stored \<Longrightarrow> seq_ok s
     \<and> (\<forall>i < SEQUENCE_COUNT. \<not> bit (seq_dirty s) i \<longrightarrow> stored_value stored i = seq_load s i)"
proof (induction rule: seq_history.induct)
  case (opened stored)
  then show ?case by (simp add: load_sequences_ok)
next
  case (increment s stored i)
  then show ?case by (auto simp: seq_increment_eq seq_assign_ok seq_assign_dirty seq_assign_load)
next
  case (update_max s stored i v)
  then show ?case by (auto simp: seq_update_max_eq seq_assign_ok seq_assign_dirty seq_assign_load)
next
  case (committed s stored s' batch)
  note e = claim_sequences_stored [OF committed(2)]
  have "stored_value (store_sequences stored batch) i = seq_load s' i"
    if "i < SEQUENCE_COUNT" for i
    using committed.IH e(1) e(2) [OF that] that by simp
  then show ?case using committed.IH e(1) by (simp add: seq_ok_def)
qed

section \<open>Properties\<close>



end
