(* ===== verification/Strings.thy ===== *)
theory Strings
  imports Main "HOL-Library.Word"
begin

text \<open>
  String literals and decimal numbers, \<^verbatim>\<open>common/src/util/mod.rs\<close>: \<open>quote_str\<close> and \<open>unquote_str\<close> with their
  escapes, and \<open>write_i64_decimal\<close>. A text is the list of its code points, a \<open>char\<close> of the program
  being a natural number here; a byte test on the text is the same test on its code points where
  the bytes tested for are ASCII. Error values carry no message.
\<close>

section \<open>Characters\<close>

type_synonym chars = "nat list"

abbreviation cp :: "char \<Rightarrow> nat" where
  "cp c \<equiv> of_char c"

definition is_control :: "nat \<Rightarrow> bool" where
  "is_control c \<longleftrightarrow> c \<le> 0x1F \<or> 0x7F \<le> c \<and> c \<le> 0x9F"

definition is_ascii_graphic :: "nat \<Rightarrow> bool" where
  "is_ascii_graphic c \<longleftrightarrow> 0x21 \<le> c \<and> c \<le> 0x7E"

text \<open>\<open>char::from_u32\<close>: surrogates and values beyond the last plane are not characters.\<close>

definition char_from_u32 :: "nat \<Rightarrow> nat option" where
  "char_from_u32 v = (if v \<le> 0x10FFFF \<and> \<not> (0xD800 \<le> v \<and> v \<le> 0xDFFF) then Some v else None)"

definition hex_digit_value :: "nat \<Rightarrow> nat option" where
  "hex_digit_value c =
     (if 0x30 \<le> c \<and> c \<le> 0x39 then Some (c - 0x30)
      else if 0x41 \<le> c \<and> c \<le> 0x46 then Some (c - 0x41 + 10)
      else if 0x61 \<le> c \<and> c \<le> 0x66 then Some (c - 0x61 + 10)
      else None)"

text \<open>\<open>from_str_radix(_, 16)\<close> of a text of hex digits.\<close>

definition from_hex :: "chars \<Rightarrow> nat" where
  "from_hex ds = foldl (\<lambda>v c. 16 * v + (case hex_digit_value c of None \<Rightarrow> 0 | Some d \<Rightarrow> d)) 0 ds"

definition is_ascii_hexdigit :: "nat \<Rightarrow> bool" where
  "is_ascii_hexdigit c \<longleftrightarrow> hex_digit_value c \<noteq> None"

definition HEX :: "nat \<Rightarrow> nat" where
  "HEX d = (if d < 10 then 0x30 + d else 0x41 + (d - 10))"

section \<open>Reading a literal\<close>

datatype unquote_error =
  ExpectedQuote | UnexpectedQuote | UnexpectedEnd | InvalidHexEscape | IncompleteHexEscape
| InvalidUnicodeEscape | IncompleteUnicodeEscape | InvalidCodePoint

text \<open>The loop that reads \<open>n\<close> hex digits; \<open>bad\<close> and \<open>short\<close> are its two errors.\<close>

fun take_hex :: "unquote_error \<Rightarrow> unquote_error \<Rightarrow> nat \<Rightarrow> chars \<Rightarrow> chars \<Rightarrow> unquote_error + chars \<times> chars" where
  "take_hex bad short 0 acc cs = Inr (acc, cs)"
| "take_hex bad short (Suc n) acc [] = Inl short"
| "take_hex bad short (Suc n) acc (c # cs) =
     (if is_ascii_hexdigit c then take_hex bad short n (acc @ [c]) cs else Inl bad)"

definition parse_hex_escape :: "chars \<Rightarrow> unquote_error + nat \<times> chars" where
  "parse_hex_escape cs =
     (case take_hex InvalidHexEscape IncompleteHexEscape 2 [] cs of
        Inl e \<Rightarrow> Inl e
      | Inr (hex, cs') \<Rightarrow> Inr (from_hex hex, cs'))"

fun take_braced :: "chars \<Rightarrow> chars \<Rightarrow> unquote_error + chars \<times> chars" where
  "take_braced acc [] = Inl IncompleteUnicodeEscape"
| "take_braced acc (c # cs) =
     (if c = cp CHR ''}'' \<and> acc \<noteq> [] then Inr (acc, cs)
      else if is_ascii_hexdigit c \<and> length acc < 6 then take_braced (acc @ [c]) cs
      else Inl InvalidUnicodeEscape)"

definition code_point :: "chars \<times> chars \<Rightarrow> unquote_error + nat \<times> chars" where
  "code_point r =
     (case char_from_u32 (from_hex (fst r)) of
        None \<Rightarrow> Inl InvalidCodePoint
      | Some c \<Rightarrow> Inr (c, snd r))"

definition parse_unicode_escape :: "chars \<Rightarrow> unquote_error + nat \<times> chars" where
  "parse_unicode_escape cs =
     (case (case cs of
              c # cs' \<Rightarrow> if c = cp CHR ''{'' then take_braced [] cs'
                         else take_hex InvalidUnicodeEscape IncompleteUnicodeEscape 4 [] cs
            | [] \<Rightarrow> take_hex InvalidUnicodeEscape IncompleteUnicodeEscape 4 [] cs) of
        Inl e \<Rightarrow> Inl e
      | Inr r \<Rightarrow> code_point r)"

text \<open>What follows a backslash, other than a quote.\<close>

definition parse_escape :: "chars \<Rightarrow> unquote_error + nat \<times> chars" where
  "parse_escape cs =
     (case cs of
        [] \<Rightarrow> Inl UnexpectedEnd
      | c # cs' \<Rightarrow>
          if c = cp CHR 0x5C then Inr (0x5C, cs')
          else if c = cp CHR 0x27 then Inr (0x27, cs')
          else if c = cp CHR ''n'' then Inr (0x0A, cs')
          else if c = cp CHR ''r'' then Inr (0x0D, cs')
          else if c = cp CHR ''t'' then Inr (0x09, cs')
          else if c = cp CHR ''0'' then Inr (0x00, cs')
          else if c = cp CHR ''x'' then parse_hex_escape cs'
          else if c = cp CHR ''u'' then parse_unicode_escape cs'
          else Inr (c, cs'))"

lemma take_hex_length: "take_hex bad short n acc cs = Inr (hex, cs') \<Longrightarrow> length cs' \<le> length cs"
  by (induction bad short n acc cs rule: take_hex.induct) (auto split: if_splits)

lemma take_braced_length: "take_braced acc cs = Inr (hex, cs') \<Longrightarrow> length cs' \<le> length cs"
  by (induction acc cs rule: take_braced.induct) (auto split: if_splits)

lemma code_point_rest: "code_point r = Inr (c, cs) \<Longrightarrow> cs = snd r"
  by (auto simp: code_point_def split: option.splits)

lemma parse_escape_length:
  assumes "parse_escape cs = Inr (c, cs')"
  shows "length cs' \<le> length cs"
proof (cases cs)
  case (Cons a as)
  have hex: "length cs' \<le> length as" if "parse_hex_escape as = Inr (c, cs')"
    using that by (auto simp: parse_hex_escape_def dest: take_hex_length split: sum.splits)
  have uni: "length cs' \<le> length as" if "parse_unicode_escape as = Inr (c, cs')"
    using that by (auto simp: parse_unicode_escape_def dest!: code_point_rest dest: take_hex_length take_braced_length
        split: sum.splits list.splits if_splits)
  show ?thesis
    using assms hex uni by (auto simp: parse_escape_def Cons split: if_splits)
qed (use assms in \<open>simp add: parse_escape_def\<close>)

function unquote_loop :: "chars \<Rightarrow> chars \<Rightarrow> unquote_error + chars" where
  "unquote_loop out [] = Inl UnexpectedEnd"
| "unquote_loop out (c # cs) =
     (if c = cp CHR 0x5C then
        (if cs \<noteq> [] \<and> hd cs = cp CHR 0x22
         then (if tl cs \<noteq> [] then unquote_loop (out @ [0x22]) (tl cs) else Inr out)
         else case parse_escape cs of
                Inl e \<Rightarrow> Inl e
              | Inr (ch, cs') \<Rightarrow> unquote_loop (out @ [ch]) cs')
      else if c = cp CHR 0x22 then (if cs \<noteq> [] then Inl UnexpectedQuote else Inr out)
      else unquote_loop (out @ [c]) cs)"
  by pat_completeness auto

termination
  by (relation "measure (\<lambda>(out, cs). length cs)") (auto dest: parse_escape_length simp: less_Suc_eq_le)

definition unquote_str :: "chars \<Rightarrow> unquote_error + chars" where
  "unquote_str s =
     (case s of
        [] \<Rightarrow> Inl ExpectedQuote
      | c # cs \<Rightarrow> if c = cp CHR 0x22 then unquote_loop [] cs else Inl ExpectedQuote)"

section \<open>Writing a literal\<close>

definition INVISIBLE :: "(nat \<times> nat) list" where
  "INVISIBLE = [(0x00AD, 0x00AD), (0x0600, 0x0605), (0x061C, 0x061C), (0x06DD, 0x06DD), (0x070F, 0x070F),
     (0x0890, 0x0891), (0x08E2, 0x08E2), (0x180E, 0x180E), (0x200B, 0x200F), (0x2028, 0x202E),
     (0x2060, 0x2064), (0x2066, 0x206F), (0xFEFF, 0xFEFF), (0xFFF9, 0xFFFB), (0x110BD, 0x110BD),
     (0x110CD, 0x110CD), (0x13430, 0x1343F), (0x1BCA0, 0x1BCA3), (0x1D173, 0x1D17A),
     (0xE0001, 0xE0001), (0xE0020, 0xE007F)]"

definition is_invisible :: "nat \<Rightarrow> bool" where
  "is_invisible c = list_ex (\<lambda>(low, high). low \<le> c \<and> c \<le> high) INVISIBLE"

fun upper_hex :: "nat \<Rightarrow> chars" where
  "upper_hex v = (if v < 16 then [HEX v] else upper_hex (v div 16) @ [HEX (v mod 16)])"

declare upper_hex.simps [simp del]

definition escape :: "nat \<Rightarrow> chars option" where
  "escape c =
     (if c = cp CHR 0x22 then Some [0x5C, 0x22]
      else if c = cp CHR 0x5C then Some [0x5C, 0x5C]
      else if c = 0x0A then Some [0x5C, cp CHR ''n'']
      else if c = 0x0D then Some [0x5C, cp CHR ''r'']
      else if c = 0x09 then Some [0x5C, cp CHR ''t'']
      else if c = 0x00 then Some [0x5C, cp CHR ''0'']
      else if is_control c then
        (let value = c mod 256 in Some [0x5C, cp CHR ''x'', HEX (value div 16), HEX (value mod 16)])
      else if is_invisible c then
        Some (if c \<le> 0xFFFF
              then [0x5C, cp CHR ''u'', HEX (c div 4096 mod 16), HEX (c div 256 mod 16), HEX (c div 16 mod 16), HEX (c mod 16)]
              else [0x5C, cp CHR ''u'', cp CHR ''{''] @ upper_hex c @ [cp CHR ''}''])
      else None)"

text \<open>\<open>pending\<close> is the slice from \<open>unescaped_start\<close> to the current character.\<close>

fun quote_loop :: "chars \<Rightarrow> chars \<Rightarrow> chars \<Rightarrow> chars" where
  "quote_loop out pending [] = out @ pending @ [0x22]"
| "quote_loop out pending (c # cs) =
     (case escape c of
        Some e \<Rightarrow> quote_loop (out @ pending @ e) [] cs
      | None \<Rightarrow> quote_loop out (pending @ [c]) cs)"

definition needs_no_escape :: "nat \<Rightarrow> bool" where
  "needs_no_escape c \<longleftrightarrow> is_ascii_graphic c \<and> c \<noteq> cp CHR 0x22 \<and> c \<noteq> cp CHR 0x5C \<or> c = 0x20"

definition write_quoted_str :: "chars \<Rightarrow> chars" where
  "write_quoted_str s =
     (if list_all needs_no_escape s then [0x22] @ s @ [0x22] else quote_loop [0x22] [] s)"

definition quote_str :: "chars \<Rightarrow> chars" where
  "quote_str s = write_quoted_str s"

section \<open>Decimal numbers\<close>

text \<open>The buffer has 20 bytes; \<open>None\<close>: the cursor passes its start (a panic).\<close>

fun decimal_loop :: "nat \<Rightarrow> nat \<Rightarrow> chars \<Rightarrow> (nat \<times> chars) option" where
  "decimal_loop magnitude 0 digits = None"
| "decimal_loop magnitude (Suc cursor) digits =
     (let digits' = digits[cursor := 0x30 + magnitude mod 10]
      in if magnitude div 10 = 0 then Some (cursor, digits')
         else decimal_loop (magnitude div 10) cursor digits')"

definition write_i64_decimal :: "64 word \<Rightarrow> chars option" where
  "write_i64_decimal value =
     (case decimal_loop (nat \<bar>sint value\<bar>) 20 (replicate 20 0) of
        None \<Rightarrow> None
      | Some (cursor, digits) \<Rightarrow>
          if sint value < 0
          then (case cursor of 0 \<Rightarrow> None | Suc cursor' \<Rightarrow> Some (drop cursor' (digits[cursor' := cp CHR ''-''])))
          else Some (drop cursor digits))"

section \<open>Literals\<close>

lemma hex_digit_HEX [simp]: "d < 16 \<Longrightarrow> hex_digit_value (HEX d) = Some d"
  by (auto simp: hex_digit_value_def HEX_def)

lemma is_hexdigit_HEX [simp]: "d < 16 \<Longrightarrow> is_ascii_hexdigit (HEX d)"
  by (simp add: is_ascii_hexdigit_def)

lemma HEX_range: "d < 16 \<Longrightarrow> HEX d < 0x47"
  by (simp add: HEX_def)

lemma from_hex_snoc: "d < 16 \<Longrightarrow> from_hex (ds @ [HEX d]) = 16 * from_hex ds + d"
  by (simp add: from_hex_def)

lemma from_hex_Nil [simp]: "from_hex [] = 0"
  by (simp add: from_hex_def)

lemma from_upper_hex: "from_hex (upper_hex v) = v"
proof (induction v rule: upper_hex.induct)
  case (1 v)
  show ?case
  proof (cases "v < 16")
    case True
    then show ?thesis using from_hex_snoc [of v "[]"] by (simp add: upper_hex.simps [of v])
  next
    case False
    then show ?thesis using 1 by (simp add: upper_hex.simps [of v] from_hex_snoc)
  qed
qed

lemma upper_hex_digits: "c \<in> set (upper_hex v) \<Longrightarrow> is_ascii_hexdigit c \<and> c < 0x47"
  by (induction v rule: upper_hex.induct)
    (subst (asm) (2) upper_hex.simps, auto simp: HEX_range split: if_splits)

lemma upper_hex_length: "v < 16 ^ Suc n \<Longrightarrow> length (upper_hex v) \<le> Suc n"
proof (induction n arbitrary: v)
  case 0
  then show ?case by (simp add: upper_hex.simps [of v])
next
  case (Suc n)
  then have "v div 16 < 16 ^ Suc n" by (simp add: less_mult_imp_div_less)
  from Suc.IH [OF this] show ?case by (simp add: upper_hex.simps [of v])
qed

lemma upper_hex_nonempty [simp]: "upper_hex v \<noteq> []"
  by (simp add: upper_hex.simps [of v])

lemma take_hex_digits:
  "list_all is_ascii_hexdigit ds \<Longrightarrow> take_hex bad short (length ds) acc (ds @ rest) = Inr (acc @ ds, rest)"
  by (induction ds arbitrary: acc) simp_all

lemma take_braced_digits:
  assumes "\<And>c. c \<in> set ds \<Longrightarrow> is_ascii_hexdigit c \<and> c < 0x47" and "length acc + length ds \<le> 6" and "acc @ ds \<noteq> []"
  shows "take_braced acc (ds @ cp CHR ''}'' # rest) = Inr (acc @ ds, rest)"
  using assms
proof (induction ds arbitrary: acc)
  case (Cons d ds)
  from Cons.prems(1) [of d] have "is_ascii_hexdigit d" "d \<noteq> cp CHR ''}''" by auto
  then show ?case using Cons.IH [of "acc @ [d]"] Cons.prems by simp
qed simp

lemma invisible_chars:
  assumes "is_invisible c"
  shows "char_from_u32 c = Some c" "c < 16 ^ 6"
  using assms by (auto simp: is_invisible_def INVISIBLE_def char_from_u32_def)

lemma four_hex:
  assumes "c < (65536 :: nat)"
  shows "((c div 4096 mod 16 * 16 + c div 256 mod 16) * 16 + c div 16 mod 16) * 16 + c mod 16 = c"
proof -
  have "c div 256 = c div 16 div 16" "c div 4096 = c div 16 div 16 div 16"
    by (simp_all add: div_mult2_eq [symmetric])
  moreover have "c div 4096 mod 16 = c div 4096" using assms by simp
  ultimately show ?thesis by (simp only: div_mult_mod_eq)
qed

lemma unquote_plain:
  "c \<noteq> 0x5C \<Longrightarrow> c \<noteq> 0x22 \<Longrightarrow> unquote_loop out (c # cs) = unquote_loop (out @ [c]) cs"
  by simp

text \<open>The escape of a character, followed by anything, reads as the character.\<close>

lemma unquote_escape:
  assumes "escape c = Some e" and "rest \<noteq> []"
  shows "unquote_loop out (e @ rest) = unquote_loop (out @ [c]) rest"
proof -
  consider "c \<in> {0x22, 0x5C, 0x0A, 0x0D, 0x09, 0x00}" | "is_control c" "c \<notin> {0x22, 0x5C, 0x0A, 0x0D, 0x09, 0x00}"
    | "is_invisible c" "\<not> is_control c" "c \<notin> {0x22, 0x5C, 0x0A, 0x0D, 0x09, 0x00}"
    using assms(1) by (auto simp: escape_def split: if_splits)
  then show ?thesis
  proof cases
    case 1
    then show ?thesis using assms by (auto simp: escape_def parse_escape_def)
  next
    case 2
    then have e: "e = [0x5C, cp CHR ''x'', HEX (c div 16), HEX (c mod 16)]" and c: "c < 256"
      using assms(1) by (auto simp: escape_def is_control_def Let_def)
    have "from_hex [HEX (c div 16), HEX (c mod 16)] = c"
      using from_hex_snoc [of "c mod 16" "[HEX (c div 16)]"] from_hex_snoc [of "c div 16" "[]"] c by simp
    then show ?thesis
      using c by (simp add: e parse_escape_def parse_hex_escape_def numeral_2_eq_2)
  next
    case 3
    note inv = invisible_chars [OF 3(1)]
    show ?thesis
    proof (cases "c \<le> 0xFFFF")
      case True
      let ?ds = "[HEX (c div 4096 mod 16), HEX (c div 256 mod 16), HEX (c div 16 mod 16), HEX (c mod 16)]"
      have e: "e = [0x5C, cp CHR ''u''] @ ?ds"
        using assms(1) 3 True by (auto simp: escape_def)
      have "from_hex ?ds = ((c div 4096 mod 16 * 16 + c div 256 mod 16) * 16 + c div 16 mod 16) * 16 + c mod 16"
        by (simp add: from_hex_def)
      also have "\<dots> = c" by (rule four_hex) (use True in simp)
      finally have v: "from_hex ?ds = c" .
      have len: "length ?ds = 4" by simp
      have "take_hex InvalidUnicodeEscape IncompleteUnicodeEscape 4 [] (?ds @ rest) = Inr (?ds, rest)"
        using take_hex_digits [of ?ds InvalidUnicodeEscape IncompleteUnicodeEscape "[]" rest]
        unfolding len by simp
      moreover have "HEX (c div 4096 mod 16) \<noteq> cp CHR ''{''"
        using HEX_range [of "c div 4096 mod 16"] by simp
      ultimately have "parse_unicode_escape (?ds @ rest) = Inr (c, rest)"
        using inv(1) v by (simp add: parse_unicode_escape_def code_point_def)
      then show ?thesis by (simp add: e parse_escape_def)
    next
      case False
      have e: "e = [0x5C, cp CHR ''u'', cp CHR ''{''] @ upper_hex c @ [cp CHR ''}'']"
        using assms(1) 3 False by (auto simp: escape_def)
      have "length (upper_hex c) \<le> 6"
        using upper_hex_length [of c 5] inv(2) by simp
      then have "take_braced [] (upper_hex c @ cp CHR ''}'' # rest) = Inr (upper_hex c, rest)"
        using take_braced_digits [of "upper_hex c" "[]" rest] upper_hex_digits by simp
      then have "parse_unicode_escape (cp CHR ''{'' # upper_hex c @ cp CHR ''}'' # rest) = Inr (c, rest)"
        using inv(1) by (simp add: parse_unicode_escape_def code_point_def from_upper_hex)
      then show ?thesis by (simp add: e parse_escape_def)
    qed
  qed
qed

lemma escape_None: "escape c = None \<Longrightarrow> c \<noteq> 0x5C \<and> c \<noteq> 0x22"
  by (auto simp: escape_def)

lemma quote_loop_eq:
  "quote_loop out pending s =
     out @ pending @ concat (map (\<lambda>c. case escape c of None \<Rightarrow> [c] | Some e \<Rightarrow> e) s) @ [0x22]"
  by (induction out pending s rule: quote_loop.induct) (auto split: option.split)

lemma unquote_quoted:
  "unquote_loop out (concat (map (\<lambda>c. case escape c of None \<Rightarrow> [c] | Some e \<Rightarrow> e) s) @ [0x22]) = Inr (out @ s)"
proof (induction s arbitrary: out)
  case (Cons c s)
  let ?rest = "concat (map (\<lambda>c. case escape c of None \<Rightarrow> [c] | Some e \<Rightarrow> e) s) @ [0x22]"
  show ?case
  proof (cases "escape c")
    case None
    then show ?thesis using Cons.IH [of "out @ [c]"] escape_None [OF None] by simp
  next
    case (Some e)
    then show ?thesis using Cons.IH [of "out @ [c]"] unquote_escape [OF Some, of ?rest out] by simp
  qed
qed simp

lemma ascii_visible: "c < 0xAD \<Longrightarrow> \<not> is_invisible c"
  by (simp add: is_invisible_def INVISIBLE_def)

lemma no_escape:
  assumes "needs_no_escape c"
  shows "escape c = None"
proof -
  have c: "0x20 \<le> c" "c \<le> 0x7E" "c \<noteq> 0x22" "c \<noteq> 0x5C"
    using assms by (auto simp: needs_no_escape_def is_ascii_graphic_def)
  then have "\<not> is_control c" "\<not> is_invisible c" by (simp_all add: is_control_def ascii_visible)
  then show ?thesis using c by (simp add: escape_def)
qed

lemma quote_str_eq:
  "quote_str s = 0x22 # concat (map (\<lambda>c. case escape c of None \<Rightarrow> [c] | Some e \<Rightarrow> e) s) @ [0x22]"
proof (cases "list_all needs_no_escape s")
  case True
  then have "concat (map (\<lambda>c. case escape c of None \<Rightarrow> [c] | Some e \<Rightarrow> e) s) = s"
    by (induction s) (auto simp: no_escape)
  then show ?thesis using True by (simp add: quote_str_def write_quoted_str_def)
qed (simp add: quote_str_def write_quoted_str_def quote_loop_eq)

section \<open>Decimals\<close>

fun decimal_digits :: "nat \<Rightarrow> chars" where
  "decimal_digits n = (if n < 10 then [0x30 + n] else decimal_digits (n div 10) @ [0x30 + n mod 10])"

declare decimal_digits.simps [simp del]

definition decimal_text :: "int \<Rightarrow> chars" where
  "decimal_text i = (if i < 0 then cp CHR ''-'' # decimal_digits (nat (- i)) else decimal_digits (nat i))"

definition from_decimal :: "chars \<Rightarrow> int" where
  "from_decimal s =
     (let value = (\<lambda>ds. foldl (\<lambda>v c. 10 * v + (int c - 0x30)) 0 ds)
      in if s \<noteq> [] \<and> hd s = cp CHR ''-'' then - value (tl s) else value s)"

lemma decimal_digits_length: "n < 10 ^ Suc k \<Longrightarrow> length (decimal_digits n) \<le> Suc k"
proof (induction k arbitrary: n)
  case 0
  then show ?case by (simp add: decimal_digits.simps [of n])
next
  case (Suc k)
  then have "n div 10 < 10 ^ Suc k" by (simp add: less_mult_imp_div_less)
  from Suc.IH [OF this] show ?case by (simp add: decimal_digits.simps [of n])
qed

lemma decimal_loop_digits:
  "length (decimal_digits n) \<le> cursor \<Longrightarrow> cursor \<le> length digits \<Longrightarrow>
     decimal_loop n cursor digits = Some (cursor - length (decimal_digits n),
       take (cursor - length (decimal_digits n)) digits @ decimal_digits n @ drop cursor digits)"
proof (induction n cursor digits rule: decimal_loop.induct)
  case (1 n digits)
  then show ?case by (simp add: decimal_digits.simps [of n] split: if_splits)
next
  case (2 n cursor digits)
  show ?case
  proof (cases "n < 10")
    case True
    then show ?thesis
      using 2(3) by (simp add: decimal_digits.simps [of n] upd_conv_take_nth_drop)
  next
    case False
    let ?d = "digits[cursor := 0x30 + n mod 10]"
    have dig: "decimal_digits n = decimal_digits (n div 10) @ [0x30 + n mod 10]"
      using False by (subst decimal_digits.simps) simp
    have "decimal_loop (n div 10) cursor ?d = Some (cursor - length (decimal_digits (n div 10)),
        take (cursor - length (decimal_digits (n div 10))) ?d @ decimal_digits (n div 10) @ drop cursor ?d)"
      using 2 False dig by simp
    moreover have "drop cursor ?d = (0x30 + n mod 10) # drop (Suc cursor) digits"
      using 2(3) by (simp add: Cons_nth_drop_Suc [symmetric])
    ultimately show ?thesis using False dig by (simp add: Let_def div_eq_0_iff)
  qed
qed

lemma decimal_loop_blank:
  assumes "length (decimal_digits n) \<le> n0"
  shows "decimal_loop n n0 (replicate n0 0) =
    Some (n0 - length (decimal_digits n), replicate (n0 - length (decimal_digits n)) 0 @ decimal_digits n)"
  using decimal_loop_digits [of n n0 "replicate n0 0"] assms by (simp add: take_replicate min_def)

lemma i64_digits: "length (decimal_digits (nat \<bar>sint (v :: 64 word)\<bar>)) \<le> 19"
proof -
  have "\<bar>sint v\<bar> \<le> 2 ^ 63"
    using sint_range_size [of v] by (simp add: word_size) linarith
  then have "nat \<bar>sint v\<bar> < 10 ^ Suc 18" by (simp add: nat_less_iff)
  then show ?thesis using decimal_digits_length [of "nat \<bar>sint v\<bar>" 18] by simp
qed

lemma write_i64_decimal_eq: "write_i64_decimal v = Some (decimal_text (sint v))"
proof -
  let ?ds = "decimal_digits (nat \<bar>sint v\<bar>)"
  define k where "k = 19 - length ?ds"
  have k: "20 - length ?ds = Suc k" using i64_digits [of v] by (simp add: k_def)
  have "length ?ds \<le> 20" using i64_digits [of v] by simp
  from decimal_loop_blank [OF this]
  have loop: "decimal_loop (nat \<bar>sint v\<bar>) 20 (replicate 20 0) = Some (Suc k, replicate (Suc k) 0 @ ?ds)"
    by (simp only: k)
  have snoc: "replicate (Suc k) (0 :: nat) = replicate k 0 @ [0]" by (simp add: replicate_append_same)
  have minus: "drop k ((replicate (Suc k) 0 @ ?ds)[k := m]) = m # ?ds" for m
    by (simp only: snoc append_assoc) (simp add: list_update_append)
  have plain: "drop (Suc k) (replicate (Suc k) 0 @ ?ds) = ?ds"
    by (simp del: replicate_Suc)
  show ?thesis
    unfolding write_i64_decimal_def loop option.case prod.case nat.case minus plain
    by (simp add: decimal_text_def)
qed

lemma from_decimal_digits: "foldl (\<lambda>v c. 10 * v + (int c - 0x30)) 0 (decimal_digits n) = int n"
proof (induction n rule: decimal_digits.induct)
  case (1 n)
  then show ?case
    by (cases "n < 10") (simp_all add: decimal_digits.simps [of n] flip: of_nat_mult of_nat_add, presburger)
qed

lemma decimal_digits_nonempty [simp]: "decimal_digits n \<noteq> []"
  by (simp add: decimal_digits.simps [of n])

lemma decimal_digits_hd: "0x30 \<le> hd (decimal_digits n)"
proof (induction n rule: decimal_digits.induct)
  case (1 n)
  then show ?case
    by (cases "n < 10") (simp_all add: decimal_digits.simps [of n])
qed

lemma from_decimal_text: "from_decimal (decimal_text i) = i"
  using decimal_digits_hd [of "nat i"] decimal_digits_nonempty [of "nat i"]
  by (auto simp: from_decimal_def decimal_text_def from_decimal_digits Let_def)

section \<open>Properties\<close>


text \<open>
  C39. \<open>write_i64_decimal\<close> never runs out of its 20-byte buffer: for every 64-bit value, the smallest
  included, it writes the decimal text of the signed value, without leading zeros, of at most 20
  characters, and reading the text gives the value back.
\<close>

theorem decimal_writer_exact:
  "write_i64_decimal v = Some (decimal_text (sint v))
   \<and> from_decimal (decimal_text (sint v)) = sint v \<and> length (decimal_text (sint v)) \<le> 20"
  using i64_digits [of v] unfolding write_i64_decimal_eq from_decimal_text by (auto simp: decimal_text_def)

end
