(* ===== verification/VerbMatch.thy ===== *)
theory VerbMatch
  imports Strings "HOL-Library.Sublist"
begin

text \<open>
  Matching of verb names, \<open>verbcasecmp\<close> of \<^verbatim>\<open>common/src/util/mod.rs\<close>: a state machine over the pattern and the
  word, and a specification of what it accepts.
\<close>

section \<open>Model\<close>

definition to_ascii_lower :: "nat \<Rightarrow> nat" where
  "to_ascii_lower c = (if 0x41 \<le> c \<and> c \<le> 0x5A then c + 0x20 else c)"

definition chars_match_case_insensitive :: "nat \<Rightarrow> nat \<Rightarrow> bool" where
  "chars_match_case_insensitive a b \<longleftrightarrow> to_ascii_lower a = to_ascii_lower b"

datatype star_type = StarNone | StarInner | StarEnd

abbreviation star_char :: nat where
  "star_char \<equiv> 0x2A"

text \<open>The inner loop: consecutive asterisks.\<close>

fun skip_stars :: "bool \<Rightarrow> chars \<Rightarrow> star_type \<Rightarrow> chars \<times> star_type" where
  "skip_stars has_matched [] star = ([], star)"
| "skip_stars has_matched (c # cs) star =
     (if c = star_char
      then skip_stars has_matched cs
             (if cs = [] then StarEnd else if has_matched then StarInner else StarNone)
      else (c # cs, star))"

fun verb_loop :: "chars \<Rightarrow> chars \<Rightarrow> star_type \<Rightarrow> bool \<Rightarrow> chars \<times> chars \<times> star_type" where
  "verb_loop pat [] star has_matched =
     (let (pat', star') = skip_stars has_matched pat star in (pat', [], star'))"
| "verb_loop pat (w # ws) star has_matched =
     (case skip_stars has_matched pat star of
        ([], star') \<Rightarrow> ([], w # ws, star')
      | (p # ps, star') \<Rightarrow>
          if chars_match_case_insensitive p w then verb_loop ps ws star' True
          else (p # ps, w # ws, star'))"

definition verbcasecmp :: "chars \<Rightarrow> chars \<Rightarrow> bool" where
  "verbcasecmp pat word =
     (if pat = word then True
      else case verb_loop pat word StarNone False of
             (pat', word', star) \<Rightarrow>
               (case (word', star) of
                  ([], StarNone) \<Rightarrow> pat' = []
                | ([], _) \<Rightarrow> True
                | (_, StarEnd) \<Rightarrow> True
                | _ \<Rightarrow> False))"

definition verb_matches_name :: "chars list \<Rightarrow> chars \<Rightarrow> bool" where
  "verb_matches_name names name = list_ex (\<lambda>verb. verbcasecmp verb name) names"

section \<open>Specification\<close>

text \<open>The pattern without its stars, case folded; comparison of words is comparison of folded words.\<close>

definition core :: "chars \<Rightarrow> chars" where
  "core pat = map to_ascii_lower (filter (\<lambda>c. c \<noteq> star_char) pat)"

definition fold_word :: "chars \<Rightarrow> chars" where
  "fold_word w = map to_ascii_lower w"

text \<open>A star that is preceded by at least one and at most \<open>n\<close> other characters.\<close>

definition star_within :: "chars \<Rightarrow> nat \<Rightarrow> bool" where
  "star_within pat n \<longleftrightarrow> (\<exists>p q. pat = p @ star_char # q \<and> core p \<noteq> [] \<and> length (core p) \<le> n)"

definition ends_in_star :: "chars \<Rightarrow> bool" where
  "ends_in_star pat \<longleftrightarrow> pat \<noteq> [] \<and> last pat = star_char"

section \<open>The machine meets the specification\<close>

lemma core_simps [simp]:
  "core [] = []" "core (c # p) = (if c = star_char then core p else to_ascii_lower c # core p)"
  "core (p @ q) = core p @ core q"
  by (simp_all add: core_def)

text \<open>The stars at the front.\<close>

lemma skip_stars_split:
  obtains k pat' where "pat = replicate k star_char @ pat'" and "pat' = [] \<or> hd pat' \<noteq> star_char"
    and "skip_stars hm pat star = (pat', if k = 0 then star else if pat' = [] then StarEnd
      else if hm then StarInner else StarNone)"
proof (induction pat arbitrary: star thesis)
  case Nil
  then show ?case by (simp add: Nil.prems [of 0 "[]"])
next
  case (Cons c cs)
  show ?case
  proof (cases "c = star_char")
    case True
    let ?star = "if cs = [] then StarEnd else if hm then StarInner else StarNone"
    obtain k pat' where k: "cs = replicate k star_char @ pat'" "pat' = [] \<or> hd pat' \<noteq> star_char"
      "skip_stars hm cs ?star = (pat', if k = 0 then ?star else if pat' = [] then StarEnd
        else if hm then StarInner else StarNone)"
      by (rule Cons.IH)
    show ?thesis
      by (rule Cons.prems [of "Suc k" pat']) (use k True in \<open>auto simp del: replicate_Suc simp: replicate_Suc\<close>)
  next
    case False
    show ?thesis by (rule Cons.prems [of 0 "c # cs"]) (use False in simp_all)
  qed
qed

fun swithin :: "bool \<Rightarrow> nat \<Rightarrow> chars \<Rightarrow> bool" where
  "swithin hm n [] = False"
| "swithin hm n (c # p) =
     (if c = star_char then hm \<or> swithin hm n p else 0 < n \<and> swithin True (n - 1) p)"

lemma swithin_iff:
  "swithin hm n pat \<longleftrightarrow>
     (\<exists>p q. pat = p @ star_char # q \<and> (hm \<or> core p \<noteq> []) \<and> length (core p) \<le> n)"
proof (induction pat arbitrary: hm n)
  case (Cons c pat)
  have split: "(\<exists>p q. c # pat = p @ star_char # q \<and> P p) \<longleftrightarrow>
      c = star_char \<and> P [] \<or> (\<exists>p q. pat = p @ star_char # q \<and> P (c # p))" for P
    by (auto simp: Cons_eq_append_conv)
  show ?case
    unfolding split
    by (cases "c = star_char"; cases n) (auto simp: Cons.IH)
qed simp

lemma swithin_stars:
  "p \<noteq> star_char \<Longrightarrow>
     swithin hm (Suc n) (replicate k star_char @ p # ps) \<longleftrightarrow> k > 0 \<and> hm \<or> swithin True n ps"
  by (induction k) auto

lemma swithin_0_stars:
  "pat' = [] \<or> hd pat' \<noteq> star_char \<Longrightarrow> swithin hm 0 (replicate k star_char @ pat') \<longleftrightarrow> k > 0 \<and> hm"
  by (induction k) (cases pat'; auto)+

lemma core_stars [simp]: "core (replicate k star_char) = []"
  by (induction k) simp_all

lemma core_Nil_iff: "pat' = [] \<or> hd pat' \<noteq> star_char \<Longrightarrow> core pat' = [] \<longleftrightarrow> pat' = []"
  by (cases pat') auto

definition verdict :: "chars \<times> chars \<times> star_type \<Rightarrow> bool" where
  "verdict r = (case r of (pat', word', star) \<Rightarrow>
     (case (word', star) of
        ([], StarNone) \<Rightarrow> pat' = []
      | ([], _) \<Rightarrow> True
      | (_, StarEnd) \<Rightarrow> True
      | _ \<Rightarrow> False))"

definition accepts :: "star_type \<Rightarrow> bool \<Rightarrow> chars \<Rightarrow> chars \<Rightarrow> bool" where
  "accepts star hm pat w \<longleftrightarrow>
     prefix (fold_word w) (core pat) \<and>
       (length w = length (core pat) \<or> star \<noteq> StarNone \<or> swithin hm (length w) pat)
     \<or> prefix (core pat) (fold_word w) \<and> ends_in_star pat"

lemma ends_in_star_stars:
  "ends_in_star (replicate k star_char @ p # ps) \<longleftrightarrow> (if ps = [] then p = star_char else ends_in_star ps)"
  by (simp add: ends_in_star_def)

lemma ends_in_star_only: "ends_in_star (replicate k star_char) \<longleftrightarrow> k > 0"
  by (cases k) (simp_all add: ends_in_star_def del: replicate_Suc)

lemma verb_loop_accepts:
  assumes "star \<noteq> StarEnd" and "\<not> hm \<longrightarrow> star = StarNone"
  shows "verdict (verb_loop pat w star hm) \<longleftrightarrow> accepts star hm pat w"
  using assms
proof (induction w arbitrary: pat star hm)
  case Nil
  obtain k pat' where k: "pat = replicate k star_char @ pat'" "pat' = [] \<or> hd pat' \<noteq> star_char"
    and sk: "skip_stars hm pat star = (pat', if k = 0 then star else if pat' = [] then StarEnd
      else if hm then StarInner else StarNone)"
    by (rule skip_stars_split)
  note [simp] = core_Nil_iff [OF k(2)] swithin_0_stars [OF k(2)]
  have "verdict (verb_loop pat [] star hm) \<longleftrightarrow> pat' = [] \<or> (if k = 0 then star \<noteq> StarNone else hm)"
    using Nil.prems by (simp add: verdict_def sk split: star_type.split)
  then show ?case
    using Nil.prems by (auto simp: accepts_def fold_word_def k(1))
next
  case (Cons a w)
  obtain k pat' where k: "pat = replicate k star_char @ pat'" "pat' = [] \<or> hd pat' \<noteq> star_char"
    and sk: "skip_stars hm pat star = (pat', if k = 0 then star else if pat' = [] then StarEnd
      else if hm then StarInner else StarNone)"
    by (rule skip_stars_split)
  show ?case
  proof (cases pat')
    case Nil
    then show ?thesis
      using Cons.prems sk k
      by (cases star) (auto simp: verdict_def accepts_def fold_word_def ends_in_star_only)
  next
    case (Cons p ps)
    then have p: "p \<noteq> star_char" using k(2) by simp
    define st where "st = (if k = 0 then star else if hm then StarInner else StarNone)"
    have sk': "skip_stars hm pat star = (p # ps, st)" using sk Cons by (simp add: st_def)
    have st: "st \<noteq> StarEnd" using Cons.prems by (simp add: st_def)
    show ?thesis
    proof (cases "to_ascii_lower p = to_ascii_lower a")
      case True
      have "verdict (verb_loop pat (a # w) star hm) \<longleftrightarrow> accepts st True ps w"
        using Cons.IH [OF st, of True ps] True sk' by (simp add: chars_match_case_insensitive_def)
      also have "\<dots> \<longleftrightarrow> accepts star hm pat (a # w)"
        using Cons.prems p True
        by (auto simp: accepts_def fold_word_def k(1) Cons swithin_stars ends_in_star_stars st_def ends_in_star_def)
      finally show ?thesis .
    next
      case False
      then have "verdict (verb_loop pat (a # w) star hm) \<longleftrightarrow> False"
        using sk' st by (cases st) (simp_all add: verdict_def chars_match_case_insensitive_def)
      then show ?thesis using False p by (auto simp: accepts_def fold_word_def k(1) Cons)
    qed
  qed
qed

section \<open>Properties\<close>

text \<open>
  C40. A verb name matches a pattern exactly when it is the pattern itself, or, ignoring the case of
  ASCII letters: it is the pattern without its stars; or it is a beginning of that at least as long
  as the part before some star that is not at the front; or the pattern ends in a star and, without
  its stars, is a beginning of the name.
\<close>

theorem verb_pattern_exact:
  "verbcasecmp pat w \<longleftrightarrow> pat = w
     \<or> prefix (fold_word w) (core pat) \<and> (length w = length (core pat) \<or> star_within pat (length w))
     \<or> prefix (core pat) (fold_word w) \<and> ends_in_star pat"
proof -
  have "verbcasecmp pat w \<longleftrightarrow> pat = w \<or> verdict (verb_loop pat w StarNone False)"
    by (simp add: verbcasecmp_def verdict_def)
  also have "\<dots> \<longleftrightarrow> pat = w \<or> accepts StarNone False pat w"
    by (simp add: verb_loop_accepts)
  finally show ?thesis
    by (simp add: accepts_def swithin_iff star_within_def)
qed

end
