(* ===== verification/Wmonad.thy ===== *)
theory Wmonad
  imports Commit VerbMatch
begin

text \<open>
  The state of a world-state transaction as its operations use it: \<^verbatim>\<open>db/src/engine/ws_transaction.rs\<close>
  reads and writes relations through \<open>RelationTransaction\<close>, maps their errors with \<open>database_error\<close>
  and edits them under an \<open>EditScope\<close> whose end invalidates caches (\<^verbatim>\<open>ws_transaction/edit.rs\<close>).

  An operation maps the transaction to \<open>None\<close> when it panics or does not return, and otherwise to the
  transaction it leaves and its result; an error leaves the writes made so far. Error values carry
  the objects they name and no text. A read through \<open>&self\<close> that fills a cache (a \<open>RefCell\<close>) returns
  the changed transaction like a write.
\<close>

section \<open>Operations\<close>

datatype world_state_error =
    ObjectNotFound obj
  | ObjectAlreadyExists obj
  | RecursiveMove obj obj
  | ObjectPermissionDenied
  | PropertyNotFound obj
  | PropertyPermissionDenied
  | PropertyDefinitionNotFound obj
  | DuplicatePropertyDefinition obj
  | ChparentPropertyNameConflict obj obj
  | PropertyTypeMismatch
  | CannotClearPropertyOnDefiner obj
  | VerbNotFound obj
  | InvalidVerb
  | VerbDecodeError obj
  | VerbPermissionDenied
  | DuplicateVerb obj
  | FailedMatch
  | AmbiguousMatch
  | InvalidRenumber
  | DatabaseError
  | DatabaseOverloaded
  | RollbackRetry

type_synonym ('x, 'a) wm =
  "'x ws_transaction \<Rightarrow> ('x ws_transaction \<times> (world_state_error + 'a)) option"

definition wret :: "'a \<Rightarrow> ('x, 'a) wm" where
  "wret a t = Some (t, Inr a)"

definition wfail :: "world_state_error \<Rightarrow> ('x, 'a) wm" where
  "wfail e t = Some (t, Inl e)"

definition wpanic :: "('x, 'a) wm" where
  "wpanic t = None"

definition wbind :: "('x, 'a) wm \<Rightarrow> ('a \<Rightarrow> ('x, 'b) wm) \<Rightarrow> ('x, 'b) wm" where
  "wbind m f t =
     (case m t of
        None \<Rightarrow> None
      | Some (t', Inl e) \<Rightarrow> Some (t', Inl e)
      | Some (t', Inr a) \<Rightarrow> f a t')"

definition wstate :: "('x ws_transaction \<Rightarrow> 'a) \<Rightarrow> ('x, 'a) wm" where
  "wstate f t = Some (t, Inr (f t))"

definition wmodify :: "('x ws_transaction \<Rightarrow> 'x ws_transaction) \<Rightarrow> ('x, unit) wm" where
  "wmodify f t = Some (f t, Inr ())"

text \<open>\<open>if let Ok(..) = ..\<close>: the result as a value.\<close>

definition wtry :: "('x, 'a) wm \<Rightarrow> ('x, world_state_error + 'a) wm" where
  "wtry m t = (case m t of None \<Rightarrow> None | Some (t', r) \<Rightarrow> Some (t', Inr r))"

text \<open>\<open>.expect(..)\<close>.\<close>

definition wexpect :: "('x, 'a) wm \<Rightarrow> ('x, 'a) wm" where
  "wexpect m t =
     (case m t of None \<Rightarrow> None | Some (t', Inl e) \<Rightarrow> None | Some (t', Inr a) \<Rightarrow> Some (t', Inr a))"

text \<open>A loop over a list, with the \<open>?\<close> operator in its body.\<close>

fun wfold :: "('b \<Rightarrow> 'a \<Rightarrow> ('x, 'a) wm) \<Rightarrow> 'b list \<Rightarrow> 'a \<Rightarrow> ('x, 'a) wm" where
  "wfold f [] a = wret a"
| "wfold f (x # xs) a = wbind (f x a) (wfold f xs)"

definition wfor :: "('b \<Rightarrow> ('x, 'a) wm) \<Rightarrow> 'b list \<Rightarrow> ('x, unit) wm" where
  "wfor f xs = wfold (\<lambda>x _. wbind (f x) (\<lambda>_. wret ())) xs ()"

section \<open>Relations\<close>

text \<open>A conflict becomes a retry of the task.\<close>

fun database_error :: "tx_error \<Rightarrow> world_state_error" where
  "database_error (Conflict info) = RollbackRetry"
| "database_error e = DatabaseError"

definition rel_lift ::
  "database_relation \<Rightarrow> ('x db_rt \<Rightarrow> 'x db_rt \<times> (tx_error + 'a)) \<Rightarrow> ('x, 'a) wm" where
  "rel_lift r f t =
     (case f (wt_rel t r) of
        (rt, res) \<Rightarrow>
          Some (t\<lparr>wt_rel := (wt_rel t)(r := rt)\<rparr>,
                case res of Inl e \<Rightarrow> Inl (database_error e) | Inr a \<Rightarrow> Inr a))"

definition rel_get :: "database_relation \<Rightarrow> db_key \<Rightarrow> ('x, 'x db_value option) wm" where
  "rel_get r k = rel_lift r (\<lambda>rt. (rt, rt_get rt k))"

definition rel_has :: "database_relation \<Rightarrow> db_key \<Rightarrow> ('x, bool) wm" where
  "rel_has r k = rel_lift r (\<lambda>rt. (rt, rt_has_domain rt k))"

definition rel_with :: "database_relation \<Rightarrow> db_key \<Rightarrow> ('x db_value \<Rightarrow> 'a) \<Rightarrow> ('x, 'a option) wm" where
  "rel_with r k f = rel_lift r (\<lambda>rt. (rt, rt_with_domain_value rt k f))"

definition rel_check_domains :: "database_relation \<Rightarrow> db_key list \<Rightarrow> ('x, db_key list) wm" where
  "rel_check_domains r ks = rel_lift r (\<lambda>rt. (rt, rt_check_domains rt ks))"

definition rel_scan ::
  "database_relation \<Rightarrow> (db_key \<Rightarrow> 'x db_value \<Rightarrow> bool) \<Rightarrow> ('x, (db_key \<times> 'x db_value) list) wm" where
  "rel_scan r P = rel_lift r (\<lambda>rt. (rt, rt_scan rt P))"

definition rel_get_all :: "database_relation \<Rightarrow> ('x, (db_key \<times> 'x db_value) list) wm" where
  "rel_get_all r = rel_lift r rt_get_all"

definition rel_by_codomain :: "database_relation \<Rightarrow> 'x db_value \<Rightarrow> ('x, db_key list) wm" where
  "rel_by_codomain r v = rel_lift r (\<lambda>rt. rt_for_each_by_codomain rt v)"

definition rel_insert :: "database_relation \<Rightarrow> db_key \<Rightarrow> 'x db_value \<Rightarrow> ('x, unit) wm" where
  "rel_insert r k v = rel_lift r (\<lambda>rt. rt_insert rt k v)"

definition insert_guaranteed_unique :: "database_relation \<Rightarrow> db_key \<Rightarrow> 'x db_value \<Rightarrow> ('x, unit) wm" where
  "insert_guaranteed_unique r k v = rel_lift r (\<lambda>rt. rt_insert_guaranteed_unique rt k v)"

definition upsert :: "database_relation \<Rightarrow> db_key \<Rightarrow> 'x db_value \<Rightarrow> ('x, 'x db_value option) wm" where
  "upsert r k v = rel_lift r (\<lambda>rt. rt_upsert rt k v)"

definition rel_upsert_with ::
  "database_relation \<Rightarrow> db_key \<Rightarrow> ('x db_value option \<Rightarrow> 'x db_value option) \<Rightarrow> ('x, 'x db_value option) wm" where
  "rel_upsert_with r k f = rel_lift r (\<lambda>rt. rt_upsert_with rt k f)"

definition rel_update_with ::
  "database_relation \<Rightarrow> db_key \<Rightarrow> ('x db_value \<Rightarrow> 'x db_value option) \<Rightarrow> ('x, 'x db_value option) wm" where
  "rel_update_with r k f = rel_lift r (\<lambda>rt. rt_update_with rt k f)"

definition rel_delete :: "database_relation \<Rightarrow> db_key \<Rightarrow> ('x, 'x db_value option) wm" where
  "rel_delete r k = rel_lift r (\<lambda>rt. rt_delete rt k)"

text \<open>
  The relations have typed values; here a value of another relation's type reads as none, which
  does not happen: each relation is written with its own kind of value only.
\<close>

fun value_flags :: "'x db_value \<Rightarrow> bit_enum option" where
  "value_flags (VFlags f) = Some f"
| "value_flags v = None"

fun value_name :: "'x db_value \<Rightarrow> string option" where
  "value_name (VName s) = Some s"
| "value_name v = None"

fun value_verbdefs :: "'x db_value \<Rightarrow> verbdef list option" where
  "value_verbdefs (VVerbdefs ds) = Some ds"
| "value_verbdefs v = None"

fun value_program :: "'x db_value \<Rightarrow> 'x option" where
  "value_program (VProgram p) = Some p"
| "value_program v = None"

definition rel_read ::
  "('x db_value \<Rightarrow> 'a option) \<Rightarrow> database_relation \<Rightarrow> db_key \<Rightarrow> ('x, 'a option) wm" where
  "rel_read sel r k = wbind (rel_get r k) (\<lambda>v. wret (Option.bind v sel))"

fun key_obj :: "db_key \<Rightarrow> obj" where
  "key_obj (KObj ob) = ob"
| "key_obj (KVerb ob u) = ob"
| "key_obj (KProperty ob u) = ob"
| "key_obj (KEntity ob tag u y) = ob"

fun key_uuid :: "db_key \<Rightarrow> uuid" where
  "key_uuid (KObj ob) = 0"
| "key_uuid (KVerb ob u) = u"
| "key_uuid (KProperty ob u) = u"
| "key_uuid (KEntity ob tag u y) = u"

section \<open>Edits\<close>

datatype edit_scope =
    EditVerbs "obj list"
  | EditProperties "obj list" "uuid option"
  | EditPropertyValue obj
  | EditPermissions property_key
  | EditOwner obj
  | EditHierarchy "obj list"
  | EditRemove "obj list" "obj list"
  | EditRenumber "obj list" obj obj

definition on_verbs :: "(resolved_verb verb_cache \<Rightarrow> resolved_verb verb_cache) \<Rightarrow> 'x ws_transaction \<Rightarrow> 'x ws_transaction" where
  "on_verbs f t = t\<lparr>wt_caches := (wt_caches t)\<lparr>verb_resolution_cache := f (verb_resolution_cache (wt_caches t))\<rparr>\<rparr>"

definition on_props :: "(propdef prop_cache \<Rightarrow> propdef prop_cache) \<Rightarrow> 'x ws_transaction \<Rightarrow> 'x ws_transaction" where
  "on_props f t = t\<lparr>wt_caches := (wt_caches t)\<lparr>prop_resolution_cache := f (prop_resolution_cache (wt_caches t))\<rparr>\<rparr>"

definition on_ancestry :: "(ancestry_cache \<Rightarrow> ancestry_cache) \<Rightarrow> 'x ws_transaction \<Rightarrow> 'x ws_transaction" where
  "on_ancestry f t = t\<lparr>wt_caches := (wt_caches t)\<lparr>ancestry_cache := f (ancestry_cache (wt_caches t))\<rparr>\<rparr>"

definition on_memo :: "(perm_memo \<Rightarrow> perm_memo) \<Rightarrow> 'x ws_transaction \<Rightarrow> 'x ws_transaction" where
  "on_memo f t = t\<lparr>wt_perm_memo := f (wt_perm_memo t)\<rparr>"

text \<open>The common part of the three scopes that change the hierarchy.\<close>

definition drop_branch :: "obj list \<Rightarrow> 'x ws_transaction \<Rightarrow> 'x ws_transaction" where
  "drop_branch objects t =
     on_memo (\<lambda>m. foldl invalidate_cached_for_obj m objects)
       (on_ancestry (\<lambda>c. ac_invalidate_objects c objects)
         (on_props (\<lambda>c. pc_invalidate_objects c objects)
           (on_verbs (\<lambda>c. vc_invalidate_objects c objects) t)))"

text \<open>\<open>Drop for EditInvalidation\<close>.\<close>

fun edit_drop :: "edit_scope \<Rightarrow> 'x ws_transaction \<Rightarrow> 'x ws_transaction" where
  "edit_drop (EditVerbs objects) t = on_verbs (\<lambda>c. vc_invalidate_objects c objects) t"
| "edit_drop (EditProperties objects removed) t =
     on_memo (\<lambda>m. foldl (\<lambda>m ob.
         let m = invalidate_cached_for_obj m ob
         in case removed of None \<Rightarrow> m | Some u \<Rightarrow> invalidate_known_for_holder m (ob, u)) m objects)
       (on_props (\<lambda>c. pc_invalidate_objects c objects) t)"
| "edit_drop (EditPropertyValue ob) t = on_props (\<lambda>c. pc_invalidate_objects c [ob]) t"
| "edit_drop (EditPermissions holder) t = on_memo (\<lambda>m. invalidate_cached_for_holder m holder) t"
| "edit_drop (EditOwner ob) t = on_memo (\<lambda>m. invalidate_cached_for_obj m ob) t"
| "edit_drop (EditHierarchy objects) t = drop_branch objects t"
| "edit_drop (EditRemove objects removed) t =
     on_memo (\<lambda>m. foldl invalidate_known_for_obj m removed) (drop_branch objects t)"
| "edit_drop (EditRenumber objects old new) t =
     on_memo (\<lambda>m. clear_cached (invalidate_known_for_obj (invalidate_known_for_obj m old) new))
       (drop_branch objects t)"

fun bumps_revision :: "edit_scope \<Rightarrow> bool" where
  "bumps_revision (EditVerbs objects) = True"
| "bumps_revision (EditRemove objects removed) = True"
| "bumps_revision (EditRenumber objects old new) = True"
| "bumps_revision scope = False"

text \<open>\<open>edit\<close>, the edit's body, and the drop of the guard when the body is left, by an error too.\<close>

definition edit :: "edit_scope \<Rightarrow> ('x, 'a) wm \<Rightarrow> ('x, 'a) wm" where
  "edit scope body t =
     (if bumps_revision scope \<and> wt_verb_program_revision t + 1 \<ge> 2 ^ 64 then None
      else
        let t1 = (if bumps_revision scope
                  then t\<lparr>wt_verb_program_revision := wt_verb_program_revision t + 1\<rparr> else t)
        in case body t1 of None \<Rightarrow> None | Some (t2, res) \<Rightarrow> Some (edit_drop scope t2, res))"

end
