(* ===== verification/WorldOps.thy ===== *)
theory WorldOps
  imports Wmonad
begin

text \<open>
  The operations of \<open>WorldStateTransaction\<close>, \<^verbatim>\<open>db/src/engine/ws_transaction.rs\<close>: objects, their
  hierarchy and containment, verbs, properties, permissions, metadata, renumbering and recycling.
  An \<open>ObjSet\<close> is a vector of objects and a list here. Generated identifiers (\<open>Uuid::new_v4\<close>,
  generated object ids) and the current time are arguments. The loops that follow parents, locations
  or children have no bound in the program; they are partial functions that do not return on a cycle.
\<close>

section \<open>Objects and their hierarchy\<close>

definition object_valid :: "obj \<Rightarrow> ('x, bool) wm" where
  "object_valid ob = rel_has ObjectFlags (KObj ob)"

definition valid_objects :: "obj list \<Rightarrow> ('x, obj list) wm" where
  "valid_objects obs =
     wbind (rel_check_domains ObjectFlags (map KObj obs)) (\<lambda>ks. wret (map key_obj ks))"

text \<open>A failing read panics here.\<close>

partial_function (option) ancestors_loop :: "'x db_rt \<Rightarrow> obj \<Rightarrow> obj list \<Rightarrow> obj list option" where
  "ancestors_loop rt current ancestors =
     (case rt_get rt (KObj current) of
        Inl e \<Rightarrow> None
      | Inr v \<Rightarrow>
          (case Option.bind v value_obj of
             None \<Rightarrow> Some ancestors
           | Some parent \<Rightarrow>
               if is_nothing parent then Some ancestors
               else ancestors_loop rt parent (ancestors @ [parent])))"

definition ancestors :: "obj \<Rightarrow> bool \<Rightarrow> ('x, obj list) wm" where
  "ancestors ob include_self t =
     (case ac_lookup (ancestry_cache (wt_caches t)) ob of
        Some hit \<Rightarrow> Some (t, Inr (if include_self then ob # hit else hit))
      | None \<Rightarrow>
          (case ancestors_loop (wt_rel t ObjectParent) ob [] of
             None \<Rightarrow> None
           | Some found \<Rightarrow>
               Some (on_ancestry (\<lambda>c. ac_fill c ob found) t,
                     Inr (if include_self then ob # found else found))))"

definition get_object_parent :: "obj \<Rightarrow> ('x, obj) wm" where
  "get_object_parent ob =
     wbind (rel_read value_obj ObjectParent (KObj ob)) (\<lambda>r.
       wret (case r of None \<Rightarrow> NOTHING | Some p \<Rightarrow> p))"

definition parent_of :: "'x db_rt \<Rightarrow> obj \<Rightarrow> world_state_error + obj" where
  "parent_of rt ob =
     (case rt_get rt (KObj ob) of
        Inl e \<Rightarrow> Inl (database_error e)
      | Inr v \<Rightarrow> Inr (case Option.bind v value_obj of None \<Rightarrow> NOTHING | Some p \<Rightarrow> p))"

partial_function (option) isa_loop ::
  "'x db_rt \<Rightarrow> obj \<Rightarrow> obj \<Rightarrow> obj list \<Rightarrow> bool \<Rightarrow> (world_state_error + obj list \<times> bool) option" where
  "isa_loop rt possible_ancestor current seen is_ancestor =
     (case parent_of rt current of
        Inl e \<Rightarrow> Some (Inl e)
      | Inr parent \<Rightarrow>
          if is_nothing parent then Some (Inr (seen, is_ancestor))
          else isa_loop rt possible_ancestor parent (seen @ [parent])
                 (is_ancestor \<or> parent = possible_ancestor))"

definition isa :: "obj \<Rightarrow> obj \<Rightarrow> ('x, bool) wm" where
  "isa ob possible_ancestor =
     wbind (object_valid ob) (\<lambda>valid.
       if \<not> valid then wret False
       else if ob = possible_ancestor then wret True
       else (\<lambda>t.
         case ac_contains (ancestry_cache (wt_caches t)) ob possible_ancestor of
           Some is_ancestor \<Rightarrow> Some (t, Inr is_ancestor)
         | None \<Rightarrow>
             (case isa_loop (wt_rel t ObjectParent) possible_ancestor ob [] False of
                None \<Rightarrow> None
              | Some (Inl e) \<Rightarrow> Some (t, Inl e)
              | Some (Inr (found, is_ancestor)) \<Rightarrow>
                  Some (on_ancestry (\<lambda>c. ac_fill c ob found) t, Inr is_ancestor))))"

definition get_objects :: "('x, obj list) wm" where
  "get_objects = wbind (rel_scan ObjectFlags (\<lambda>_ _. True)) (\<lambda>rows. wret (map (key_obj \<circ> fst) rows))"

definition get_object_flags :: "obj \<Rightarrow> ('x, bit_enum) wm" where
  "get_object_flags ob =
     wbind (rel_read value_flags ObjectFlags (KObj ob)) (\<lambda>r.
       wret (case r of None \<Rightarrow> be_new | Some f \<Rightarrow> f))"

definition get_players :: "('x, obj list) wm" where
  "get_players =
     wbind (rel_scan ObjectFlags (\<lambda>_ v. case value_flags v of
              None \<Rightarrow> False | Some f \<Rightarrow> be_contains obj_flag_index f ObjUser))
       (\<lambda>rows. wret (map (key_obj \<circ> fst) rows))"

definition SEQUENCE_MAX_OBJECT :: nat where
  "SEQUENCE_MAX_OBJECT = 0"

text \<open>The conversion of a sequence value to an object number, with its range check.\<close>

definition seq_objid :: "64 word \<Rightarrow> world_state_error + obj" where
  "seq_objid v =
     (if sint v < - (2 ^ 31) \<or> sint v > 2 ^ 31 - 1 then Inl DatabaseError else Inr (mk_id (ucast v)))"

definition get_max_object :: "sequence_state \<Rightarrow> world_state_error + obj" where
  "get_max_object seqs = seq_objid (seq_load seqs SEQUENCE_MAX_OBJECT)"

definition get_object_owner :: "obj \<Rightarrow> ('x, obj) wm" where
  "get_object_owner ob =
     wbind (rel_read value_obj ObjectOwner (KObj ob)) (\<lambda>r.
       wret (case r of None \<Rightarrow> NOTHING | Some p \<Rightarrow> p))"

definition set_object_flags :: "obj \<Rightarrow> bit_enum \<Rightarrow> ('x, unit) wm" where
  "set_object_flags ob flags =
     wbind (rel_upsert_with ObjectFlags (KObj ob) (\<lambda>current.
              if Option.bind current value_flags = Some flags then None else Some (VFlags flags)))
       (\<lambda>_. wret ())"

definition get_object_name :: "obj \<Rightarrow> ('x, string) wm" where
  "get_object_name ob =
     wbind (rel_read value_name ObjectName (KObj ob)) (\<lambda>r.
       case r of None \<Rightarrow> wfail (ObjectNotFound ob) | Some name \<Rightarrow> wret name)"

definition set_object_name :: "obj \<Rightarrow> string \<Rightarrow> ('x, unit) wm" where
  "set_object_name ob name =
     wbind (rel_upsert_with ObjectName (KObj ob) (\<lambda>current.
              if Option.bind current value_name = Some name then None else Some (VName name)))
       (\<lambda>_. wret ())"

definition get_object_children :: "obj \<Rightarrow> ('x, obj list) wm" where
  "get_object_children ob =
     wbind (rel_by_codomain ObjectParent (VObj ob)) (\<lambda>ks. wret (map key_obj ks))"

definition get_owned_objects :: "obj \<Rightarrow> ('x, obj list) wm" where
  "get_owned_objects owner =
     wbind (rel_by_codomain ObjectOwner (VObj owner)) (\<lambda>ks. wret (map key_obj ks))"

definition get_object_contents :: "obj \<Rightarrow> ('x, obj list) wm" where
  "get_object_contents ob =
     wbind (rel_by_codomain ObjectLocation (VObj ob)) (\<lambda>ks. wret (map key_obj ks))"

text \<open>Breadth first: the queue, and the objects taken from it so far.\<close>

partial_function (option) descendants_loop ::
  "obj list \<Rightarrow> obj list \<Rightarrow> 'x ws_transaction
     \<Rightarrow> ('x ws_transaction \<times> (world_state_error + obj list)) option" where
  "descendants_loop queue results t =
     (case queue of
        [] \<Rightarrow> Some (t, Inr results)
      | ob # queue' \<Rightarrow>
          (case get_object_children ob t of
             None \<Rightarrow> None
           | Some (t', Inl e) \<Rightarrow> Some (t', Inl e)
           | Some (t', Inr children) \<Rightarrow> descendants_loop (queue' @ children) (results @ [ob]) t'))"

definition descendants :: "obj \<Rightarrow> bool \<Rightarrow> ('x, obj list) wm" where
  "descendants ob include_self =
     wbind (get_object_children ob) (\<lambda>children.
       wbind (descendants_loop children []) (\<lambda>results.
         wret (if include_self then ob # results else results)))"

definition branch_objects :: "obj \<Rightarrow> ('x, obj list) wm" where
  "branch_objects root = descendants root True"

definition set_object_parent :: "obj \<Rightarrow> obj \<Rightarrow> ('x, unit) wm" where
  "set_object_parent ob new_parent =
     wbind (rel_read value_obj ObjectParent (KObj ob)) (\<lambda>current.
       if current = Some new_parent then wret ()
       else
         wbind (branch_objects ob) (\<lambda>objects.
           edit (EditHierarchy objects)
             (wbind (upsert ObjectParent (KObj ob) (VObj new_parent)) (\<lambda>_. wret ()))))"

definition set_initial_object_parent :: "obj \<Rightarrow> obj \<Rightarrow> ('x, unit) wm" where
  "set_initial_object_parent ob parent =
     edit (EditHierarchy [ob])
       (if is_anonymous ob \<or> is_uuobjid ob
        then wexpect (insert_guaranteed_unique ObjectParent (KObj ob) (VObj parent))
        else wexpect (rel_insert ObjectParent (KObj ob) (VObj parent)))"

section \<open>Containment\<close>

definition get_object_location :: "obj \<Rightarrow> ('x, obj) wm" where
  "get_object_location ob =
     wbind (rel_read value_obj ObjectLocation (KObj ob)) (\<lambda>r.
       wret (case r of None \<Rightarrow> NOTHING | Some p \<Rightarrow> p))"

text \<open>The search for a recursive move: \<open>Inr True\<close> when it finds \<open>what\<close>.\<close>

partial_function (option) recursive_move_loop ::
  "'x db_rt \<Rightarrow> obj \<Rightarrow> obj \<Rightarrow> (world_state_error + bool) option" where
  "recursive_move_loop rt what oid =
     (if is_nothing oid then Some (Inr False)
      else if oid = what then Some (Inr True)
      else
        case rt_get rt (KObj oid) of
          Inl e \<Rightarrow> Some (Inl (database_error e))
        | Inr v \<Rightarrow>
            (case Option.bind v value_obj of
               None \<Rightarrow> Some (Inr False)
             | Some location \<Rightarrow> recursive_move_loop rt what location))"

definition set_object_location :: "obj \<Rightarrow> obj \<Rightarrow> ('x, unit) wm" where
  "set_object_location what new_location t =
     (case recursive_move_loop (wt_rel t ObjectLocation) what new_location of
        None \<Rightarrow> None
      | Some (Inl e) \<Rightarrow> Some (t, Inl e)
      | Some (Inr True) \<Rightarrow> Some (t, Inl (RecursiveMove what new_location))
      | Some (Inr False) \<Rightarrow>
          wbind (rel_read value_obj ObjectLocation (KObj what)) (\<lambda>old_location.
            if old_location = Some new_location then wret ()
            else wbind (upsert ObjectLocation (KObj what) (VObj new_location)) (\<lambda>_. wret ())) t)"

definition set_initial_object_location :: "obj \<Rightarrow> obj \<Rightarrow> ('x, unit) wm" where
  "set_initial_object_location what new_location =
     wbind (upsert ObjectLocation (KObj what) (VObj new_location)) (\<lambda>_. wret ())"

section \<open>Creation\<close>

datatype object_kind = Objid obj | NextObjid | UuObjId | Anonymous

record obj_attrs =
  oa_owner :: obj
  oa_parent :: obj
  oa_location :: obj
  oa_flags :: bit_enum
  oa_name :: string

definition attrs_owner :: "obj_attrs \<Rightarrow> obj option" where
  "attrs_owner a = (if oa_owner a = NOTHING then None else Some (oa_owner a))"

definition attrs_parent :: "obj_attrs \<Rightarrow> obj option" where
  "attrs_parent a = (if oa_parent a = NOTHING then None else Some (oa_parent a))"

definition attrs_location :: "obj_attrs \<Rightarrow> obj option" where
  "attrs_location a = (if oa_location a = NOTHING then None else Some (oa_location a))"

definition attrs_name :: "obj_attrs \<Rightarrow> string option" where
  "attrs_name a = (if oa_name a = [] then None else Some (oa_name a))"

text \<open>The id of a new object; \<open>gen\<close> is a generated identifier.\<close>

definition new_object_id ::
  "64 word \<Rightarrow> object_kind \<Rightarrow> sequence_state \<Rightarrow> sequence_state \<times> (world_state_error + obj)" where
  "new_object_id gen id_kind seqs =
     (case id_kind of
        Objid ob \<Rightarrow> (seqs, Inr ob)
      | NextObjid \<Rightarrow> (let (seqs', max_id) = seq_increment seqs SEQUENCE_MAX_OBJECT in (seqs', seq_objid max_id))
      | UuObjId \<Rightarrow> (seqs, Inr (mk_uuobjid gen))
      | Anonymous \<Rightarrow> (seqs, Inr (mk_anonymous gen)))"

definition insert_object :: "obj \<Rightarrow> obj_attrs \<Rightarrow> ('x, unit) wm" where
  "insert_object ob attrs =
     wbind (wexpect (insert_guaranteed_unique ObjectOwner (KObj ob)
              (VObj (case attrs_owner attrs of None \<Rightarrow> ob | Some owner \<Rightarrow> owner)))) (\<lambda>_.
     wbind (wexpect (insert_guaranteed_unique ObjectName (KObj ob)
              (VName (case attrs_name attrs of None \<Rightarrow> [] | Some name \<Rightarrow> name)))) (\<lambda>_.
     wbind (case attrs_parent attrs of
              None \<Rightarrow> wret ()
            | Some parent \<Rightarrow> wexpect (set_initial_object_parent ob parent)) (\<lambda>_.
     wbind (case attrs_location attrs of
              None \<Rightarrow> wret ()
            | Some location \<Rightarrow> wexpect (set_initial_object_location ob location)) (\<lambda>_.
     wexpect (insert_guaranteed_unique ObjectFlags (KObj ob) (VFlags (oa_flags attrs)))))))"

definition create_object ::
  "64 word \<Rightarrow> object_kind \<Rightarrow> obj_attrs \<Rightarrow> sequence_state \<Rightarrow> 'x ws_transaction
     \<Rightarrow> (sequence_state \<times> 'x ws_transaction \<times> (world_state_error + obj)) option" where
  "create_object gen id_kind attrs seqs t =
     (case new_object_id gen id_kind seqs of
        (seqs', Inl e) \<Rightarrow> Some (seqs', t, Inl e)
      | (seqs', Inr ob) \<Rightarrow>
          (case insert_object ob attrs t of
             None \<Rightarrow> None
           | Some (t', Inl e) \<Rightarrow> Some (seqs', t', Inl e)
           | Some (t', Inr u) \<Rightarrow>
               if \<not> is_uuobjid ob \<and> \<not> is_anonymous ob
               then (case objid ob of
                       None \<Rightarrow> None
                     | Some n \<Rightarrow> Some (fst (seq_update_max seqs' SEQUENCE_MAX_OBJECT (scast n)), t', Inr ob))
               else Some (seqs', t', Inr ob)))"

section \<open>Queries\<close>

record object_query =
  q_parent :: "obj option"
  q_location :: "obj option"
  q_owner :: "obj option"
  q_flags_all :: "bit_enum option"
  q_flags_any :: "bit_enum option"

text \<open>\<open>unwrap_or(NOTHING)\<close>.\<close>

definition or_nothing :: "('x, obj) wm \<Rightarrow> ('x, obj) wm" where
  "or_nothing m = wbind (wtry m) (\<lambda>r. wret (case r of Inl e \<Rightarrow> NOTHING | Inr ob \<Rightarrow> ob))"

definition check_filter :: "bool \<Rightarrow> obj option \<Rightarrow> ('x, obj) wm \<Rightarrow> ('x, bool) wm" where
  "check_filter other filter_by read =
     (case filter_by of
        None \<Rightarrow> wret True
      | Some wanted \<Rightarrow> if other then wbind (or_nothing read) (\<lambda>ob. wret (ob = wanted)) else wret True)"

definition check_flags :: "object_query \<Rightarrow> obj \<Rightarrow> ('x, bool) wm" where
  "check_flags query ob =
     (if q_flags_all query = None \<and> q_flags_any query = None then wret True
      else
        wbind (wtry (get_object_flags ob)) (\<lambda>r.
          case r of
            Inl e \<Rightarrow> wret False
          | Inr flags \<Rightarrow>
              wret ((case q_flags_all query of None \<Rightarrow> True | Some required \<Rightarrow> be_contains_all flags required)
                \<and> (case q_flags_any query of None \<Rightarrow> True | Some any_of \<Rightarrow> be_contains_any flags any_of))))"

definition query_candidate :: "object_query \<Rightarrow> obj \<Rightarrow> ('x, bool) wm" where
  "query_candidate query ob =
     wbind (check_filter (q_location query \<noteq> None \<or> q_owner query \<noteq> None) (q_parent query) (get_object_parent ob)) (\<lambda>p.
       if \<not> p then wret False
       else wbind (check_filter (q_parent query \<noteq> None \<or> q_owner query \<noteq> None) (q_location query) (get_object_location ob)) (\<lambda>l.
         if \<not> l then wret False
         else wbind (check_filter (q_location query \<noteq> None \<or> q_parent query \<noteq> None) (q_owner query) (get_object_owner ob)) (\<lambda>w.
           if \<not> w then wret False else check_flags query ob)))"

definition query_candidates :: "object_query \<Rightarrow> ('x, obj list) wm" where
  "query_candidates query =
     (case q_location query of
        Some location \<Rightarrow> get_object_contents location
      | None \<Rightarrow>
          (case q_parent query of
             Some parent \<Rightarrow> get_object_children parent
           | None \<Rightarrow>
               (case q_owner query of
                  Some owner \<Rightarrow> get_owned_objects owner
                | None \<Rightarrow> get_objects)))"

definition query_objects :: "object_query \<Rightarrow> ('x, obj list) wm" where
  "query_objects query =
     wbind (query_candidates query) (\<lambda>candidates.
       wfold (\<lambda>ob results.
           wbind (query_candidate query ob) (\<lambda>ok. wret (if ok then results @ [ob] else results)))
         candidates [])"

end
