(* ===== verification/WorldVerbs.thy ===== *)
theory WorldVerbs
  imports WorldOps
begin

text \<open>
  Verbs of \<^verbatim>\<open>db/src/engine/ws_transaction.rs\<close>: definitions, programs, and the resolution of a verb
  name along the parents of an object, through the verb cache. The parameter \<open>txt\<close> gives the text of
  a symbol (\<open>Symbol::as_str\<close>, a read of the global interner); verb names are patterns matched
  against it.
\<close>

definition verbdef_matches_name :: "(symbol_id \<Rightarrow> chars) \<Rightarrow> verbdef \<Rightarrow> symbol_id \<Rightarrow> bool" where
  "verbdef_matches_name txt v name = verb_matches_name (map txt (vd_names v)) (txt name)"

definition get_verbs :: "obj \<Rightarrow> ('x, verbdef list) wm" where
  "get_verbs ob =
     wbind (rel_read value_verbdefs ObjectVerbdefs (KObj ob)) (\<lambda>r.
       wret (case r of None \<Rightarrow> [] | Some ds \<Rightarrow> ds))"

definition get_verb_program :: "obj \<Rightarrow> uuid \<Rightarrow> ('x, 'x) wm" where
  "get_verb_program ob u =
     wbind (rel_read value_program ObjectVerbs (KVerb ob u)) (\<lambda>r.
       case r of None \<Rightarrow> wfail (VerbNotFound ob) | Some program \<Rightarrow> wret program)"

text \<open>\<open>with_domain_value\<close> on the definitions of an object, flattened.\<close>

definition with_verbdefs :: "obj \<Rightarrow> (verbdef list \<Rightarrow> 'a option) \<Rightarrow> ('x, 'a option) wm" where
  "with_verbdefs ob f =
     wbind (rel_with ObjectVerbdefs (KObj ob) (\<lambda>v. Option.bind (value_verbdefs v) f)) (\<lambda>r.
       wret (Option.bind r (\<lambda>a. a)))"

definition lookup_resolved_verbdef :: "obj \<Rightarrow> resolved_verb \<Rightarrow> ('x, verbdef) wm" where
  "lookup_resolved_verbdef receiver resolved =
     wbind (with_verbdefs (rv_location resolved) (\<lambda>ds. defs_find vd_uuid ds (rv_uuid resolved))) (\<lambda>r.
       case r of None \<Rightarrow> wfail (VerbNotFound receiver) | Some verbdef \<Rightarrow> wret verbdef)"

text \<open>The search on the object itself, which fills the cache on success only.\<close>

definition direct_verb :: "(symbol_id \<Rightarrow> chars) \<Rightarrow> obj \<Rightarrow> symbol_id \<Rightarrow> ('x, verbdef) wm" where
  "direct_verb txt ob name =
     wbind (with_verbdefs ob (\<lambda>ds. defs_find_first_named (verbdef_matches_name txt) ds name)) (\<lambda>r.
       case r of
         None \<Rightarrow> wfail (VerbNotFound ob)
       | Some verb \<Rightarrow>
           wbind (wmodify (on_verbs (\<lambda>c. vc_fill_hit c ob name (as_resolved verb)))) (\<lambda>_. wret verb))"

definition get_verb_by_name :: "(symbol_id \<Rightarrow> chars) \<Rightarrow> obj \<Rightarrow> symbol_id \<Rightarrow> ('x, verbdef) wm" where
  "get_verb_by_name txt ob name =
     wbind (wstate (\<lambda>t. vc_lookup (verb_resolution_cache (wt_caches t)) ob name)) (\<lambda>cached.
       case cached of
         Some (Some resolved) \<Rightarrow>
           if rv_location resolved = ob then lookup_resolved_verbdef ob resolved
           else direct_verb txt ob name
       | Some None \<Rightarrow> wfail (VerbNotFound ob)
       | None \<Rightarrow> direct_verb txt ob name)"

definition get_verb_by_index :: "obj \<Rightarrow> nat \<Rightarrow> ('x, verbdef) wm" where
  "get_verb_by_index ob index =
     wbind (with_verbdefs ob (\<lambda>ds. Some (length ds))) (\<lambda>len.
       if index \<ge> (case len of None \<Rightarrow> 0 | Some n \<Rightarrow> n) then wfail (VerbNotFound ob)
       else
         wbind (with_verbdefs ob (\<lambda>ds. if index < length ds then Some (ds ! index) else None)) (\<lambda>r.
           case r of None \<Rightarrow> wfail (VerbNotFound ob) | Some verbdef \<Rightarrow> wret verbdef))"

definition builtin_proxy_cache_snapshot :: "('x, 64 word list) wm" where
  "builtin_proxy_cache_snapshot =
     wstate (\<lambda>t. vc_builtin_proxy_cache_snapshot (verb_resolution_cache (wt_caches t)))"

definition mark_builtin_proxy_absent :: "16 word \<Rightarrow> ('x, unit) wm" where
  "mark_builtin_proxy_absent builtin = wmodify (on_verbs (\<lambda>c. vc_mark_builtin_proxy_absent c builtin))"

text \<open>
  The walk of \<open>resolve_verb_handle\<close> from \<open>search_o\<close>; the closure given to \<open>with_domain_value\<close> runs
  when the object has definitions, and fills the two caches.
\<close>

partial_function (option) resolve_verb_loop ::
  "(symbol_id \<Rightarrow> chars) \<Rightarrow> obj \<Rightarrow> symbol_id \<Rightarrow> verb_args_spec option \<Rightarrow> bit_enum option \<Rightarrow> obj \<Rightarrow> bool
     \<Rightarrow> 'x ws_transaction \<Rightarrow> ('x ws_transaction \<times> (world_state_error + resolved_verb option)) option" where
  "resolve_verb_loop txt ob name argspec flagspec search_o first_parent_hit t =
     (case rt_with_domain_value (wt_rel t ObjectVerbdefs) (KObj search_o) value_verbdefs of
        Inl e \<Rightarrow> Some (t, Inl (database_error e))
      | Inr r \<Rightarrow>
          let verbdefs = Option.bind r (\<lambda>ds. ds);
              t1 = (if verbdefs \<noteq> None \<and> \<not> first_parent_hit
                    then on_verbs (\<lambda>c. vc_fill_first_parent c ob (Some search_o)) t else t)
          in case Option.bind verbdefs (find (\<lambda>verb. verbdef_matches_name txt verb name
                                               \<and> verbdef_matches_spec verb argspec flagspec)) of
               Some verb \<Rightarrow>
                 Some (on_verbs (\<lambda>c. vc_fill_hit_spec c ob name argspec flagspec (as_resolved verb)) t1,
                       Inr (Some (as_resolved verb)))
             | None \<Rightarrow>
                 (case parent_of (wt_rel t1 ObjectParent) search_o of
                    Inl e \<Rightarrow> Some (t1, Inl e)
                  | Inr parent \<Rightarrow>
                      if is_nothing parent then Some (t1, Inr None)
                      else resolve_verb_loop txt ob name argspec flagspec parent
                             (first_parent_hit \<or> verbdefs \<noteq> None) t1))"

definition resolve_verb_walk ::
  "(symbol_id \<Rightarrow> chars) \<Rightarrow> obj \<Rightarrow> symbol_id \<Rightarrow> verb_args_spec option \<Rightarrow> bit_enum option
     \<Rightarrow> ('x, resolved_verb) wm" where
  "resolve_verb_walk txt ob name argspec flagspec =
     wbind (wstate (\<lambda>t. vc_lookup_first_parent (verb_resolution_cache (wt_caches t)) ob)) (\<lambda>first_parent.
       if first_parent = Some None then wfail (VerbNotFound ob)
       else
         wbind (case first_parent of
                  Some (Some search_o) \<Rightarrow> resolve_verb_loop txt ob name argspec flagspec search_o True
                | _ \<Rightarrow> resolve_verb_loop txt ob name argspec flagspec ob False) (\<lambda>r.
           case r of
             Some resolved \<Rightarrow> wret resolved
           | None \<Rightarrow>
               wbind (wmodify (on_verbs (\<lambda>c. vc_fill_miss_spec c ob name argspec flagspec))) (\<lambda>_.
                 wfail (VerbNotFound ob))))"

definition resolve_verb_handle ::
  "(symbol_id \<Rightarrow> chars) \<Rightarrow> obj \<Rightarrow> symbol_id \<Rightarrow> verb_args_spec option \<Rightarrow> bit_enum option
     \<Rightarrow> ('x, resolved_verb) wm" where
  "resolve_verb_handle txt ob name argspec flagspec =
     wbind (wstate (\<lambda>t. vc_lookup_spec (verb_resolution_cache (wt_caches t)) ob name argspec flagspec)) (\<lambda>cached.
       case cached of
         Some None \<Rightarrow> wfail (VerbNotFound ob)
       | Some (Some resolved) \<Rightarrow>
           if resolved_matches_spec resolved argspec flagspec then wret resolved
           else resolve_verb_walk txt ob name argspec flagspec
       | None \<Rightarrow> resolve_verb_walk txt ob name argspec flagspec)"

definition resolve_verb ::
  "(symbol_id \<Rightarrow> chars) \<Rightarrow> obj \<Rightarrow> symbol_id \<Rightarrow> verb_args_spec option \<Rightarrow> bit_enum option
     \<Rightarrow> ('x, verbdef) wm" where
  "resolve_verb txt ob name argspec flagspec =
     wbind (resolve_verb_handle txt ob name argspec flagspec) (lookup_resolved_verbdef ob)"

definition resolve_verb_cached ::
  "obj \<Rightarrow> symbol_id \<Rightarrow> verb_args_spec option \<Rightarrow> bit_enum option \<Rightarrow> ('x, verbdef) wm" where
  "resolve_verb_cached ob name argspec flagspec =
     wbind (wstate (\<lambda>t. vc_lookup_spec (verb_resolution_cache (wt_caches t)) ob name argspec flagspec)) (\<lambda>cached.
       case cached of
         Some (Some resolved) \<Rightarrow>
           if \<not> resolved_matches_spec resolved argspec flagspec then wfail (VerbNotFound ob)
           else lookup_resolved_verbdef ob resolved
       | _ \<Rightarrow> wfail (VerbNotFound ob))"

definition resolve_verb_by_uuid_handle ::
  "obj \<Rightarrow> obj \<Rightarrow> uuid \<Rightarrow> verb_args_spec option \<Rightarrow> bit_enum option \<Rightarrow> ('x, resolved_verb) wm" where
  "resolve_verb_by_uuid_handle receiver definer u argspec flagspec =
     wbind (get_verbs definer) (\<lambda>verbs.
       case defs_find vd_uuid verbs u of
         None \<Rightarrow> wfail (VerbNotFound receiver)
       | Some verbdef \<Rightarrow>
           let resolved = as_resolved verbdef
           in if \<not> resolved_matches_spec resolved argspec flagspec then wfail (VerbNotFound receiver)
              else wret resolved)"

definition resolve_verb_by_uuid ::
  "obj \<Rightarrow> obj \<Rightarrow> uuid \<Rightarrow> verb_args_spec option \<Rightarrow> bit_enum option \<Rightarrow> ('x, verbdef) wm" where
  "resolve_verb_by_uuid receiver definer u argspec flagspec =
     wbind (get_verbs definer) (\<lambda>verbs.
       case defs_find vd_uuid verbs u of
         None \<Rightarrow> wfail (VerbNotFound receiver)
       | Some verbdef \<Rightarrow>
           if \<not> verbdef_matches_spec verbdef argspec flagspec then wfail (VerbNotFound receiver)
           else wret verbdef)"

section \<open>Changes\<close>

record 'x verb_attrs =
  va_definer :: "obj option"
  va_owner :: "obj option"
  va_names :: "symbol_id list option"
  va_flags :: "bit_enum option"
  va_args_spec :: "verb_args_spec option"
  va_program :: "'x option"

definition verbdef_with_attrs :: "'x verb_attrs \<Rightarrow> verbdef \<Rightarrow> verbdef" where
  "verbdef_with_attrs attrs ov =
     verbdef_new (vd_uuid ov) (vd_location ov)
       (case va_owner attrs of None \<Rightarrow> vd_owner ov | Some owner \<Rightarrow> owner)
       (case va_names attrs of None \<Rightarrow> vd_names ov | Some names \<Rightarrow> names)
       (case va_flags attrs of None \<Rightarrow> vd_flags ov | Some flags \<Rightarrow> flags)
       (case va_args_spec attrs of None \<Rightarrow> vd_args ov | Some args \<Rightarrow> args)"

text \<open>\<open>update_with\<close> gives the definitions before the update.\<close>

definition update_verb :: "obj \<Rightarrow> uuid \<Rightarrow> 'x verb_attrs \<Rightarrow> ('x, unit) wm" where
  "update_verb ob u attrs =
     wbind (branch_objects ob) (\<lambda>objects.
       edit (EditVerbs objects)
         (wbind (rel_update_with ObjectVerbdefs (KObj ob) (\<lambda>v.
                   Option.bind (value_verbdefs v) (\<lambda>ds.
                     map_option VVerbdefs (defs_with_updated vd_uuid ds u (verbdef_with_attrs attrs))))) (\<lambda>updated.
            case Option.bind updated value_verbdefs of
              None \<Rightarrow> wfail (VerbNotFound ob)
            | Some verbdefs \<Rightarrow>
                if defs_find vd_uuid verbdefs u = None then wfail (VerbNotFound ob)
                else
                  case va_program attrs of
                    None \<Rightarrow> wret ()
                  | Some program \<Rightarrow>
                      wbind (upsert ObjectVerbs (KVerb ob u) (VProgram program)) (\<lambda>_. wret ()))))"

definition add_object_verb ::
  "uuid \<Rightarrow> obj \<Rightarrow> obj \<Rightarrow> symbol_id list \<Rightarrow> 'x \<Rightarrow> bit_enum \<Rightarrow> verb_args_spec \<Rightarrow> ('x, unit) wm" where
  "add_object_verb u ob owner names program flags args =
     wbind (get_verbs ob) (\<lambda>verbdefs.
       let verbdefs = defs_with_added verbdefs (verbdef_new u ob owner names flags args)
       in wbind (branch_objects ob) (\<lambda>objects.
            edit (EditVerbs objects)
              (wbind (upsert ObjectVerbdefs (KObj ob) (VVerbdefs verbdefs)) (\<lambda>_.
                 wbind (upsert ObjectVerbs (KVerb ob u) (VProgram program)) (\<lambda>_. wret ())))))"

section \<open>Metadata\<close>

text \<open>The kinds of entities that carry metadata, and the tests on their keys.\<close>

definition ENTITY_OBJECT :: "8 word" where
  "ENTITY_OBJECT = 0"

definition ENTITY_PROPERTY :: "8 word" where
  "ENTITY_PROPERTY = 1"

definition ENTITY_VERB :: "8 word" where
  "ENTITY_VERB = 2"

definition object_metadata_key :: "obj \<Rightarrow> symbol_id \<Rightarrow> db_key" where
  "object_metadata_key ob key = KEntity ob ENTITY_OBJECT 0 (compare_id key)"

definition property_metadata_key :: "obj \<Rightarrow> uuid \<Rightarrow> symbol_id \<Rightarrow> db_key" where
  "property_metadata_key holder u key = KEntity holder ENTITY_PROPERTY u (compare_id key)"

definition verb_metadata_key :: "obj \<Rightarrow> uuid \<Rightarrow> symbol_id \<Rightarrow> db_key" where
  "verb_metadata_key location u key = KEntity location ENTITY_VERB u (compare_id key)"

fun is_property_key_for :: "obj \<Rightarrow> uuid \<Rightarrow> db_key \<Rightarrow> bool" where
  "is_property_key_for holder u (KEntity ob tag u' y) \<longleftrightarrow> tag = ENTITY_PROPERTY \<and> ob = holder \<and> u' = u"
| "is_property_key_for holder u k \<longleftrightarrow> False"

fun is_verb_key_for :: "obj \<Rightarrow> uuid \<Rightarrow> db_key \<Rightarrow> bool" where
  "is_verb_key_for location u (KEntity ob tag u' y) \<longleftrightarrow> tag = ENTITY_VERB \<and> ob = location \<and> u' = u"
| "is_verb_key_for location u k \<longleftrightarrow> False"

fun references_obj :: "obj \<Rightarrow> db_key \<Rightarrow> bool" where
  "references_obj ob (KEntity ob' tag u y) \<longleftrightarrow> ob' = ob"
| "references_obj ob k \<longleftrightarrow> False"

fun rehome_obj :: "obj \<Rightarrow> obj \<Rightarrow> db_key \<Rightarrow> db_key option" where
  "rehome_obj old_obj new_obj (KEntity ob tag u y) =
     (if ob \<noteq> old_obj then None else Some (KEntity new_obj tag u y))"
| "rehome_obj old_obj new_obj k = None"

definition get_metadata :: "db_key \<Rightarrow> ('x, 'x db_value option) wm" where
  "get_metadata key = rel_get EntityMetadata key"

definition set_metadata :: "db_key \<Rightarrow> 'x db_value \<Rightarrow> ('x, unit) wm" where
  "set_metadata key value = wbind (upsert EntityMetadata key value) (\<lambda>_. wret ())"

definition clear_metadata :: "db_key \<Rightarrow> ('x, unit) wm" where
  "clear_metadata key = wbind (rel_delete EntityMetadata key) (\<lambda>_. wret ())"

definition get_object_metadata :: "obj \<Rightarrow> symbol_id \<Rightarrow> ('x, 'x db_value option) wm" where
  "get_object_metadata ob key = get_metadata (object_metadata_key ob key)"

definition set_object_metadata :: "obj \<Rightarrow> symbol_id \<Rightarrow> 'x db_value \<Rightarrow> ('x, unit) wm" where
  "set_object_metadata ob key value = set_metadata (object_metadata_key ob key) value"

definition clear_object_metadata :: "obj \<Rightarrow> symbol_id \<Rightarrow> ('x, unit) wm" where
  "clear_object_metadata ob key = clear_metadata (object_metadata_key ob key)"

definition get_property_metadata :: "obj \<Rightarrow> uuid \<Rightarrow> symbol_id \<Rightarrow> ('x, 'x db_value option) wm" where
  "get_property_metadata holder u key = get_metadata (property_metadata_key holder u key)"

definition set_property_metadata :: "obj \<Rightarrow> uuid \<Rightarrow> symbol_id \<Rightarrow> 'x db_value \<Rightarrow> ('x, unit) wm" where
  "set_property_metadata holder u key value = set_metadata (property_metadata_key holder u key) value"

definition clear_property_metadata :: "obj \<Rightarrow> uuid \<Rightarrow> symbol_id \<Rightarrow> ('x, unit) wm" where
  "clear_property_metadata holder u key = clear_metadata (property_metadata_key holder u key)"

definition get_verb_metadata :: "obj \<Rightarrow> uuid \<Rightarrow> symbol_id \<Rightarrow> ('x, 'x db_value option) wm" where
  "get_verb_metadata location u key = get_metadata (verb_metadata_key location u key)"

definition set_verb_metadata :: "obj \<Rightarrow> uuid \<Rightarrow> symbol_id \<Rightarrow> 'x db_value \<Rightarrow> ('x, unit) wm" where
  "set_verb_metadata location u key value = set_metadata (verb_metadata_key location u key) value"

definition clear_verb_metadata :: "obj \<Rightarrow> uuid \<Rightarrow> symbol_id \<Rightarrow> ('x, unit) wm" where
  "clear_verb_metadata location u key = clear_metadata (verb_metadata_key location u key)"

fun is_object_metadata_named :: "symbol_id \<Rightarrow> db_key \<Rightarrow> bool" where
  "is_object_metadata_named key (KEntity ob tag u y) \<longleftrightarrow> tag = ENTITY_OBJECT \<and> y = compare_id key"
| "is_object_metadata_named key k \<longleftrightarrow> False"

text \<open>The result is sorted by the object word and freed of repetitions.\<close>

definition objects_with_metadata :: "symbol_id \<Rightarrow> 'x db_value option \<Rightarrow> ('x, obj list) wm" where
  "objects_with_metadata key value =
     wbind (case value of
              Some v \<Rightarrow>
                wbind (rel_by_codomain EntityMetadata v) (\<lambda>ks.
                  wret (map key_obj (filter (is_object_metadata_named key) ks)))
            | None \<Rightarrow>
                wbind (rel_scan EntityMetadata (\<lambda>k _. is_object_metadata_named key k)) (\<lambda>rows.
                  wret (map (key_obj \<circ> fst) rows)))
       (\<lambda>objects. wret (remdups_adj (sort_key obj_word objects)))"

text \<open>The three clean-ups of an edit: every key of the scan is deleted.\<close>

definition delete_metadata_where :: "(db_key \<Rightarrow> bool) \<Rightarrow> ('x, unit) wm" where
  "delete_metadata_where P =
     wbind (rel_scan EntityMetadata (\<lambda>k _. P k)) (\<lambda>rows. wfor (rel_delete EntityMetadata) (map fst rows))"

definition delete_metadata_for_obj :: "obj \<Rightarrow> ('x, unit) wm" where
  "delete_metadata_for_obj ob = delete_metadata_where (references_obj ob)"

definition delete_property_metadata_for_holder :: "obj \<Rightarrow> uuid \<Rightarrow> ('x, unit) wm" where
  "delete_property_metadata_for_holder holder u = delete_metadata_where (is_property_key_for holder u)"

definition delete_verb_metadata_for_holder :: "obj \<Rightarrow> uuid \<Rightarrow> ('x, unit) wm" where
  "delete_verb_metadata_for_holder holder u = delete_metadata_where (is_verb_key_for holder u)"

section \<open>Removal of a verb\<close>

definition delete_verb :: "obj \<Rightarrow> uuid \<Rightarrow> ('x, unit) wm" where
  "delete_verb location u =
     wbind (get_verbs location) (\<lambda>verbdefs.
       case defs_with_removed vd_uuid verbdefs u of
         None \<Rightarrow> wfail (VerbNotFound location)
       | Some verbdefs' \<Rightarrow>
           wbind (branch_objects location) (\<lambda>objects.
             edit (EditVerbs objects)
               (wbind (upsert ObjectVerbdefs (KObj location) (VVerbdefs verbdefs')) (\<lambda>_.
                  wbind (rel_delete ObjectVerbs (KVerb location u)) (\<lambda>_.
                    delete_verb_metadata_for_holder location u)))))"

end
