(* ===== verification/WorldProps.thy ===== *)
theory WorldProps
  imports WorldVerbs
begin

text \<open>
  Properties of \<^verbatim>\<open>db/src/engine/ws_transaction.rs\<close>: definitions shared along a branch of the hierarchy,
  values that may be clear and are then inherited, permissions that are stored lazily, and the
  memo of permissions a transaction keeps. \<open>nv\<close> is the representation of the value none; a fresh
  identifier (\<open>Uuid::new_v4\<close>) is an argument.
\<close>

definition v_none :: "'x \<Rightarrow> 'x db_value" where
  "v_none nv = VVar 0 nv"

fun is_none_value :: "'x \<Rightarrow> 'x db_value \<Rightarrow> bool" where
  "is_none_value nv (VVar hint x) \<longleftrightarrow> x = nv"
| "is_none_value nv v \<longleftrightarrow> False"

section \<open>Definitions\<close>

definition get_properties :: "obj \<Rightarrow> ('x, propdef list) wm" where
  "get_properties ob =
     wbind (rel_read value_propdefs ObjectPropdefs (KObj ob)) (\<lambda>r.
       wret (case r of None \<Rightarrow> [] | Some ds \<Rightarrow> ds))"

definition with_propdefs :: "obj \<Rightarrow> (propdef list \<Rightarrow> 'a option) \<Rightarrow> ('x, 'a option) wm" where
  "with_propdefs ob f =
     wbind (rel_with ObjectPropdefs (KObj ob) (\<lambda>v. Option.bind (value_propdefs v) f)) (\<lambda>r.
       wret (Option.bind r (\<lambda>a. a)))"

fun find_in_ancestors :: "uuid \<Rightarrow> obj list \<Rightarrow> ('x, propdef option) wm" where
  "find_in_ancestors u [] = wret None"
| "find_in_ancestors u (ancestor # rest) =
     wbind (with_propdefs ancestor (\<lambda>props. defs_find pd_uuid props u)) (\<lambda>found.
       case found of Some prop \<Rightarrow> wret (Some prop) | None \<Rightarrow> find_in_ancestors u rest)"

definition find_property_by_uuid :: "obj \<Rightarrow> uuid \<Rightarrow> ('x, propdef) wm" where
  "find_property_by_uuid ob u =
     wbind (ancestors ob True) (\<lambda>line.
       wbind (find_in_ancestors u line) (\<lambda>found.
         case found of None \<Rightarrow> wfail (PropertyNotFound ob) | Some prop \<Rightarrow> wret prop))"

text \<open>
  The two walks of \<open>find_property_by_name\<close>: to the first object with definitions, and on to the
  first with the name. An error of a read ends them without an answer (\<open>.ok()?\<close>): \<open>Inl\<close>.
\<close>

partial_function (option) first_props_loop :: "'x ws_transaction \<Rightarrow> obj \<Rightarrow> (world_state_error + obj option) option" where
  "first_props_loop t search_o =
     (case rt_with_domain_value (wt_rel t ObjectPropdefs) (KObj search_o) value_propdefs of
        Inl e \<Rightarrow> Some (Inl (database_error e))
      | Inr r \<Rightarrow>
          if (case Option.bind r (\<lambda>ds. ds) of None \<Rightarrow> False | Some propdefs \<Rightarrow> propdefs \<noteq> [])
          then Some (Inr (Some search_o))
          else
            (case parent_of (wt_rel t ObjectParent) search_o of
               Inl e \<Rightarrow> Some (Inl e)
             | Inr parent \<Rightarrow>
                 if is_nothing parent then Some (Inr None) else first_props_loop t parent))"

partial_function (option) named_prop_loop ::
  "'x ws_transaction \<Rightarrow> symbol_id \<Rightarrow> obj \<Rightarrow> (world_state_error + propdef option) option" where
  "named_prop_loop t name search_o =
     (case rt_with_domain_value (wt_rel t ObjectPropdefs) (KObj search_o) value_propdefs of
        Inl e \<Rightarrow> Some (Inl (database_error e))
      | Inr r \<Rightarrow>
          (case Option.bind (Option.bind r (\<lambda>ds. ds)) (\<lambda>ds. defs_find_first_named propdef_matches_name ds name) of
             Some propdef \<Rightarrow> Some (Inr (Some propdef))
           | None \<Rightarrow>
               (case parent_of (wt_rel t ObjectParent) search_o of
                  Inl e \<Rightarrow> Some (Inl e)
                | Inr parent \<Rightarrow>
                    if is_nothing parent then Some (Inr None) else named_prop_loop t name parent)))"

definition find_named_from :: "obj \<Rightarrow> symbol_id \<Rightarrow> obj \<Rightarrow> ('x, propdef option) wm" where
  "find_named_from ob name search_o t =
     (case named_prop_loop t name search_o of
        None \<Rightarrow> None
      | Some (Inl e) \<Rightarrow> Some (t, Inr None)
      | Some (Inr None) \<Rightarrow> Some (on_props (\<lambda>c. pc_fill_miss c ob name) t, Inr None)
      | Some (Inr (Some propdef)) \<Rightarrow>
          Some (on_props (\<lambda>c. pc_fill_hit c ob name propdef) t, Inr (Some propdef)))"

definition find_property_by_name :: "obj \<Rightarrow> symbol_id \<Rightarrow> ('x, propdef option) wm" where
  "find_property_by_name ob name t =
     (case pc_lookup (prop_resolution_cache (wt_caches t)) ob name of
        Some cache_result \<Rightarrow> Some (t, Inr cache_result)
      | None \<Rightarrow>
          (case pc_lookup_first_parent (prop_resolution_cache (wt_caches t)) ob of
             Some (Some search_o) \<Rightarrow> find_named_from ob name search_o t
           | Some None \<Rightarrow> Some (t, Inr None)
           | None \<Rightarrow>
               (case first_props_loop t ob of
                  None \<Rightarrow> None
                | Some (Inl e) \<Rightarrow> Some (t, Inr None)
                | Some (Inr None) \<Rightarrow> Some (t, Inr None)
                | Some (Inr (Some search_o)) \<Rightarrow>
                    find_named_from ob name search_o
                      (on_props (\<lambda>c. pc_fill_first_parent c ob (Some search_o)) t))))"

section \<open>Permissions\<close>

definition local_perms :: "obj \<Rightarrow> uuid \<Rightarrow> ('x, prop_perms option) wm" where
  "local_perms ob u =
     wbind (rel_with ObjectPropflags (KProperty ob u) value_perms) (\<lambda>r. wret (Option.bind r (\<lambda>p. p)))"

definition retrieve_property_permissions :: "obj \<Rightarrow> uuid \<Rightarrow> ('x, prop_perms) wm" where
  "retrieve_property_permissions ob u =
     wbind (wstate (\<lambda>t. cached_perms (wt_perm_memo t) (ob, u))) (\<lambda>cached.
       case cached of
         Some perms \<Rightarrow> wret perms
       | None \<Rightarrow>
           wbind (local_perms ob u) (\<lambda>found.
             case found of
               Some perms \<Rightarrow> wbind (wmodify (on_memo (\<lambda>m. cache_perms m (ob, u) perms))) (\<lambda>_. wret perms)
             | None \<Rightarrow>
                 wbind (find_property_by_uuid ob u) (\<lambda>propdef.
                   let defining_obj = pd_definer propdef
                   in wbind (local_perms defining_obj u) (\<lambda>r.
                        case r of
                          None \<Rightarrow> wfail DatabaseError
                        | Some canonical_perms \<Rightarrow>
                            wbind (if be_contains prop_flag_index (pp_flags canonical_perms) PropChown \<and> ob \<noteq> defining_obj
                                   then wbind (get_object_owner ob) (\<lambda>obj_owner.
                                          wret (prop_perms_with_owner canonical_perms obj_owner))
                                   else wret canonical_perms) (\<lambda>final_perms.
                              wbind (wmodify (on_memo (\<lambda>m. cache_perms m (ob, u) final_perms))) (\<lambda>_.
                                wret final_perms))))))"

definition record_inherited_policy_dependency :: "obj \<Rightarrow> uuid \<Rightarrow> ('x, unit) wm" where
  "record_inherited_policy_dependency ob u =
     wbind (rel_has ObjectPropflags (KProperty ob u)) (\<lambda>has_local.
       if has_local then wret ()
       else
         wbind (find_property_by_uuid ob u) (\<lambda>propdef.
           wmodify (\<lambda>t. t\<lparr>wt_inherited_policy_reads :=
             List.insert (pd_definer propdef, u) (wt_inherited_policy_reads t)\<rparr>)))"

section \<open>Values\<close>

definition set_property :: "'x \<Rightarrow> obj \<Rightarrow> uuid \<Rightarrow> 'x db_value \<Rightarrow> ('x, unit) wm" where
  "set_property nv ob u value =
     (if is_none_value nv value then wfail PropertyTypeMismatch
      else
        wbind (upsert ObjectPropvalues (KProperty ob u) value) (\<lambda>_.
        wbind (wstate (\<lambda>t. has_known_propflags (wt_perm_memo t) (ob, u))) (\<lambda>known.
          if known then wret ()
          else
            wbind (rel_has ObjectPropflags (KProperty ob u)) (\<lambda>has_local.
            wbind (if has_local then wret ()
                   else
                     wbind (retrieve_property_permissions ob u) (\<lambda>inherited_perms.
                     wbind (record_inherited_policy_dependency ob u) (\<lambda>_.
                       edit (EditPermissions (ob, u))
                         (wbind (upsert ObjectPropflags (KProperty ob u) (VPerms inherited_perms)) (\<lambda>_. wret ()))))) (\<lambda>_.
              wmodify (on_memo (\<lambda>m. mark_known_propflags m (ob, u))))))))"

definition retrieve_property :: "obj \<Rightarrow> uuid \<Rightarrow> ('x, 'x db_value option \<times> prop_perms) wm" where
  "retrieve_property ob u =
     wbind (rel_get ObjectPropvalues (KProperty ob u)) (\<lambda>value.
       wbind (retrieve_property_permissions ob u) (\<lambda>perms. wret (value, perms)))"

fun inherited_value :: "uuid \<Rightarrow> obj list \<Rightarrow> ('x, 'x db_value option) wm" where
  "inherited_value u [] = wret None"
| "inherited_value u (search_obj # rest) =
     wbind (rel_get ObjectPropvalues (KProperty search_obj u)) (\<lambda>value.
       case value of Some v \<Rightarrow> wret (Some v) | None \<Rightarrow> inherited_value u rest)"

definition resolve_property_by_uuid :: "'x \<Rightarrow> obj \<Rightarrow> uuid \<Rightarrow> ('x, 'x db_value \<times> prop_perms \<times> bool) wm" where
  "resolve_property_by_uuid nv ob u =
     wbind (retrieve_property ob u) (\<lambda>(pvalue, perms).
       case pvalue of
         Some value \<Rightarrow> wret (value, perms, False)
       | None \<Rightarrow>
           wbind (ancestors ob False) (\<lambda>line.
             wbind (inherited_value u line) (\<lambda>value.
               wret (case value of None \<Rightarrow> v_none nv | Some v \<Rightarrow> v, perms, True))))"

definition resolve_property ::
  "'x \<Rightarrow> obj \<Rightarrow> symbol_id \<Rightarrow> ('x, propdef \<times> 'x db_value \<times> prop_perms \<times> bool) wm" where
  "resolve_property nv ob name =
     wbind (find_property_by_name ob name) (\<lambda>found.
       case found of
         None \<Rightarrow> wfail (PropertyNotFound ob)
       | Some propdef \<Rightarrow>
           wbind (retrieve_property ob (pd_uuid propdef)) (\<lambda>(pvalue, perms).
             case pvalue of
               Some value \<Rightarrow> wret (propdef, value, perms, False)
             | None \<Rightarrow>
                 wbind (ancestors ob False) (\<lambda>line.
                   wbind (inherited_value (pd_uuid propdef) line) (\<lambda>value.
                     wret (propdef, case value of None \<Rightarrow> v_none nv | Some v \<Rightarrow> v, perms, True)))))"

section \<open>Changes\<close>

text \<open>The first object of the list with a property of the name.\<close>

fun check_undefined :: "symbol_id \<Rightarrow> obj list \<Rightarrow> ('x, unit) wm" where
  "check_undefined name [] = wret ()"
| "check_undefined name (ob # rest) =
     wbind (get_properties ob) (\<lambda>props.
       if defs_find_first_named propdef_matches_name props name \<noteq> None
       then wfail (DuplicatePropertyDefinition ob) else check_undefined name rest)"

definition define_property ::
  "'x \<Rightarrow> uuid \<Rightarrow> obj \<Rightarrow> obj \<Rightarrow> symbol_id \<Rightarrow> obj \<Rightarrow> bit_enum \<Rightarrow> 'x db_value option \<Rightarrow> ('x, uuid) wm" where
  "define_property nv u definer location name owner perms value =
     wbind (get_properties location) (\<lambda>props.
       if defs_find_first_named propdef_matches_name props name \<noteq> None
       then wfail (DuplicatePropertyDefinition location)
       else
         wbind (ancestors location False) (\<lambda>above.
         wbind (check_undefined name above) (\<lambda>_.
         wbind (descendants location False) (\<lambda>below.
         wbind (check_undefined name below) (\<lambda>_.
         wbind (edit (EditProperties (below @ [location]) None)
                  (wbind (upsert ObjectPropdefs (KObj location)
                            (VPropdefs (defs_with_added props (propdef_new u definer location name)))) (\<lambda>_.
                   wbind (upsert ObjectPropflags (KProperty location u) (VPerms (prop_perms_new owner perms))) (\<lambda>_.
                     wret ())))) (\<lambda>_.
         wbind (wmodify (on_memo (\<lambda>m. mark_known_propflags m (location, u)))) (\<lambda>_.
         wbind (case value of None \<Rightarrow> wret () | Some v \<Rightarrow> set_property nv location u v) (\<lambda>_.
           wret u))))))))"

definition rename_property :: "obj list \<Rightarrow> obj \<Rightarrow> uuid \<Rightarrow> symbol_id \<Rightarrow> ('x, unit) wm" where
  "rename_property objects ob u new_name =
     edit (EditProperties objects None)
       (wbind (rel_update_with ObjectPropdefs (KObj ob) (\<lambda>v.
                 Option.bind (value_propdefs v) (\<lambda>props.
                   map_option VPropdefs (defs_with_updated pd_uuid props u
                     (\<lambda>p. propdef_new (pd_uuid p) (pd_definer p) (pd_location p) new_name))))) (\<lambda>updated.
          case Option.bind updated value_propdefs of
            None \<Rightarrow> wfail (PropertyNotFound ob)
          | Some props \<Rightarrow>
              if defs_find pd_uuid props u = None then wfail (PropertyNotFound ob) else wret ()))"

definition update_property_info ::
  "obj \<Rightarrow> uuid \<Rightarrow> obj option \<Rightarrow> bit_enum option \<Rightarrow> symbol_id option \<Rightarrow> ('x, unit) wm" where
  "update_property_info ob u new_owner new_flags new_name =
     (if new_owner = None \<and> new_flags = None \<and> new_name = None then wret ()
      else
        wbind (branch_objects ob) (\<lambda>objects.
        wbind (case new_name of None \<Rightarrow> wret () | Some name \<Rightarrow> rename_property objects ob u name) (\<lambda>_.
          if new_flags = None \<and> new_owner = None then wret ()
          else
            wbind (record_inherited_policy_dependency ob u) (\<lambda>_.
            wbind (retrieve_property_permissions ob u) (\<lambda>perms.
              let perms1 = (case new_flags of None \<Rightarrow> perms | Some flags \<Rightarrow> prop_perms_with_flags perms flags);
                  perms2 = (case new_owner of None \<Rightarrow> perms1 | Some owner \<Rightarrow> prop_perms_with_owner perms1 owner)
              in wbind (edit (EditProperties objects None)
                          (wbind (upsert ObjectPropflags (KProperty ob u) (VPerms perms2)) (\<lambda>_. wret ()))) (\<lambda>_.
                   wmodify (on_memo (\<lambda>m. mark_known_propflags m (ob, u)))))))))"

definition clear_property :: "obj \<Rightarrow> uuid \<Rightarrow> ('x, unit) wm" where
  "clear_property ob u =
     edit (EditPropertyValue ob) (wbind (rel_delete ObjectPropvalues (KProperty ob u)) (\<lambda>_. wret ()))"

definition clear_local_property_permissions :: "obj \<Rightarrow> uuid \<Rightarrow> ('x, unit) wm" where
  "clear_local_property_permissions ob u =
     wbind (edit (EditPermissions (ob, u))
              (wbind (rel_delete ObjectPropflags (KProperty ob u)) (\<lambda>_. wret ()))) (\<lambda>_.
       wmodify (on_memo (\<lambda>m. invalidate_known_for_holder m (ob, u))))"

definition delete_property :: "obj \<Rightarrow> uuid \<Rightarrow> ('x, unit) wm" where
  "delete_property ob u =
     wbind (descendants ob False) (\<lambda>below.
       edit (EditProperties (ob # below) (Some u))
         (wfor (\<lambda>location.
             wbind (rel_update_with ObjectPropdefs (KObj location) (\<lambda>v.
                      Option.bind (value_propdefs v) (\<lambda>props.
                        map_option VPropdefs (defs_with_removed pd_uuid props u)))) (\<lambda>_.
               delete_property_metadata_for_holder location u)) (ob # below)))"

section \<open>The owner of an object\<close>

text \<open>The permissions to be kept, read for one inherited property.\<close>

definition preserve_property ::
  "obj \<Rightarrow> propdef \<Rightarrow> (property_key \<times> prop_perms) list \<Rightarrow> ('x, (property_key \<times> prop_perms) list) wm" where
  "preserve_property ob prop preserved =
     (let u = pd_uuid prop in
      wbind (wmodify (\<lambda>t. t\<lparr>wt_inherited_policy_reads :=
               List.insert (ob, u) (wt_inherited_policy_reads t)\<rparr>)) (\<lambda>_.
      wbind (rel_has ObjectPropflags (KProperty ob u)) (\<lambda>has_local.
        if has_local then wret preserved
        else
          wbind (record_inherited_policy_dependency ob u) (\<lambda>_.
          wbind (retrieve_property_permissions ob u) (\<lambda>perms.
            wret (if be_contains prop_flag_index (pp_flags perms) PropChown
                  then preserved @ [((ob, u), perms)] else preserved))))))"

definition set_object_owner :: "obj \<Rightarrow> obj \<Rightarrow> ('x, unit) wm" where
  "set_object_owner ob owner =
     wbind (rel_read value_obj ObjectOwner (KObj ob)) (\<lambda>current.
       if current = Some owner then wret ()
       else
         wbind (ancestors ob True) (\<lambda>line.
         wbind (wmodify (\<lambda>t. t\<lparr>wt_owner_change_reads :=
                  fold List.insert line (wt_owner_change_reads t)\<rparr>)) (\<lambda>_.
         wbind (wfold (\<lambda>ancestor preserved.
                  wbind (get_properties ancestor) (\<lambda>props. wfold (preserve_property ob) props preserved))
                  (filter (\<lambda>ancestor. ancestor \<noteq> ob) line) []) (\<lambda>preserved.
         wbind (wfor (\<lambda>(holder, perms).
                  wbind (edit (EditPermissions holder)
                           (wbind (upsert ObjectPropflags (KProperty (fst holder) (snd holder)) (VPerms perms)) (\<lambda>_. wret ()))) (\<lambda>_.
                    wmodify (on_memo (\<lambda>m. mark_known_propflags m holder)))) preserved) (\<lambda>_.
           edit (EditOwner ob)
             (wbind (upsert ObjectOwner (KObj ob) (VObj owner)) (\<lambda>_. wret ())))))))"

end
