(* ===== verification/WorldLife.thy ===== *)
theory WorldLife
  imports WorldProps
begin

text \<open>
  The end and the renaming of objects in \<^verbatim>\<open>db/src/engine/ws_transaction.rs\<close>: recycling one object or a
  set of them, the collection of unreachable anonymous objects, and renumbering. A \<open>HashSet\<close> is a
  list in the order the program iterates over it. Object numbers are 32-bit and wrap.
\<close>

section \<open>Recycling\<close>

definition recycle_object :: "obj \<Rightarrow> ('x, unit) wm" where
  "recycle_object ob =
     wbind (get_object_contents ob) (\<lambda>contents.
     wbind (get_object_parent ob) (\<lambda>parent.
     wbind (get_object_children ob) (\<lambda>children.
     wbind (wfor (\<lambda>c. set_object_location c NOTHING) contents) (\<lambda>_.
     wbind (wfor (\<lambda>c. set_object_parent c parent) children) (\<lambda>_.
     wbind (get_properties ob) (\<lambda>propdefs.
       edit (EditRemove [ob] [ob])
         (wbind (wfor (\<lambda>r. rel_delete r (KObj ob))
                   [ObjectParent, ObjectLocation, ObjectFlags, ObjectName, ObjectOwner, ObjectParent, ObjectLocation]) (\<lambda>_.
          wbind (delete_metadata_for_obj ob) (\<lambda>_.
          wbind (rel_delete ObjectVerbdefs (KObj ob)) (\<lambda>_.
          wbind (wfor (\<lambda>p. rel_delete ObjectPropvalues (KProperty ob (pd_uuid p))) propdefs) (\<lambda>_.
          wbind (wtry (rel_delete ObjectPropdefs (KObj ob))) (\<lambda>_. wret ()))))))))))))"

record recycle_plan =
  contents_to_move :: "obj list"
  children_to_reparent :: "(obj \<times> obj) list"
  properties_to_delete :: "(obj \<times> uuid) list"

definition plan_recycle :: "obj \<Rightarrow> recycle_plan \<Rightarrow> ('x, recycle_plan) wm" where
  "plan_recycle ob plan =
     wbind (get_object_contents ob) (\<lambda>contents.
     wbind (get_object_parent ob) (\<lambda>parent.
     wbind (get_object_children ob) (\<lambda>children.
     wbind (get_properties ob) (\<lambda>propdefs.
       wret \<lparr>contents_to_move = contents_to_move plan @ contents,
             children_to_reparent = children_to_reparent plan @ map (\<lambda>c. (c, parent)) children,
             properties_to_delete = properties_to_delete plan @ map (\<lambda>p. (ob, pd_uuid p)) propdefs\<rparr>))))"

definition delete_core :: "obj \<Rightarrow> ('x, unit) wm" where
  "delete_core ob =
     wbind (wfor (\<lambda>r. rel_delete r (KObj ob))
              [ObjectParent, ObjectLocation, ObjectFlags, ObjectName, ObjectOwner]) (\<lambda>_.
     wbind (delete_metadata_for_obj ob) (\<lambda>_.
     wbind (rel_delete ObjectVerbdefs (KObj ob)) (\<lambda>_.
     wbind (wtry (rel_delete ObjectPropdefs (KObj ob))) (\<lambda>_. wret ()))))"

definition recycle_objects :: "obj list \<Rightarrow> ('x, unit) wm" where
  "recycle_objects objects =
     (if objects = [] then wret ()
      else
        wbind (wfold plan_recycle objects
                 \<lparr>contents_to_move = [], children_to_reparent = [], properties_to_delete = []\<rparr>) (\<lambda>plan.
        wbind (wfold (\<lambda>(child, _) affected.
                 wbind (branch_objects child) (\<lambda>branch. wret (affected @ branch)))
                 (children_to_reparent plan) objects) (\<lambda>affected.
          edit (EditRemove (remdups_adj (sort_key obj_word affected)) objects)
            (wbind (wfor (\<lambda>content. upsert ObjectLocation (KObj content) (VObj NOTHING)) (contents_to_move plan)) (\<lambda>_.
             wbind (wfor (\<lambda>(child, new_parent). upsert ObjectParent (KObj child) (VObj new_parent))
                      (children_to_reparent plan)) (\<lambda>_.
             wbind (wfor delete_core objects) (\<lambda>_.
               wfor (\<lambda>(ob, u). rel_delete ObjectPropvalues (KProperty ob u)) (properties_to_delete plan))))))))"

definition get_anonymous_objects :: "('x, obj list) wm" where
  "get_anonymous_objects = wbind get_objects (\<lambda>obs. wret (filter is_anonymous obs))"

definition collect_unreachable_anonymous_objects :: "obj list \<Rightarrow> ('x, nat) wm" where
  "collect_unreachable_anonymous_objects unreachable =
     wbind (valid_objects (filter is_anonymous unreachable)) (\<lambda>objects_to_recycle.
       wbind (if objects_to_recycle = [] then wret () else recycle_objects objects_to_recycle) (\<lambda>_.
         wret (length objects_to_recycle)))"

section \<open>Caches and moves\<close>

definition flush_caches :: "('x, unit) wm" where
  "flush_caches = wmodify (\<lambda>t. on_ancestry ac_flush (on_props pc_flush (on_verbs vc_flush t)))"

text \<open>\<open>v_empty_map\<close> and the map of a move, with its time, are arguments.\<close>

definition get_last_move :: "'x db_value \<Rightarrow> obj \<Rightarrow> ('x, 'x db_value) wm" where
  "get_last_move empty_map ob =
     wbind (rel_get ObjectLastMove (KObj ob)) (\<lambda>r. wret (case r of None \<Rightarrow> empty_map | Some v \<Rightarrow> v))"

definition set_last_move :: "(obj \<Rightarrow> 'x db_value) \<Rightarrow> obj \<Rightarrow> obj \<Rightarrow> ('x, unit) wm" where
  "set_last_move last_move_map ob old_location =
     wbind (upsert ObjectLastMove (KObj ob) (last_move_map old_location)) (\<lambda>_. wret ())"

section \<open>Renumbering\<close>

partial_function (option) next_free_loop ::
  "32 word \<Rightarrow> 'x ws_transaction \<Rightarrow> ('x ws_transaction \<times> (world_state_error + obj)) option" where
  "next_free_loop candidate_id t =
     (case object_valid (mk_id candidate_id) t of
        None \<Rightarrow> None
      | Some (t', Inl e) \<Rightarrow> Some (t', Inl e)
      | Some (t', Inr valid) \<Rightarrow>
          if valid then next_free_loop (candidate_id + 1) t' else Some (t', Inr (mk_id candidate_id)))"

partial_function (option) scan_down_loop ::
  "32 word \<Rightarrow> 32 word \<Rightarrow> 'x ws_transaction \<Rightarrow> ('x ws_transaction \<times> (world_state_error + obj)) option" where
  "scan_down_loop max_id candidate_id t =
     (case object_valid (mk_id candidate_id) t of
        None \<Rightarrow> None
      | Some (t', Inl e) \<Rightarrow> Some (t', Inl e)
      | Some (t', Inr valid) \<Rightarrow>
          if \<not> valid then Some (t', Inr (mk_id candidate_id))
          else if candidate_id = 0 then Some (t', Inr (mk_id (max_id + 1)))
          else scan_down_loop max_id (candidate_id - 1) t')"

text \<open>The candidates from 0 up to the number of the object.\<close>

fun scan_up :: "32 word list \<Rightarrow> ('x, obj option) wm" where
  "scan_up [] = wret None"
| "scan_up (candidate_id # rest) =
     wbind (object_valid (mk_id candidate_id)) (\<lambda>valid.
       if \<not> valid then wret (Some (mk_id candidate_id)) else scan_up rest)"

definition numbers_below :: "32 word \<Rightarrow> 32 word list" where
  "numbers_below n = (if sint n \<le> 0 then [] else map of_nat [0..<unat n])"

definition max_number :: "sequence_state \<Rightarrow> ('x, 32 word) wm" where
  "max_number seqs =
     (case get_max_object seqs of
        Inl e \<Rightarrow> wfail e
      | Inr max_obj \<Rightarrow> (case objid max_obj of None \<Rightarrow> wpanic | Some n \<Rightarrow> wret n))"

definition renumber_target ::
  "64 word \<Rightarrow> sequence_state \<Rightarrow> obj \<Rightarrow> object_kind option \<Rightarrow> ('x, obj) wm" where
  "renumber_target gen seqs old_obj target =
     (case target of
        Some kind \<Rightarrow>
          wbind (case kind of
                   Objid ob \<Rightarrow> wret ob
                 | NextObjid \<Rightarrow> wbind (max_number seqs) (\<lambda>n. next_free_loop (n + 1))
                 | UuObjId \<Rightarrow> wret (mk_uuobjid gen)
                 | Anonymous \<Rightarrow> wfail InvalidRenumber) (\<lambda>target_obj.
            wbind (object_valid target_obj) (\<lambda>valid.
              if valid then wfail InvalidRenumber else wret target_obj))
      | None \<Rightarrow>
          if is_uuobjid old_obj then wbind (max_number seqs) (\<lambda>n. scan_down_loop n n)
          else
            case objid old_obj of
              None \<Rightarrow> wpanic
            | Some n \<Rightarrow>
                wbind (scan_up (numbers_below n)) (\<lambda>found.
                  wret (case found of None \<Rightarrow> old_obj | Some ob \<Rightarrow> ob)))"

text \<open>Step 1: the rows that refer to the object. Step 2 and 3: the rows of the object itself.\<close>

definition redirect :: "database_relation \<Rightarrow> obj \<Rightarrow> obj \<Rightarrow> ('x, unit) wm" where
  "redirect r old_obj new_obj =
     wbind (rel_scan r (\<lambda>_ v. value_obj v = Some old_obj)) (\<lambda>refs.
       wfor (\<lambda>(k, _). rel_update_with r k (\<lambda>_. Some (VObj new_obj))) refs)"

definition if_present :: "database_relation \<Rightarrow> db_key \<Rightarrow> ('x db_value \<Rightarrow> ('x, unit) wm) \<Rightarrow> ('x, unit) wm" where
  "if_present r k body =
     wbind (wtry (rel_get r k)) (\<lambda>found.
       case found of Inr (Some v) \<Rightarrow> body v | _ \<Rightarrow> wret ())"

definition move_row :: "database_relation \<Rightarrow> db_key \<Rightarrow> db_key \<Rightarrow> 'x db_value \<Rightarrow> ('x, unit) wm" where
  "move_row r old_key new_key v =
     wbind (rel_delete r old_key) (\<lambda>_. wbind (upsert r new_key v) (\<lambda>_. wret ()))"

definition relocated_verb :: "obj \<Rightarrow> verbdef \<Rightarrow> verbdef" where
  "relocated_verb new_obj verb =
     verbdef_new (vd_uuid verb) new_obj (vd_owner verb) (vd_names verb) (vd_flags verb) (vd_args verb)"

definition move_verbs :: "obj \<Rightarrow> obj \<Rightarrow> ('x, unit) wm" where
  "move_verbs old_obj new_obj =
     if_present ObjectVerbdefs (KObj old_obj) (\<lambda>v.
       let verbdefs = (case value_verbdefs v of None \<Rightarrow> [] | Some ds \<Rightarrow> ds)
       in wbind (move_row ObjectVerbdefs (KObj old_obj) (KObj new_obj)
                   (VVerbdefs (map (relocated_verb new_obj) verbdefs))) (\<lambda>_.
            wfor (\<lambda>verb.
              if_present ObjectVerbs (KVerb old_obj (vd_uuid verb))
                (move_row ObjectVerbs (KVerb old_obj (vd_uuid verb)) (KVerb new_obj (vd_uuid verb))))
              verbdefs))"

definition redefined_prop :: "obj \<Rightarrow> obj \<Rightarrow> propdef \<Rightarrow> propdef" where
  "redefined_prop old_obj new_obj prop =
     (if pd_definer prop = old_obj
      then propdef_new (pd_uuid prop) new_obj (pd_location prop) (pd_name prop) else prop)"

definition move_propdefs :: "obj \<Rightarrow> obj \<Rightarrow> ('x, unit) wm" where
  "move_propdefs old_obj new_obj =
     if_present ObjectPropdefs (KObj old_obj) (\<lambda>v.
       wbind (move_row ObjectPropdefs (KObj old_obj) (KObj new_obj) v) (\<lambda>_.
       wbind (rel_get_all ObjectPropdefs) (\<lambda>all_propdefs.
         wfor (\<lambda>(k, row).
           let props = (case value_propdefs row of None \<Rightarrow> [] | Some ds \<Rightarrow> ds)
           in if list_ex (\<lambda>prop. pd_definer prop = old_obj) props
              then wbind (upsert ObjectPropdefs k (VPropdefs (map (redefined_prop old_obj new_obj) props))) (\<lambda>_. wret ())
              else wret ()) all_propdefs)))"

definition move_property_rows :: "database_relation \<Rightarrow> obj \<Rightarrow> obj \<Rightarrow> ('x, unit) wm" where
  "move_property_rows r old_obj new_obj =
     wbind (rel_scan r (\<lambda>holder _. key_obj holder = old_obj)) (\<lambda>rows.
       wfor (\<lambda>(old_holder, v). move_row r old_holder (KProperty new_obj (key_uuid old_holder)) v) rows)"

definition move_metadata :: "obj \<Rightarrow> obj \<Rightarrow> ('x, unit) wm" where
  "move_metadata old_obj new_obj =
     wbind (rel_scan EntityMetadata (\<lambda>k _. references_obj old_obj k)) (\<lambda>rows.
       wfor (\<lambda>(old_key, v).
         case rehome_obj old_obj new_obj old_key of
           None \<Rightarrow> wret ()
         | Some new_key \<Rightarrow> move_row EntityMetadata old_key new_key v) rows)"

definition renumber_rows :: "obj \<Rightarrow> obj \<Rightarrow> ('x, unit) wm" where
  "renumber_rows old_obj new_obj =
     wbind (wfor (\<lambda>r. redirect r old_obj new_obj) [ObjectParent, ObjectLocation, ObjectOwner]) (\<lambda>_.
     wbind (wfor (\<lambda>r. if_present r (KObj old_obj) (move_row r (KObj old_obj) (KObj new_obj)))
              [ObjectParent, ObjectLocation, ObjectOwner, ObjectFlags, ObjectName]) (\<lambda>_.
     wbind (move_verbs old_obj new_obj) (\<lambda>_.
     wbind (move_propdefs old_obj new_obj) (\<lambda>_.
     wbind (move_property_rows ObjectPropvalues old_obj new_obj) (\<lambda>_.
     wbind (move_property_rows ObjectPropflags old_obj new_obj) (\<lambda>_.
       move_metadata old_obj new_obj))))))"

text \<open>The end of a renumbering raises the greatest object number.\<close>

definition raise_max_object :: "sequence_state \<Rightarrow> obj \<Rightarrow> (sequence_state \<times> (world_state_error + obj)) option" where
  "raise_max_object seqs new_obj =
     (if is_uuobjid new_obj then Some (seqs, Inr new_obj)
      else
        case get_max_object seqs of
          Inl e \<Rightarrow> Some (seqs, Inl e)
        | Inr current_max \<Rightarrow>
            (case (objid new_obj, objid current_max) of
               (Some n, Some m) \<Rightarrow>
                 Some (if sint n > sint m then fst (seq_update_max seqs SEQUENCE_MAX_OBJECT (scast n)) else seqs,
                       Inr new_obj)
             | _ \<Rightarrow> None))"

definition renumber_edit :: "64 word \<Rightarrow> sequence_state \<Rightarrow> obj \<Rightarrow> object_kind option \<Rightarrow> ('x, obj) wm" where
  "renumber_edit gen seqs old_obj target =
     wbind (object_valid old_obj) (\<lambda>valid.
       if \<not> valid then wfail (ObjectNotFound old_obj)
       else
         wbind (renumber_target gen seqs old_obj target) (\<lambda>new_obj.
           if new_obj = old_obj then wret new_obj
           else
             wbind (branch_objects old_obj) (\<lambda>objects.
             wbind (edit (EditRenumber (objects @ [new_obj]) old_obj new_obj) (renumber_rows old_obj new_obj)) (\<lambda>_.
               wret new_obj))))"

definition renumber_object ::
  "64 word \<Rightarrow> obj \<Rightarrow> object_kind option \<Rightarrow> sequence_state \<Rightarrow> 'x ws_transaction
     \<Rightarrow> (sequence_state \<times> 'x ws_transaction \<times> (world_state_error + obj)) option" where
  "renumber_object gen old_obj target seqs t =
     (case renumber_edit gen seqs old_obj target t of
        None \<Rightarrow> None
      | Some (t', Inl e) \<Rightarrow> Some (seqs, t', Inl e)
      | Some (t', Inr new_obj) \<Rightarrow>
          if new_obj = old_obj then Some (seqs, t', Inr new_obj)
          else
            (case raise_max_object seqs new_obj of
               None \<Rightarrow> None
             | Some (seqs', r) \<Rightarrow> Some (seqs', t', r)))"

end
