(* ===== verification/WorldView.thy ===== *)
theory WorldView
  imports WorldLife
begin

text \<open>
  The world a transaction sees, and the effect of the operations on it. \<open>world t\<close> maps each relation
  and key to the visible value; the reads of \<open>Wmonad\<close> return it, and \<open>wkeeps K m\<close> says that \<open>m\<close> changes
  the world only where \<open>K\<close> allows and leaves the caches alone. The lemmas for the primitive
  operations are collected in \<open>keeps_intros\<close>, which discharge the body of an edit.
\<close>

named_theorems keeps_intros \<open>operations that change the world only at given keys\<close>

type_synonym 'x world = "database_relation \<Rightarrow> db_key \<Rightarrow> 'x db_value option"

definition world :: "'x ws_transaction \<Rightarrow> 'x world" where
  "world t r k = (case rt_view (wt_rel t r) k of Inl e \<Rightarrow> None | Inr v \<Rightarrow> v)"

definition rel_ok :: "database_relation \<Rightarrow> 'x db_rt \<Rightarrow> bool" where
  "rel_ok r rt \<longleftrightarrow> rt_ok rt \<and> rt_loaded rt \<and> provider_ok (rt_provider rt)
     \<and> (relation_is_secondary r \<longrightarrow> (\<exists>i. ti_deref (rt_master rt) = SecondaryIndexRelation i))"

definition wt_ok :: "'x ws_transaction \<Rightarrow> bool" where
  "wt_ok t \<longleftrightarrow> (\<forall>r. rel_ok r (wt_rel t r))"

text \<open>Every read succeeds: the relations are loaded.\<close>

definition readable :: "'x ws_transaction \<Rightarrow> bool" where
  "readable t \<longleftrightarrow> (\<forall>r k. rt_view (wt_rel t r) k = Inr (world t r k))"

lemma loaded_view: "rt_loaded rt \<Longrightarrow> \<exists>v. rt_view rt k = Inr v"
  by (auto simp: rt_view_def rt_base_def split: option.splits)

lemma loaded_base:
  "rt_loaded rt \<Longrightarrow> rt_loaded rt' \<Longrightarrow> rt_master rt' = rt_master rt \<Longrightarrow> rt_base rt' = rt_base rt"
  by (intro ext) (simp add: rt_base_def)

lemma wt_ok_readable:
  assumes "wt_ok t"
  shows "readable t"
  unfolding readable_def
proof (intro allI)
  fix r k
  have "rt_loaded (wt_rel t r)" using assms by (simp add: wt_ok_def rel_ok_def)
  from loaded_view [OF this, of k] obtain v where "rt_view (wt_rel t r) k = Inr v" ..
  then show "rt_view (wt_rel t r) k = Inr (world t r k)" by (simp add: world_def)
qed

lemma rt_ok_loaded: "rt_ok rt \<Longrightarrow> rt_loaded rt = idx_is_provider_fully_loaded (ti_deref (rt_master rt))"
  by (simp add: rt_ok_def)

section \<open>Reads\<close>

lemma wt_rel_same [simp]: "t\<lparr>wt_rel := (wt_rel t)(r := wt_rel t r)\<rparr> = t"
  by simp

lemma rel_get_eq:
  "rel_get r k t =
     Some (t, case rt_view (wt_rel t r) k of Inl e \<Rightarrow> Inl (database_error e) | Inr v \<Rightarrow> Inr v)"
  by (simp add: rel_get_def rel_lift_def rt_get_eq_view)

lemma rel_has_eq:
  "rel_has r k t =
     Some (t, case rt_view (wt_rel t r) k of Inl e \<Rightarrow> Inl (database_error e) | Inr v \<Rightarrow> Inr (v \<noteq> None))"
  by (simp add: rel_has_def rel_lift_def rt_has_domain_eq_view split: sum.splits)

lemma rel_with_eq:
  "rel_with r k f t =
     Some (t, case rt_view (wt_rel t r) k of Inl e \<Rightarrow> Inl (database_error e) | Inr v \<Rightarrow> Inr (map_option f v))"
  by (simp add: rel_with_def rel_lift_def rt_with_domain_value_eq_view split: sum.splits)

lemma rel_scan_eq:
  "rel_scan r P t =
     Some (t, case rt_scan (wt_rel t r) P of Inl e \<Rightarrow> Inl (database_error e) | Inr v \<Rightarrow> Inr v)"
  by (simp add: rel_scan_def rel_lift_def)

lemma rel_check_domains_eq:
  "rel_check_domains r ks t =
     Some (t, case rt_check_domains (wt_rel t r) ks of Inl e \<Rightarrow> Inl (database_error e) | Inr v \<Rightarrow> Inr v)"
  by (simp add: rel_check_domains_def rel_lift_def)

lemmas rel_read_eqs = rel_get_eq rel_has_eq rel_with_eq rel_scan_eq rel_check_domains_eq

lemma world_view: "rt_view (wt_rel t r) k = Inr v \<Longrightarrow> world t r k = v"
  by (simp add: world_def)

lemma wbind_eq_Some:
  "wbind m f t = Some (t', r) \<longleftrightarrow>
     (\<exists>t1 r1. m t = Some (t1, r1) \<and>
        (case r1 of Inl e \<Rightarrow> t' = t1 \<and> r = Inl e | Inr a \<Rightarrow> f a t1 = Some (t', r)))"
  by (auto simp: wbind_def split: option.splits sum.splits prod.splits)

lemma wbind_wret:
  "wbind m (\<lambda>a. wret (g a)) t = Some (t', r) \<longleftrightarrow> (\<exists>r1. m t = Some (t', r1) \<and> r = map_sum (\<lambda>e. e) g r1)"
  by (auto simp: wbind_def wret_def split: option.splits sum.splits prod.splits)

section \<open>The frame of an operation\<close>

definition keeps :: "(database_relation \<Rightarrow> db_key \<Rightarrow> bool) \<Rightarrow> 'x ws_transaction \<Rightarrow> 'x ws_transaction \<Rightarrow> bool" where
  "keeps K t t' \<longleftrightarrow> wt_ok t' \<and> wt_caches t' = wt_caches t \<and> wt_perm_memo t' = wt_perm_memo t
     \<and> (\<forall>r. rt_base (wt_rel t' r) = rt_base (wt_rel t r))
     \<and> (\<forall>r k. \<not> K r k \<longrightarrow> world t' r k = world t r k)"

definition wkeeps :: "(database_relation \<Rightarrow> db_key \<Rightarrow> bool) \<Rightarrow> ('x, 'a) wm \<Rightarrow> bool" where
  "wkeeps K m \<longleftrightarrow> (\<forall>t t' r. wt_ok t \<longrightarrow> m t = Some (t', r) \<longrightarrow> keeps K t t')"

abbreviation nothing_changed :: "database_relation \<Rightarrow> db_key \<Rightarrow> bool" where
  "nothing_changed \<equiv> \<lambda>_ _. False"

lemma keeps_refl: "wt_ok t \<Longrightarrow> keeps K t t"
  by (simp add: keeps_def)

lemma keeps_trans: "keeps K t t' \<Longrightarrow> keeps K t' t'' \<Longrightarrow> keeps K t t''"
  by (simp add: keeps_def)

lemma keeps_ok: "keeps K t t' \<Longrightarrow> wt_ok t'"
  by (simp add: keeps_def)

lemma keeps_nothingD: "keeps nothing_changed t t' \<Longrightarrow> world t' = world t"
  by (simp add: keeps_def fun_eq_iff)

lemma wkeepsD: "wkeeps K m \<Longrightarrow> wt_ok t \<Longrightarrow> m t = Some (t', r) \<Longrightarrow> keeps K t t'"
  by (simp add: wkeeps_def)

lemma keeps_mono: "keeps K t t' \<Longrightarrow> (\<And>r k. K r k \<Longrightarrow> K' r k) \<Longrightarrow> keeps K' t t'"
  unfolding keeps_def by blast

lemma keeps_nothing: "keeps nothing_changed t t' \<Longrightarrow> keeps K t t'"
  by (simp add: keeps_def)

lemma wkeeps_nothing: "wkeeps nothing_changed m \<Longrightarrow> wkeeps K m"
  unfolding wkeeps_def using keeps_nothing by blast

lemma wkeeps_ret [keeps_intros]: "wkeeps K (wret a)" "wkeeps K (wfail e)" "wkeeps K wpanic" "wkeeps K (wstate f)"
  by (auto simp: wkeeps_def wret_def wfail_def wpanic_def wstate_def keeps_refl)

lemma wkeeps_bind [keeps_intros]:
  assumes "wkeeps K m" and "\<And>a. wkeeps K (f a)"
  shows "wkeeps K (wbind m f)"
  unfolding wkeeps_def
proof (intro allI impI)
  fix t t' r
  assume ok: "wt_ok t" and "wbind m f t = Some (t', r)"
  then obtain t1 r1 where t1: "m t = Some (t1, r1)"
    and t': "case r1 of Inl e \<Rightarrow> t' = t1 \<and> r = Inl e | Inr a \<Rightarrow> f a t1 = Some (t', r)"
    by (auto simp: wbind_eq_Some)
  note k1 = wkeepsD [OF assms(1) ok t1]
  show "keeps K t t'"
    using t' k1 wkeepsD [OF assms(2) keeps_ok [OF k1]] by (cases r1) (auto intro: keeps_trans [OF k1])
qed

lemma wkeeps_split [keeps_intros]:
  "wkeeps K m \<Longrightarrow> wkeeps K n \<Longrightarrow> wkeeps K (if b then m else n)"
  "wkeeps K m \<Longrightarrow> (\<And>a. wkeeps K (f a)) \<Longrightarrow> wkeeps K (case x of None \<Rightarrow> m | Some a \<Rightarrow> f a)"
  "(\<And>a. wkeeps K (g a)) \<Longrightarrow> (\<And>a. wkeeps K (h a)) \<Longrightarrow> wkeeps K (case y of Inl a \<Rightarrow> g a | Inr a \<Rightarrow> h a)"
  "(\<And>a b. wkeeps K (p a b)) \<Longrightarrow> wkeeps K (case z of (a, b) \<Rightarrow> p a b)"
  by (auto split: option.splits sum.splits prod.splits)

lemma wkeeps_wtry [keeps_intros]: "wkeeps K m \<Longrightarrow> wkeeps K (wtry m)"
  by (auto simp: wkeeps_def wtry_def split: option.splits)

lemma wkeeps_wexpect [keeps_intros]: "wkeeps K m \<Longrightarrow> wkeeps K (wexpect m)"
  by (auto simp: wkeeps_def wexpect_def split: option.splits sum.splits)

lemma wkeeps_fold:
  assumes "\<And>x a. x \<in> set xs \<Longrightarrow> wkeeps K (f x a)"
  shows "wkeeps K (wfold f xs a)"
  using assms by (induction xs arbitrary: a) (simp_all add: wkeeps_ret wkeeps_bind)

lemma wkeeps_for: "(\<And>x. x \<in> set xs \<Longrightarrow> wkeeps K (f x)) \<Longrightarrow> wkeeps K (wfor f xs)"
  unfolding wfor_def by (simp add: wkeeps_fold wkeeps_ret wkeeps_bind)

lemma wkeeps_reads [keeps_intros]:
  "wkeeps K (rel_get r k)" "wkeeps K (rel_has r k)" "wkeeps K (rel_with r k f)" "wkeeps K (rel_scan r P)"
  "wkeeps K (rel_check_domains r ks)"
  by (auto simp: wkeeps_def rel_read_eqs keeps_refl)

lemma wkeeps_rel_read [keeps_intros]: "wkeeps K (rel_read sel r k)"
  unfolding rel_read_def by (simp add: wkeeps_reads wkeeps_ret wkeeps_bind)

section \<open>Writes\<close>

text \<open>A write to one key of a relation.\<close>

definition writes_at :: "db_key \<Rightarrow> ('x db_rt \<Rightarrow> 'x db_rt \<times> (tx_error + 'a)) \<Rightarrow> bool" where
  "writes_at k f \<longleftrightarrow> (\<forall>rt. rt_ok rt \<longrightarrow>
     rt_ok (fst (f rt)) \<and> rt_source (fst (f rt)) = rt_source rt \<and> rt_master (fst (f rt)) = rt_master rt
     \<and> (\<forall>d. d \<noteq> k \<longrightarrow> rt_view (fst (f rt)) d = rt_view rt d))"

lemma rt_source_simps [simp]:
  "rt_source (rt_touch t) = rt_source t" "rt_source (rt_assign t d x) = rt_source t"
  "rt_source (rt_log t d x) = rt_source t"
  by (simp_all add: rt_touch_def rt_assign_def rt_log_def)

lemma rel_lift_keeps:
  assumes "writes_at k f" and "K r k"
  shows "wkeeps K (rel_lift r f)"
  unfolding wkeeps_def
proof (intro allI impI)
  fix t t' res
  assume ok: "wt_ok t" and "rel_lift r f t = Some (t', res)"
  then have t': "t' = t\<lparr>wt_rel := (wt_rel t)(r := fst (f (wt_rel t r)))\<rparr>"
    by (auto simp: rel_lift_def split: prod.splits)
  have rok: "rel_ok r' (wt_rel t r')" for r'
    using ok by (simp add: wt_ok_def)
  have w: "rt_ok (fst (f (wt_rel t r)))" "rt_source (fst (f (wt_rel t r))) = rt_source (wt_rel t r)"
    "rt_master (fst (f (wt_rel t r))) = rt_master (wt_rel t r)"
    "d \<noteq> k \<Longrightarrow> rt_view (fst (f (wt_rel t r))) d = rt_view (wt_rel t r) d" for d
    using assms(1) rok [of r] by (auto simp: writes_at_def rel_ok_def)
  have "wt_ok t'"
    unfolding wt_ok_def
  proof
    fix r'
    show "rel_ok r' (wt_rel t' r')"
      using rok [of r'] rt_ok_loaded [OF w(1)] rt_ok_loaded [of "wt_rel t r"]
      by (cases "r' = r") (simp_all add: t' rel_ok_def w)
  qed
  moreover have "world t' r' k' = world t r' k'" if "\<not> K r' k'" for r' k'
    using that assms(2) w(4) by (cases "r' = r"; cases "k' = k") (auto simp: world_def t')
  moreover have "rt_base (wt_rel t' r') = rt_base (wt_rel t r')" for r'
  proof (cases "r' = r")
    case True
    have "rt_loaded (wt_rel t r)" "rt_loaded (fst (f (wt_rel t r)))"
      using rok [of r] rt_ok_loaded [OF w(1)] rt_ok_loaded [of "wt_rel t r"] by (simp_all add: rel_ok_def w(3))
    from loaded_base [OF this w(3)] show ?thesis
      using True by (simp add: t')
  qed (simp add: t')
  ultimately show "keeps K t t'"
    by (simp add: keeps_def t')
qed

text \<open>After a write the transaction is as it was, touched, or has one operation more.\<close>

definition one_write :: "db_key \<Rightarrow> 'x db_rt \<Rightarrow> 'x db_rt \<Rightarrow> bool" where
  "one_write k rt rt' \<longleftrightarrow> rt' = rt \<or> rt' = rt_touch rt \<or> (\<exists>x. rt' = rt_assign rt k x) \<or> (\<exists>x. rt' = rt_log rt k x)"

lemma one_write_ops:
  "one_write k rt (fst (rt_upsert rt k v))" "one_write k rt (fst (rt_upsert_with rt k f))"
  "one_write k rt (fst (rt_delete rt k))" "one_write k rt (fst (rt_insert rt k v))"
  "one_write k rt (fst (rt_insert_guaranteed_unique rt k v))"
  unfolding one_write_def rt_upsert_nf rt_upsert_with_nf rt_delete_nf rt_insert_nf rt_insert_guaranteed_unique_def
  by (cases "lo_get (rt_local rt) k"; cases "rt_base rt k"; auto split: option.splits)+

lemma writes_atI:
  assumes "\<And>rt. rt_ok rt \<Longrightarrow> rt_ok (fst (f rt))" and "\<And>rt. one_write k rt (fst (f rt))"
  shows "writes_at k f"
  unfolding writes_at_def
proof (intro allI impI)
  fix rt :: "'a db_rt"
  assume "rt_ok rt"
  with assms(1) have "rt_ok (fst (f rt))" .
  moreover from assms(2) [of rt]
  have "rt_source (fst (f rt)) = rt_source rt \<and> rt_master (fst (f rt)) = rt_master rt
      \<and> (\<forall>d. d \<noteq> k \<longrightarrow> rt_view (fst (f rt)) d = rt_view rt d)"
    by (auto simp: one_write_def)
  ultimately show "rt_ok (fst (f rt)) \<and> rt_source (fst (f rt)) = rt_source rt \<and> rt_master (fst (f rt)) = rt_master rt
      \<and> (\<forall>d. d \<noteq> k \<longrightarrow> rt_view (fst (f rt)) d = rt_view rt d)"
    by simp
qed

lemma writes_at_ops:
  "writes_at k (\<lambda>rt. rt_upsert rt k v)" "writes_at k (\<lambda>rt. rt_upsert_with rt k f)"
  "writes_at k (\<lambda>rt. rt_delete rt k)" "writes_at k (\<lambda>rt. rt_insert rt k v)"
  "writes_at k (\<lambda>rt. rt_insert_guaranteed_unique rt k v)" "writes_at k (\<lambda>rt. rt_update_with rt k g)"
  unfolding rt_update_with_def
  by (intro writes_atI one_write_ops rt_ok_upsert rt_ok_upsert_with rt_ok_delete rt_ok_insert
      rt_ok_insert_guaranteed_unique; assumption)+

lemma wkeeps_writes [keeps_intros]:
  "K r k \<Longrightarrow> wkeeps K (upsert r k v)" "K r k \<Longrightarrow> wkeeps K (rel_upsert_with r k f)"
  "K r k \<Longrightarrow> wkeeps K (rel_delete r k)" "K r k \<Longrightarrow> wkeeps K (rel_insert r k v)"
  "K r k \<Longrightarrow> wkeeps K (insert_guaranteed_unique r k v)" "K r k \<Longrightarrow> wkeeps K (rel_update_with r k g)"
  unfolding upsert_def rel_upsert_with_def rel_delete_def rel_insert_def insert_guaranteed_unique_def
    rel_update_with_def
  by (rule rel_lift_keeps [OF writes_at_ops(1)], assumption, rule rel_lift_keeps [OF writes_at_ops(2)], assumption,
      rule rel_lift_keeps [OF writes_at_ops(3)], assumption, rule rel_lift_keeps [OF writes_at_ops(4)], assumption,
      rule rel_lift_keeps [OF writes_at_ops(5)], assumption, rule rel_lift_keeps [OF writes_at_ops(6)], assumption)

lemma upsert_world:
  assumes "wt_ok t" and "upsert r k v t = Some (t', Inr a)"
  shows "world t' = (world t)(r := (world t r)(k := Some v))"
proof -
  have ok: "rt_ok (wt_rel t r)"
    using assms(1) by (simp add: wt_ok_def rel_ok_def)
  have t': "t' = t\<lparr>wt_rel := (wt_rel t)(r := fst (rt_upsert (wt_rel t r) k v))\<rparr>"
    and res: "snd (rt_upsert (wt_rel t r) k v) = Inr a"
    using assms(2) by (auto simp: upsert_def rel_lift_def split: prod.splits sum.splits)
  have "rt_view (fst (rt_upsert (wt_rel t r) k v)) = (rt_view (wt_rel t r))(k := Inr (Some v))"
    using rt.upsert_ok [OF ok] rt.upsert_error [OF ok] res
    by (cases "rt_view (wt_rel t r) k") fastforce+
  then show ?thesis
    by (auto simp: t' world_def fun_eq_iff)
qed

lemma rel_delete_world:
  assumes "wt_ok t" and "rel_delete r k t = Some (t', Inr a)"
  shows "world t' = (world t)(r := (world t r)(k := None))"
proof -
  have ok: "rt_ok (wt_rel t r)"
    using assms(1) by (simp add: wt_ok_def rel_ok_def)
  have t': "t' = t\<lparr>wt_rel := (wt_rel t)(r := fst (rt_delete (wt_rel t r) k))\<rparr>"
    and res: "snd (rt_delete (wt_rel t r) k) = Inr a"
    using assms(2) by (auto simp: rel_delete_def rel_lift_def split: prod.splits sum.splits)
  have "rt_view (fst (rt_delete (wt_rel t r) k)) = (rt_view (wt_rel t r))(k := Inr None)"
    using rt.delete_ok [OF ok] rt.delete_error [OF ok] res
    by (cases "rt_view (wt_rel t r) k") fastforce+
  then show ?thesis
    by (auto simp: t' world_def fun_eq_iff)
qed

section \<open>Reverse lookups\<close>

lemma rel_by_codomain_spec:
  assumes "wt_ok t" and "relation_is_secondary r" and res: "rel_by_codomain r v t = Some (t', res)"
  shows "keeps nothing_changed t t'"
    and "res = Inr ks \<Longrightarrow> distinct ks \<and> (\<forall>k. k \<in> set ks \<longleftrightarrow> world t r k = Some v)"
proof -
  let ?rt = "wt_rel t r"
  have rok: "rel_ok r' (wt_rel t r')" for r'
    using assms(1) by (simp add: wt_ok_def)
  then have ok: "rt_ok ?rt" and prov: "provider_ok (rt_provider ?rt)"
    by (simp_all add: rel_ok_def)
  obtain i where sec: "ti_deref (rt_master ?rt) = SecondaryIndexRelation i"
    using rok [of r] assms(2) by (auto simp: rel_ok_def)
  have t': "t' = t\<lparr>wt_rel := (wt_rel t)(r := fst (rt_get_by_codomain ?rt v))\<rparr>"
    using res by (auto simp: rel_by_codomain_def rel_lift_def rt_get_by_codomain_def split: prod.splits)
  have src: "rt_source (fst (rt_get_by_codomain ?rt v)) = rt_source ?rt"
    by (simp add: rt_get_by_codomain_def rt_for_each_by_codomain_def case_prod_unfold Let_def split: sum.split)
  have view: "rt_view (fst (rt_get_by_codomain ?rt v)) = rt_view ?rt"
    by (intro ext) (simp add: rt_view_def rt_for_each_frame split: option.split)
  have "rel_ok r' (wt_rel t' r')" for r'
    using rok [of r'] rt_ok_get_by_codomain [OF ok]
    by (cases "r' = r") (simp_all add: t' rel_ok_def src rt_for_each_frame)
  then show "keeps nothing_changed t t'"
    by (auto simp: keeps_def t' wt_ok_def world_def view rt_for_each_frame)
  assume "res = Inr ks"
  then have "snd (rt_get_by_codomain ?rt v) = Inr ks"
    using res by (auto simp: rel_by_codomain_def rel_lift_def rt_get_by_codomain_def split: prod.splits sum.splits)
  from rt_get_by_codomain_exact [OF ok prov sec this]
  show "distinct ks \<and> (\<forall>k. k \<in> set ks \<longleftrightarrow> world t r k = Some v)"
    by (auto simp: world_def split: sum.splits)
qed

lemma wkeeps_by_codomain: "relation_is_secondary r \<Longrightarrow> wkeeps K (rel_by_codomain r v)"
  by (rule wkeeps_nothing) (auto simp: wkeeps_def intro: rel_by_codomain_spec)

lemma secondary_relations [simp]:
  "relation_is_secondary ObjectParent" "relation_is_secondary ObjectLocation"
  "relation_is_secondary ObjectOwner" "relation_is_secondary EntityMetadata"
  by (simp_all add: relation_is_secondary_def)

end
