(* ===== verification/WorldHier.thy ===== *)
theory WorldHier
  imports WorldView
begin

text \<open>
  The inheritance hierarchy as a function from an object to its parent. \<open>line up ob\<close> is the object
  followed by its ancestors, when that chain ends; \<open>finds up look ob r\<close> says that the search for the
  first object of the chain with an answer ends with \<open>r\<close>. The loops of the transaction that climb
  the hierarchy compute these, and the breadth-first search for descendants returns a set closed
  under children.
\<close>

section \<open>Chains\<close>

definition climbs :: "(obj \<Rightarrow> obj) \<Rightarrow> obj \<Rightarrow> obj \<Rightarrow> bool" where
  "climbs up c p \<longleftrightarrow> up c = p \<and> \<not> is_nothing p"

abbreviation climbs_to :: "(obj \<Rightarrow> obj) \<Rightarrow> obj \<Rightarrow> obj \<Rightarrow> bool" where
  "climbs_to up \<equiv> (climbs up)\<^sup>*\<^sup>*"

partial_function (option) line :: "(obj \<Rightarrow> obj) \<Rightarrow> obj \<Rightarrow> obj list option" where
  "line up ob =
     (if is_nothing (up ob) then Some [ob]
      else Option.bind (line up (up ob)) (\<lambda>xs. Some (ob # xs)))"

primrec path :: "(obj \<Rightarrow> obj) \<Rightarrow> obj \<Rightarrow> obj list \<Rightarrow> obj \<Rightarrow> bool" where
  "path up ob [] s \<longleftrightarrow> ob = s"
| "path up ob (x # pre) s \<longleftrightarrow> x = ob \<and> \<not> is_nothing (up ob) \<and> path up (up ob) pre s"

lemma line_root [simp]: "is_nothing (up ob) \<Longrightarrow> line up ob = Some [ob]"
  by (simp add: line.simps)

lemma line_step [simp]:
  "\<not> is_nothing (up ob) \<Longrightarrow> line up ob = map_option ((#) ob) (line up (up ob))"
  by (subst line.simps) (simp add: map_conv_bind_option comp_def)

lemma line_head: "line up ob = Some xs \<Longrightarrow> \<exists>ys. xs = ob # ys"
  by (cases "is_nothing (up ob)") auto

lemma line_under: "line up ob = Some xs \<Longrightarrow> x \<in> set xs \<longleftrightarrow> climbs_to up ob x"
proof (induction xs arbitrary: ob)
  case Nil
  then show ?case using line_head by fastforce
next
  case (Cons y ys)
  show ?case
  proof (cases "is_nothing (up ob)")
    case True
    then have "climbs_to up ob x \<longleftrightarrow> x = ob"
      by (auto simp: climbs_def elim: converse_rtranclpE)
    with True Cons.prems show ?thesis by auto
  next
    case False
    with Cons.prems have "line up (up ob) = Some ys" and "y = ob" by auto
    with Cons.IH have "x \<in> set ys \<longleftrightarrow> climbs_to up (up ob) x" by simp
    moreover have "climbs_to up ob x \<longleftrightarrow> x = ob \<or> climbs_to up (up ob) x"
      using False by (auto simp: climbs_def elim: converse_rtranclpE intro: converse_rtranclp_into_rtranclp)
    ultimately show ?thesis by (auto simp: \<open>y = ob\<close>)
  qed
qed

lemma line_cong:
  assumes "line up ob = Some xs" and "\<And>x. x \<in> set xs \<Longrightarrow> up' x = up x"
  shows "line up' ob = Some xs"
  using assms
proof (induction xs arbitrary: ob)
  case Nil
  then show ?case using line_head by fastforce
next
  case (Cons y ys)
  from line_head [OF Cons.prems(1)] have y: "y = ob" by simp
  show ?case
  proof (cases "is_nothing (up ob)")
    case True
    with Cons.prems show ?thesis by (simp add: y)
  next
    case False
    with Cons.prems have "line up (up ob) = Some ys" by auto
    with Cons.IH Cons.prems(2) False show ?thesis by (simp add: y)
  qed
qed

lemma path_snoc: "path up ob (pre @ [x]) s \<longleftrightarrow> path up ob pre x \<and> climbs up x s"
  by (induction pre arbitrary: ob) (auto simp: climbs_def)

lemma path_under: "path up ob pre s \<Longrightarrow> x \<in> insert s (set pre) \<Longrightarrow> climbs_to up ob x"
proof (induction pre arbitrary: ob)
  case (Cons y pre)
  then have c: "climbs up ob (up ob)" by (simp add: climbs_def)
  show ?case
  proof (cases "x = ob")
    case False
    with Cons have "climbs_to up (up ob) x" by auto
    with c show ?thesis by (rule converse_rtranclp_into_rtranclp)
  qed simp
qed simp

lemma path_line: "path up ob pre s \<Longrightarrow> line up ob = map_option ((@) pre) (line up s)"
  by (cases "line up s"; induction pre arbitrary: ob) auto

lemma path_cong: "path up ob pre s \<Longrightarrow> (\<And>x. x \<in> set pre \<Longrightarrow> up' x = up x) \<Longrightarrow> path up' ob pre s"
  by (induction pre arbitrary: ob) auto

text \<open>The chain ends when the hierarchy is well founded.\<close>

lemma line_total:
  assumes "wfp (\<lambda>p c. climbs up c p)"
  shows "\<exists>xs. line up ob = Some xs"
  using assms
proof (induction ob rule: wfp_induct_rule)
  case (less ob)
  then show ?case
    by (cases "is_nothing (up ob)") (auto simp: climbs_def)
qed

section \<open>Searches\<close>

definition finds :: "(obj \<Rightarrow> obj) \<Rightarrow> (obj \<Rightarrow> 'v option) \<Rightarrow> obj \<Rightarrow> 'v option \<Rightarrow> bool" where
  "finds up look ob r =
     (case r of
        Some v \<Rightarrow> \<exists>pre s. path up ob pre s \<and> (\<forall>x \<in> set pre. look x = None) \<and> look s = Some v
      | None \<Rightarrow> \<exists>xs. line up ob = Some xs \<and> (\<forall>x \<in> set xs. look x = None))"

lemma finds_SomeI:
  "path up ob pre s \<Longrightarrow> \<forall>x \<in> set pre. look x = None \<Longrightarrow> look s = Some v \<Longrightarrow> finds up look ob (Some v)"
  by (auto simp: finds_def)

text \<open>The reference: the first answer along a list.\<close>

primrec first_of :: "(obj \<Rightarrow> 'v option) \<Rightarrow> obj list \<Rightarrow> 'v option" where
  "first_of look [] = None"
| "first_of look (x # xs) = (case look x of None \<Rightarrow> first_of look xs | Some v \<Rightarrow> Some v)"

lemma first_of_None: "first_of look xs = None \<longleftrightarrow> (\<forall>x \<in> set xs. look x = None)"
  by (induction xs) (auto split: option.splits)

lemma first_of_skip: "\<forall>x \<in> set pre. look x = None \<Longrightarrow> first_of look (pre @ xs) = first_of look xs"
  by (induction pre) auto

lemma finds_line:
  assumes "finds up look ob r" and "line up ob = Some xs"
  shows "r = first_of look xs"
proof (cases r)
  case None
  with assms have "first_of look xs = None" by (auto simp: finds_def first_of_None)
  with None show ?thesis by simp
next
  case (Some v)
  with assms(1) obtain pre s where p: "path up ob pre s" "\<forall>x \<in> set pre. look x = None" "look s = Some v"
    by (auto simp: finds_def)
  with assms(2) obtain ys where "line up s = Some ys" and xs: "xs = pre @ ys"
    using path_line [OF p(1)] by auto
  then show ?thesis
    using line_head [of up s ys] p by (auto simp: first_of_skip Some)
qed

lemma finds_first:
  assumes "line up ob = Some xs"
  shows "finds up look ob (first_of look xs)"
  using assms
proof (induction xs arbitrary: ob)
  case Nil
  then show ?case using line_head by fastforce
next
  case (Cons y ys)
  from line_head [OF Cons.prems] have y: "y = ob" by simp
  show ?case
  proof (cases "look ob")
    case (Some v)
    then show ?thesis by (auto simp: finds_def y intro: exI [of _ "[]"])
  next
    case None
    show ?thesis
    proof (cases "is_nothing (up ob)")
      case True
      with Cons.prems None show ?thesis by (auto simp: finds_def y)
    next
      case False
      with Cons.prems have "line up (up ob) = Some ys" by (auto simp: y)
      from Cons.IH [OF this] have ih: "finds up look (up ob) (first_of look ys)" .
      show ?thesis
      proof (cases "first_of look ys")
        case r: None
        with ih None False show ?thesis by (auto simp: finds_def y)
      next
        case (Some v)
        with ih obtain pre s where "path up (up ob) pre s" "\<forall>x \<in> set pre. look x = None" "look s = Some v"
          by (auto simp: finds_def)
        with None False have "finds up look ob (Some v)"
          by (intro finds_SomeI [of up ob "ob # pre" s]) auto
        with Some None show ?thesis by (simp add: y)
      qed
    qed
  qed
qed

lemma finds_cong:
  assumes "finds up look ob r" and "\<And>x. climbs_to up ob x \<Longrightarrow> up' x = up x \<and> look' x = look x"
  shows "finds up' look' ob r"
proof (cases r)
  case None
  with assms(1) obtain xs where xs: "line up ob = Some xs" "\<forall>x \<in> set xs. look x = None"
    by (auto simp: finds_def)
  from line_cong [OF xs(1), of up'] xs show ?thesis
    using assms(2) line_under [OF xs(1)] by (auto simp: finds_def None)
next
  case (Some v)
  with assms(1) obtain pre s where p: "path up ob pre s" "\<forall>x \<in> set pre. look x = None" "look s = Some v"
    by (auto simp: finds_def)
  have u: "x \<in> insert s (set pre) \<Longrightarrow> up' x = up x \<and> look' x = look x" for x
    using assms(2) path_under [OF p(1)] by blast
  from path_cong [OF p(1), of up'] p u have "path up' ob pre s" "\<forall>x \<in> set pre. look' x = None" "look' s = Some v"
    by auto
  then show ?thesis by (auto simp: finds_def Some)
qed

lemma finds_unique:
  assumes "finds up look ob (Some v)" and "path up ob pre s" and "\<forall>x \<in> set pre. look x = None" and "look s = Some v'"
  shows "v = v'"
proof -
  obtain pre' s' where p': "path up ob pre' s'" "\<forall>x \<in> set pre'. look x = None" "look s' = Some v"
    using assms(1) by (auto simp: finds_def)
  have "pre = pre' \<and> s = s'"
    using assms(2,3,4) p'
  proof (induction pre arbitrary: ob pre')
    case Nil
    then show ?case by (cases pre') auto
  next
    case (Cons y pre)
    then show ?case by (cases pre') auto
  qed
  then show ?thesis using assms(4) p'(3) by simp
qed

section \<open>Branches\<close>

definition parent_in :: "'x world \<Rightarrow> obj \<Rightarrow> obj" where
  "parent_in w ob = (case Option.bind (w ObjectParent (KObj ob)) value_obj of None \<Rightarrow> NOTHING | Some p \<Rightarrow> p)"

definition children_closed :: "(obj \<Rightarrow> obj) \<Rightarrow> obj set \<Rightarrow> bool" where
  "children_closed up S \<longleftrightarrow> (\<forall>c p. climbs up c p \<longrightarrow> p \<in> S \<longrightarrow> c \<in> S)"

lemma children_closed_under: "climbs_to up c p \<Longrightarrow> children_closed up S \<Longrightarrow> p \<in> S \<Longrightarrow> c \<in> S"
  by (induction rule: converse_rtranclp_induct) (auto simp: children_closed_def)

lemma value_obj_eq: "value_obj v = Some ob \<longleftrightarrow> v = VObj ob"
  by (cases v) auto

lemma parent_in_climbs: "climbs (parent_in w) c p \<Longrightarrow> w ObjectParent (KObj c) = Some (VObj p)"
  by (auto simp: climbs_def parent_in_def value_obj_eq split: option.splits Option.bind_splits)

lemma get_object_children_spec:
  assumes "wt_ok t" and "get_object_children ob t = Some (t', r)"
  shows "keeps nothing_changed t t'"
    and "r = Inr cs \<Longrightarrow> climbs (parent_in (world t)) c ob \<Longrightarrow> c \<in> set cs"
    and "r = Inr cs \<Longrightarrow> c \<in> set cs \<Longrightarrow> \<exists>k. key_obj k = c \<and> world t ObjectParent k = Some (VObj ob)"
proof -
  obtain r1 where r1: "rel_by_codomain ObjectParent (VObj ob) t = Some (t', r1)"
    and r: "r = map_sum (\<lambda>e. e) (map key_obj) r1"
    using assms(2) by (auto simp: get_object_children_def wbind_wret)
  note spec = rel_by_codomain_spec [OF assms(1) secondary_relations(1) r1]
  show "keeps nothing_changed t t'" by (rule spec(1))
  {
    assume "r = Inr cs"
    with r obtain ks where "r1 = Inr ks" and "cs = map key_obj ks"
      by (cases r1) auto
    then have cs: "cs = map key_obj ks" and ks: "k \<in> set ks \<longleftrightarrow> world t ObjectParent k = Some (VObj ob)" for k
      using spec(2) by auto
    show "climbs (parent_in (world t)) c ob \<Longrightarrow> c \<in> set cs"
      using ks [of "KObj c"] parent_in_climbs [of "world t" c ob] by (force simp: cs)
    show "c \<in> set cs \<Longrightarrow> \<exists>k. key_obj k = c \<and> world t ObjectParent k = Some (VObj ob)"
      using ks by (auto simp: cs)
  }
qed

lemma descendants_loop_spec:
  assumes "descendants_loop queue results t = Some (t', r)" and "wt_ok t"
  shows "keeps nothing_changed t t' \<and> (\<forall>out. r = Inr out \<longrightarrow>
     (\<exists>new. out = results @ new \<and> set queue \<subseteq> set new \<and> children_closed (parent_in (world t)) (set new)))"
proof -
  define P where "P q rs t tr \<longleftrightarrow> (wt_ok t \<longrightarrow> keeps nothing_changed t (fst tr) \<and> (\<forall>out. snd tr = Inr out \<longrightarrow>
     (\<exists>new. out = rs @ new \<and> set q \<subseteq> set new \<and> children_closed (parent_in (world t)) (set new))))"
    for q rs t and tr :: "'a ws_transaction \<times> (world_state_error + obj list)"
  have "P queue results t (t', r)"
  proof (rule descendants_loop.raw_induct [OF _ assms(1)])
    fix loop q rs t tr
    assume IH: "\<And>q rs t tr. loop q rs t = Some tr \<Longrightarrow> P q rs t tr"
      and body: "(case q of [] \<Rightarrow> Some (t, Inr rs)
        | ob # q' \<Rightarrow> (case get_object_children ob t of None \<Rightarrow> None
            | Some (t', Inl e) \<Rightarrow> Some (t', Inl e)
            | Some (t', Inr children) \<Rightarrow> loop (q' @ children) (rs @ [ob]) t')) = Some tr"
    show "P q rs t tr"
      unfolding P_def
    proof
      assume ok: "wt_ok t"
      show "keeps nothing_changed t (fst tr) \<and> (\<forall>out. snd tr = Inr out \<longrightarrow>
          (\<exists>new. out = rs @ new \<and> set q \<subseteq> set new \<and> children_closed (parent_in (world t)) (set new)))"
      proof (cases q)
        case Nil
        with body ok show ?thesis by (auto simp: keeps_refl children_closed_def intro: exI [of _ "[]"])
      next
        case (Cons ob q')
        with body obtain t1 r1 where c: "get_object_children ob t = Some (t1, r1)"
          and tr: "case r1 of Inl e \<Rightarrow> tr = (t1, Inl e) | Inr children \<Rightarrow> loop (q' @ children) (rs @ [ob]) t1 = Some tr"
          by (auto split: option.splits sum.splits)
        note spec = get_object_children_spec [OF ok c]
        show ?thesis
        proof (cases r1)
          case (Inl e)
          with tr spec(1) show ?thesis by simp
        next
          case (Inr children)
          with tr have "P (q' @ children) (rs @ [ob]) t1 tr" by (simp add: IH)
          moreover have "wt_ok t1" and w: "world t1 = world t"
            using spec(1) by (auto dest: keeps_ok keeps_nothingD)
          ultimately have k: "keeps nothing_changed t1 (fst tr)"
            and new: "snd tr = Inr out \<Longrightarrow> \<exists>new. out = rs @ ob # new \<and> set q' \<union> set children \<subseteq> set new
              \<and> children_closed (parent_in (world t)) (set new)" for out
            by (auto simp: P_def)
          have "\<exists>new. out = rs @ new \<and> set q \<subseteq> set new \<and> children_closed (parent_in (world t)) (set new)"
            if "snd tr = Inr out" for out
          proof -
            from new [OF that] obtain new where n: "out = rs @ ob # new" "set q' \<union> set children \<subseteq> set new"
                "children_closed (parent_in (world t)) (set new)"
              by blast
            have "children_closed (parent_in (world t)) (set (ob # new))"
              using n spec(2) [OF Inr] by (fastforce simp: children_closed_def)
            with n show ?thesis by (intro exI [of _ "ob # new"]) (auto simp: Cons)
          qed
          with keeps_trans [OF spec(1) k] show ?thesis by blast
        qed
      qed
    qed
  qed
  with assms(2) show ?thesis by (simp add: P_def)
qed

lemma descendants_spec:
  assumes "descendants ob include_self t = Some (t', r)" and ok: "wt_ok t"
  shows "keeps nothing_changed t t'"
    and "r = Inr ds \<Longrightarrow> children_closed (parent_in (world t)) (insert ob (set ds)) \<and> (include_self \<longrightarrow> ob \<in> set ds)"
proof -
  obtain t1 r1 where c: "get_object_children ob t = Some (t1, r1)"
    and t1: "case r1 of Inl e \<Rightarrow> t' = t1 \<and> r = Inl e
      | Inr children \<Rightarrow> wbind (descendants_loop children []) (\<lambda>results.
           wret (if include_self then ob # results else results)) t1 = Some (t', r)"
    using assms(1) by (auto simp: descendants_def wbind_eq_Some)
  note spec = get_object_children_spec [OF ok c]
  have ok1: "wt_ok t1" and w1: "world t1 = world t"
    using spec(1) by (auto dest: keeps_ok keeps_nothingD)
  have "keeps nothing_changed t t' \<and> (r = Inr ds \<longrightarrow>
      children_closed (parent_in (world t)) (insert ob (set ds)) \<and> (include_self \<longrightarrow> ob \<in> set ds))"
  proof (cases r1)
    case (Inl e)
    with t1 spec(1) show ?thesis by simp
  next
    case (Inr children)
    with t1 obtain r2 where l: "descendants_loop children [] t1 = Some (t', r2)"
      and r: "r = map_sum (\<lambda>e. e) (\<lambda>results. if include_self then ob # results else results) r2"
      by (auto simp: wbind_wret)
    from descendants_loop_spec [OF l ok1] have k2: "keeps nothing_changed t1 t'"
      and out: "r2 = Inr out \<Longrightarrow> set children \<subseteq> set out \<and> children_closed (parent_in (world t)) (set out)" for out
      by (auto simp: w1)
    have "children_closed (parent_in (world t)) (insert ob (set ds)) \<and> (include_self \<longrightarrow> ob \<in> set ds)"
      if "r = Inr ds"
    proof -
      from r that obtain results where res: "r2 = Inr results"
        and ds: "ds = (if include_self then ob # results else results)"
        by (cases r2) auto
      have "insert ob (set ds) = insert ob (set results)" by (auto simp: ds)
      with out [OF res] spec(2) [OF Inr] show ?thesis
        by (fastforce simp: children_closed_def ds)
    qed
    with keeps_trans [OF spec(1) k2] show ?thesis by simp
  qed
  then show "keeps nothing_changed t t'"
    and "r = Inr ds \<Longrightarrow> children_closed (parent_in (world t)) (insert ob (set ds)) \<and> (include_self \<longrightarrow> ob \<in> set ds)"
    by auto
qed

end
