(* ===== verification/WorldInv.thy ===== *)
theory WorldInv
  imports WorldHier
begin

text \<open>
  The invariant of a transaction that ties its caches to the world it sees: every entry of the verb,
  property and ancestry caches and of the memo of permissions is what the search it stands for finds
  now. \<open>covers\<close> is the condition under which a change of the world together with an invalidation keeps
  it: every object whose search passes a changed row is invalidated.
\<close>

section \<open>What the searches look at\<close>

definition verbs_in :: "'x world \<Rightarrow> obj \<Rightarrow> verbdef list option" where
  "verbs_in w ob = Option.bind (w ObjectVerbdefs (KObj ob)) value_verbdefs"

definition props_in :: "'x world \<Rightarrow> obj \<Rightarrow> propdef list" where
  "props_in w ob = (case Option.bind (w ObjectPropdefs (KObj ob)) value_propdefs of None \<Rightarrow> [] | Some ds \<Rightarrow> ds)"

definition flags_in :: "'x world \<Rightarrow> obj \<Rightarrow> uuid \<Rightarrow> prop_perms option" where
  "flags_in w ob u = Option.bind (w ObjectPropflags (KProperty ob u)) value_perms"

definition owner_in :: "'x world \<Rightarrow> obj \<Rightarrow> obj" where
  "owner_in w ob = (case Option.bind (w ObjectOwner (KObj ob)) value_obj of None \<Rightarrow> NOTHING | Some p \<Rightarrow> p)"

definition verb_at ::
  "(symbol_id \<Rightarrow> chars) \<Rightarrow> 'x world \<Rightarrow> symbol_id \<Rightarrow> verb_args_spec option \<Rightarrow> bit_enum option \<Rightarrow> obj \<Rightarrow> resolved_verb option" where
  "verb_at txt w name a f x =
     map_option as_resolved (Option.bind (verbs_in w x)
       (find (\<lambda>v. verbdef_matches_name txt v name \<and> verbdef_matches_spec v a f)))"

definition has_verbs :: "'x world \<Rightarrow> obj \<Rightarrow> obj option" where
  "has_verbs w x = (if verbs_in w x = None then None else Some x)"

definition prop_at :: "'x world \<Rightarrow> symbol_id \<Rightarrow> obj \<Rightarrow> propdef option" where
  "prop_at w name x = defs_find_first_named propdef_matches_name (props_in w x) name"

definition has_props :: "'x world \<Rightarrow> obj \<Rightarrow> obj option" where
  "has_props w x = (if props_in w x = [] then None else Some x)"

definition def_at :: "'x world \<Rightarrow> uuid \<Rightarrow> obj \<Rightarrow> propdef option" where
  "def_at w u x = defs_find pd_uuid (props_in w x) u"

text \<open>The permissions of a property on an object: its own, or those of the definer.\<close>

definition inherited_perms :: "'x world \<Rightarrow> obj \<Rightarrow> propdef \<Rightarrow> prop_perms \<Rightarrow> prop_perms" where
  "inherited_perms w ob d c =
     (if be_contains prop_flag_index (pp_flags c) PropChown \<and> ob \<noteq> pd_definer d
      then prop_perms_with_owner c (owner_in w ob) else c)"

definition perms_are :: "'x world \<Rightarrow> obj \<Rightarrow> uuid \<Rightarrow> prop_perms \<Rightarrow> bool" where
  "perms_are w ob u p \<longleftrightarrow>
     (case flags_in w ob u of
        Some q \<Rightarrow> p = q
      | None \<Rightarrow> (\<exists>d c. finds (parent_in w) (def_at w u) ob (Some d)
                  \<and> flags_in w (pd_definer d) u = Some c \<and> p = inherited_perms w ob d c))"

text \<open>A property is defined where it is stored.\<close>

definition definers_local :: "'x world \<Rightarrow> bool" where
  "definers_local w \<longleftrightarrow> (\<forall>x. \<forall>d \<in> set (props_in w x). pd_definer d = x)"

text \<open>
  A name whose spellings match the same verbs: it has no star, and the symbols with the same
  comparison id differ from it in the case of ASCII letters only. The verb cache is keyed by the
  comparison id, so for other names one spelling may answer for another.
\<close>

definition plain :: "(symbol_id \<Rightarrow> chars) \<Rightarrow> symbol_id \<Rightarrow> bool" where
  "plain txt n \<longleftrightarrow> star_char \<notin> set (txt n)
     \<and> (\<forall>n'. compare_id n' = compare_id n \<longrightarrow> fold_word (txt n') = fold_word (txt n))"

lemma star_in_fold: "star_char \<in> set (fold_word w) \<longleftrightarrow> star_char \<in> set w"
  by (auto simp: fold_word_def to_ascii_lower_def image_iff split: if_splits)

lemma verbcasecmp_accepts:
  assumes "star_char \<notin> set w"
  shows "verbcasecmp pat w \<longleftrightarrow> accepts StarNone False pat w"
proof -
  have "filter (\<lambda>c. c \<noteq> star_char) w = w" using assms by (auto intro: filter_True)
  then have "core w = fold_word w" by (simp add: core_def fold_word_def)
  then have "accepts StarNone False w w" by (simp add: accepts_def fold_word_def)
  moreover have "verbcasecmp pat w \<longleftrightarrow> pat = w \<or> verdict (verb_loop pat w StarNone False)"
    by (simp add: verbcasecmp_def verdict_def)
  ultimately show ?thesis by (auto simp: verb_loop_accepts)
qed

lemma accepts_fold: "fold_word w' = fold_word w \<Longrightarrow> accepts star hm pat w' = accepts star hm pat w"
  using map_eq_imp_length_eq [of to_ascii_lower w' to_ascii_lower w] by (simp add: accepts_def fold_word_def)

lemma plain_spelling:
  assumes "plain txt n" and "compare_id n' = compare_id n"
  shows "plain txt n'" and "verbdef_matches_name txt v n' = verbdef_matches_name txt v n"
proof -
  have star: "star_char \<notin> set (txt n)" and all: "compare_id m = compare_id n \<Longrightarrow> fold_word (txt m) = fold_word (txt n)" for m
    using assms(1) unfolding plain_def by blast+
  note f = all [OF assms(2)]
  then have star': "star_char \<notin> set (txt n')"
    using star star_in_fold [of "txt n'"] star_in_fold [of "txt n"] by metis
  moreover have "fold_word (txt m) = fold_word (txt n')" if "compare_id m = compare_id n'" for m
    unfolding f by (rule all) (use that assms(2) in simp)
  ultimately show "plain txt n'" unfolding plain_def by blast
  have "verbcasecmp pat (txt n') = verbcasecmp pat (txt n)" for pat
    unfolding verbcasecmp_accepts [OF star] verbcasecmp_accepts [OF star'] by (rule accepts_fold [OF f])
  then show "verbdef_matches_name txt v n' = verbdef_matches_name txt v n"
    by (simp add: verbdef_matches_name_def verb_matches_name_def)
qed

section \<open>The invariant\<close>

definition verbs_sound :: "(symbol_id \<Rightarrow> chars) \<Rightarrow> 'x world \<Rightarrow> resolved_verb verb_cache \<Rightarrow> bool" where
  "verbs_sound txt w c \<longleftrightarrow>
     (\<forall>ob name a f r. vc_lookup_spec c ob name a f = Some r \<longrightarrow> plain txt name \<longrightarrow> finds (parent_in w) (verb_at txt w name a f) ob r)
     \<and> (\<forall>ob r. vc_lookup_first_parent c ob = Some r \<longrightarrow> finds (parent_in w) (has_verbs w) ob r)"

definition props_sound :: "'x world \<Rightarrow> propdef prop_cache \<Rightarrow> bool" where
  "props_sound w c \<longleftrightarrow>
     (\<forall>ob name r. pc_lookup c ob name = Some r \<longrightarrow> finds (parent_in w) (prop_at w name) ob r)
     \<and> (\<forall>ob r. pc_lookup_first_parent c ob = Some r \<longrightarrow> finds (parent_in w) (has_props w) ob r)"

definition lines_sound :: "'x world \<Rightarrow> ancestry_cache \<Rightarrow> bool" where
  "lines_sound w c \<longleftrightarrow> (\<forall>ob as. ac_lookup c ob = Some as \<longrightarrow> line (parent_in w) ob = Some (ob # as))"

definition memo_sound :: "'x world \<Rightarrow> perm_memo \<Rightarrow> bool" where
  "memo_sound w m \<longleftrightarrow> (\<forall>ob u p. cached_perms m (ob, u) = Some p \<longrightarrow> perms_are w ob u p)"

definition winv :: "(symbol_id \<Rightarrow> chars) \<Rightarrow> 'x ws_transaction \<Rightarrow> bool" where
  "winv txt t \<longleftrightarrow> wt_ok t \<and> definers_local (world t)
     \<and> verbs_sound txt (world t) (verb_resolution_cache (wt_caches t))
     \<and> props_sound (world t) (prop_resolution_cache (wt_caches t))
     \<and> lines_sound (world t) (ancestry_cache (wt_caches t))
     \<and> memo_sound (world t) (wt_perm_memo t)"

section \<open>Changes of the world\<close>

definition covers ::
  "obj set \<Rightarrow> obj set \<Rightarrow> obj set \<Rightarrow> property_key set \<Rightarrow> (database_relation \<Rightarrow> db_key \<Rightarrow> bool) \<Rightarrow> 'x world \<Rightarrow> bool" where
  "covers DV DP DA DM K w \<longleftrightarrow>
     (\<forall>ob x. climbs_to (parent_in w) ob x \<longrightarrow>
        (ob \<notin> DV \<longrightarrow> \<not> K ObjectParent (KObj x) \<and> \<not> K ObjectVerbdefs (KObj x))
        \<and> (ob \<notin> DP \<longrightarrow> \<not> K ObjectParent (KObj x) \<and> \<not> K ObjectPropdefs (KObj x))
        \<and> (ob \<notin> DA \<longrightarrow> \<not> K ObjectParent (KObj x)))
     \<and> (\<forall>ob u. (ob, u) \<notin> DM \<longrightarrow> \<not> K ObjectPropflags (KProperty ob u)
        \<and> (flags_in w ob u = None \<longrightarrow> (\<forall>d c. finds (parent_in w) (def_at w u) ob (Some d)
             \<longrightarrow> flags_in w (pd_definer d) u = Some c
             \<longrightarrow> (ob \<noteq> pd_definer d \<longrightarrow> \<not> K ObjectOwner (KObj ob))
               \<and> \<not> K ObjectPropflags (KProperty (pd_definer d) u)
               \<and> (\<forall>x. climbs_to (parent_in w) ob x \<longrightarrow> \<not> K ObjectParent (KObj x) \<and> \<not> K ObjectPropdefs (KObj x)))))"

lemma in_world_cong:
  "w' ObjectParent (KObj x) = w ObjectParent (KObj x) \<Longrightarrow> parent_in w' x = parent_in w x"
  "w' ObjectVerbdefs (KObj x) = w ObjectVerbdefs (KObj x) \<Longrightarrow> verbs_in w' x = verbs_in w x"
  "w' ObjectPropdefs (KObj x) = w ObjectPropdefs (KObj x) \<Longrightarrow> props_in w' x = props_in w x"
  "w' ObjectOwner (KObj x) = w ObjectOwner (KObj x) \<Longrightarrow> owner_in w' x = owner_in w x"
  "w' ObjectPropflags (KProperty x u) = w ObjectPropflags (KProperty x u) \<Longrightarrow> flags_in w' x u = flags_in w x u"
  by (simp_all add: parent_in_def verbs_in_def props_in_def owner_in_def flags_in_def)

lemma coversD:
  assumes "covers DV DP DA DM K w"
  shows "climbs_to (parent_in w) ob x \<Longrightarrow> ob \<notin> DV \<Longrightarrow> \<not> K ObjectParent (KObj x) \<and> \<not> K ObjectVerbdefs (KObj x)"
    and "climbs_to (parent_in w) ob x \<Longrightarrow> ob \<notin> DP \<Longrightarrow> \<not> K ObjectParent (KObj x) \<and> \<not> K ObjectPropdefs (KObj x)"
    and "climbs_to (parent_in w) ob x \<Longrightarrow> ob \<notin> DA \<Longrightarrow> \<not> K ObjectParent (KObj x)"
    and "(ob, u) \<notin> DM \<Longrightarrow> \<not> K ObjectPropflags (KProperty ob u)"
    and "(ob, u) \<notin> DM \<Longrightarrow> flags_in w ob u = None \<Longrightarrow> finds (parent_in w) (def_at w u) ob (Some d) \<Longrightarrow>
      flags_in w (pd_definer d) u = Some c \<Longrightarrow>
      (ob \<noteq> pd_definer d \<longrightarrow> \<not> K ObjectOwner (KObj ob)) \<and> \<not> K ObjectPropflags (KProperty (pd_definer d) u)
      \<and> (\<forall>x. climbs_to (parent_in w) ob x \<longrightarrow> \<not> K ObjectParent (KObj x) \<and> \<not> K ObjectPropdefs (KObj x))"
  using assms unfolding covers_def by (meson, meson, meson, meson, meson)

lemma verbs_sound_change:
  assumes cov: "covers DV DP DA DM K w" and same: "\<And>r k. \<not> K r k \<Longrightarrow> w' r k = w r k"
    and sound: "verbs_sound txt w c"
    and look: "\<And>ob n a f r. vc_lookup_spec c' ob n a f = Some r \<Longrightarrow> ob \<notin> DV \<and> vc_lookup_spec c ob n a f = Some r"
    and first: "\<And>ob r. vc_lookup_first_parent c' ob = Some r \<Longrightarrow> ob \<notin> DV \<and> vc_lookup_first_parent c ob = Some r"
  shows "verbs_sound txt w' c'"
proof -
  have u: "parent_in w' x = parent_in w x \<and> verbs_in w' x = verbs_in w x"
    if "ob \<notin> DV" and "climbs_to (parent_in w) ob x" for ob x
    using coversD(1) [OF cov that(2,1)] by (intro conjI in_world_cong same) simp_all
  have "finds (parent_in w') (verb_at txt w' name a f) ob r"
    if "vc_lookup_spec c' ob name a f = Some r" and "plain txt name" for ob name a f r
  proof (rule finds_cong)
    show "finds (parent_in w) (verb_at txt w name a f) ob r"
      using sound look [OF that(1)] that(2) by (simp add: verbs_sound_def)
  qed (use look [OF that(1)] u [of ob] in \<open>simp add: verb_at_def\<close>)
  moreover have "finds (parent_in w') (has_verbs w') ob r" if "vc_lookup_first_parent c' ob = Some r" for ob r
  proof (rule finds_cong)
    show "finds (parent_in w) (has_verbs w) ob r"
      using sound first [OF that] by (simp add: verbs_sound_def)
  qed (use first [OF that] u [of ob] in \<open>simp add: has_verbs_def\<close>)
  ultimately show ?thesis by (simp add: verbs_sound_def)
qed

lemma props_sound_change:
  assumes cov: "covers DV DP DA DM K w" and same: "\<And>r k. \<not> K r k \<Longrightarrow> w' r k = w r k"
    and sound: "props_sound w c"
    and look: "\<And>ob n r. pc_lookup c' ob n = Some r \<Longrightarrow> ob \<notin> DP \<and> pc_lookup c ob n = Some r"
    and first: "\<And>ob r. pc_lookup_first_parent c' ob = Some r \<Longrightarrow> ob \<notin> DP \<and> pc_lookup_first_parent c ob = Some r"
  shows "props_sound w' c'"
proof -
  have u: "parent_in w' x = parent_in w x \<and> props_in w' x = props_in w x"
    if "ob \<notin> DP" and "climbs_to (parent_in w) ob x" for ob x
    using coversD(2) [OF cov that(2,1)] by (intro conjI in_world_cong same) simp_all
  have "finds (parent_in w') (prop_at w' name) ob r" if "pc_lookup c' ob name = Some r" for ob name r
  proof (rule finds_cong)
    show "finds (parent_in w) (prop_at w name) ob r"
      using sound look [OF that] by (simp add: props_sound_def)
  qed (use look [OF that] u [of ob] in \<open>simp add: prop_at_def\<close>)
  moreover have "finds (parent_in w') (has_props w') ob r" if "pc_lookup_first_parent c' ob = Some r" for ob r
  proof (rule finds_cong)
    show "finds (parent_in w) (has_props w) ob r"
      using sound first [OF that] by (simp add: props_sound_def)
  qed (use first [OF that] u [of ob] in \<open>simp add: has_props_def\<close>)
  ultimately show ?thesis by (simp add: props_sound_def)
qed

lemma lines_sound_change:
  assumes cov: "covers DV DP DA DM K w" and same: "\<And>r k. \<not> K r k \<Longrightarrow> w' r k = w r k"
    and sound: "lines_sound w c" and look: "\<And>ob as. ac_lookup c' ob = Some as \<Longrightarrow> ob \<notin> DA \<and> ac_lookup c ob = Some as"
  shows "lines_sound w' c'"
  unfolding lines_sound_def
proof (intro allI impI)
  fix ob as
  assume "ac_lookup c' ob = Some as"
  from look [OF this] sound have l: "line (parent_in w) ob = Some (ob # as)" and "ob \<notin> DA"
    by (simp_all add: lines_sound_def)
  then show "line (parent_in w') ob = Some (ob # as)"
    by (intro line_cong [OF l] in_world_cong same coversD(3) [OF cov _ \<open>ob \<notin> DA\<close>])
      (simp add: line_under [OF l, symmetric])
qed

lemma memo_sound_change:
  assumes cov: "covers DV DP DA DM K w" and same: "\<And>r k. \<not> K r k \<Longrightarrow> w' r k = w r k"
    and sound: "memo_sound w m" and look: "\<And>h p. cached_perms m' h = Some p \<Longrightarrow> h \<notin> DM \<and> cached_perms m h = Some p"
  shows "memo_sound w' m'"
  unfolding memo_sound_def
proof (intro allI impI)
  fix ob u p
  assume "cached_perms m' (ob, u) = Some p"
  from look [OF this] sound have p: "perms_are w ob u p" and dm: "(ob, u) \<notin> DM"
    by (simp_all add: memo_sound_def)
  have own: "flags_in w' ob u = flags_in w ob u"
    by (intro in_world_cong same coversD(4) [OF cov dm])
  show "perms_are w' ob u p"
  proof (cases "flags_in w ob u")
    case (Some q)
    with p own show ?thesis by (simp add: perms_are_def)
  next
    case None
    with p obtain d c where f: "finds (parent_in w) (def_at w u) ob (Some d)"
      and c: "flags_in w (pd_definer d) u = Some c" and p: "p = inherited_perms w ob d c"
      by (auto simp: perms_are_def)
    from coversD(5) [OF cov dm None f c] have K: "ob \<noteq> pd_definer d \<Longrightarrow> \<not> K ObjectOwner (KObj ob)"
      "\<not> K ObjectPropflags (KProperty (pd_definer d) u)"
      "climbs_to (parent_in w) ob x \<Longrightarrow> \<not> K ObjectParent (KObj x) \<and> \<not> K ObjectPropdefs (KObj x)" for x
      by auto
    have "finds (parent_in w') (def_at w' u) ob (Some d)"
    proof (rule finds_cong [OF f])
      fix x
      assume "climbs_to (parent_in w) ob x"
      from K(3) [OF this] have "parent_in w' x = parent_in w x" and "props_in w' x = props_in w x"
        by (intro in_world_cong same; simp)+
      then show "parent_in w' x = parent_in w x \<and> def_at w' u x = def_at w u x"
        by (simp add: def_at_def)
    qed
    moreover have "flags_in w' (pd_definer d) u = Some c"
      using in_world_cong(5) [of w' "pd_definer d" u w, OF same [OF K(2)]] c by simp
    moreover have "inherited_perms w' ob d c = p"
      using in_world_cong(4) [of w' ob w, OF same [OF K(1)]] by (cases "ob = pd_definer d") (simp_all add: p inherited_perms_def)
    ultimately show ?thesis
      using own None by (auto simp: perms_are_def)
  qed
qed

section \<open>Edits\<close>

text \<open>What the end of an edit drops.\<close>

fun drop_verbs :: "edit_scope \<Rightarrow> obj set" where
  "drop_verbs (EditVerbs os) = set os"
| "drop_verbs (EditHierarchy os) = set os"
| "drop_verbs (EditRemove os removed) = set os"
| "drop_verbs (EditRenumber os old new) = set os"
| "drop_verbs scope = {}"

fun drop_props :: "edit_scope \<Rightarrow> obj set" where
  "drop_props (EditProperties os removed) = set os"
| "drop_props (EditPropertyValue ob) = {ob}"
| "drop_props (EditHierarchy os) = set os"
| "drop_props (EditRemove os removed) = set os"
| "drop_props (EditRenumber os old new) = set os"
| "drop_props scope = {}"

fun drop_lines :: "edit_scope \<Rightarrow> obj set" where
  "drop_lines (EditHierarchy os) = set os"
| "drop_lines (EditRemove os removed) = set os"
| "drop_lines (EditRenumber os old new) = set os"
| "drop_lines scope = {}"

fun drop_memo :: "edit_scope \<Rightarrow> property_key set" where
  "drop_memo (EditProperties os removed) = {h. fst h \<in> set os}"
| "drop_memo (EditPermissions h) = {h}"
| "drop_memo (EditOwner ob) = {h. fst h = ob}"
| "drop_memo (EditHierarchy os) = {h. fst h \<in> set os}"
| "drop_memo (EditRemove os removed) = {h. fst h \<in> set os}"
| "drop_memo (EditRenumber os old new) = UNIV"
| "drop_memo scope = {}"

lemma vc_lookup_query: "vc_lookup_spec c ob n a f = vc_query c (ob, compare_id n, a, f)"
  by (simp add: vc_defs verb_key_compare_id)

lemma pc_lookup_query: "pc_lookup c ob n = pc_query c (ob, compare_id n)"
  by (simp add: pc_defs prop_key_compare_id)

lemma invalidate_lookups [simp]:
  "vc_lookup_spec (vc_invalidate_objects c os) ob n a f = (if ob \<in> set os then None else vc_lookup_spec c ob n a f)"
  "vc_lookup_first_parent (vc_invalidate_objects c os) ob = (if ob \<in> set os then None else vc_lookup_first_parent c ob)"
  "pc_lookup (pc_invalidate_objects d os) ob n = (if ob \<in> set os then None else pc_lookup d ob n)"
  "pc_lookup_first_parent (pc_invalidate_objects d os) ob = (if ob \<in> set os then None else pc_lookup_first_parent d ob)"
  "ac_lookup (ac_invalidate_objects e os) ob = (if ob \<in> set os then None else ac_lookup e ob)"
  by (simp_all add: vc_lookup_query pc_lookup_query vc.lookup_invalidate vfp.lookup_invalidate pc.lookup_invalidate
      pfp.lookup_invalidate ac.lookup_invalidate)

lemma memo_lookups [simp]:
  "cached_perms (invalidate_cached_for_obj m ob) h = (if fst h = ob then None else cached_perms m h)"
  "cached_perms (invalidate_cached_for_holder m h') h = (if h = h' then None else cached_perms m h)"
  "cached_perms (clear_cached m) h = None"
  "cached_perms (invalidate_known_for_obj m ob) h = cached_perms m h"
  "cached_perms (invalidate_known_for_holder m h') h = cached_perms m h"
  "cached_perms (mark_known_propflags m h') h = cached_perms m h"
  "cached_perms (cache_perms m h' p) h = (if h = h' then Some p else cached_perms m h)"
  by (simp_all add: cached_perms_def invalidate_cached_for_obj_def invalidate_cached_for_holder_def clear_cached_def
      invalidate_known_for_obj_def invalidate_known_for_holder_def mark_known_propflags_def cache_perms_def
      map_of_filter_key hm_simps)

lemma foldl_invalidate_cached [simp]:
  "cached_perms (foldl invalidate_cached_for_obj m os) h = (if fst h \<in> set os then None else cached_perms m h)"
  by (induction os arbitrary: m) auto

lemma foldl_invalidate_known [simp]: "cached_perms (foldl invalidate_known_for_obj m os) h = cached_perms m h"
  by (induction os arbitrary: m) auto

lemma foldl_invalidate_props [simp]:
  "cached_perms (foldl (\<lambda>m ob.
       let m = invalidate_cached_for_obj m ob
       in case removed of None \<Rightarrow> m | Some u \<Rightarrow> invalidate_known_for_holder m (ob, u)) m os) h =
     (if fst h \<in> set os then None else cached_perms m h)"
  by (induction os arbitrary: m) (auto simp: Let_def split: option.splits)

lemma on_cache_simps [simp]:
  "wt_rel (on_verbs f t) = wt_rel t" "wt_rel (on_props g t) = wt_rel t" "wt_rel (on_ancestry h t) = wt_rel t"
  "wt_rel (on_memo i t) = wt_rel t" "wt_perm_memo (on_memo i t) = i (wt_perm_memo t)"
  "wt_perm_memo (on_verbs f t) = wt_perm_memo t" "wt_perm_memo (on_props g t) = wt_perm_memo t"
  "wt_perm_memo (on_ancestry h t) = wt_perm_memo t" "wt_caches (on_memo i t) = wt_caches t"
  "verb_resolution_cache (wt_caches (on_verbs f t)) = f (verb_resolution_cache (wt_caches t))"
  "prop_resolution_cache (wt_caches (on_verbs f t)) = prop_resolution_cache (wt_caches t)"
  "ancestry_cache (wt_caches (on_verbs f t)) = ancestry_cache (wt_caches t)"
  "verb_resolution_cache (wt_caches (on_props g t)) = verb_resolution_cache (wt_caches t)"
  "prop_resolution_cache (wt_caches (on_props g t)) = g (prop_resolution_cache (wt_caches t))"
  "ancestry_cache (wt_caches (on_props g t)) = ancestry_cache (wt_caches t)"
  "verb_resolution_cache (wt_caches (on_ancestry h t)) = verb_resolution_cache (wt_caches t)"
  "prop_resolution_cache (wt_caches (on_ancestry h t)) = prop_resolution_cache (wt_caches t)"
  "ancestry_cache (wt_caches (on_ancestry h t)) = h (ancestry_cache (wt_caches t))"
  by (simp_all add: on_verbs_def on_props_def on_ancestry_def on_memo_def)

lemma world_on_cache [simp]:
  "world (on_verbs f t) = world t" "world (on_props g t) = world t" "world (on_ancestry h t) = world t"
  "world (on_memo i t) = world t"
  "wt_ok (on_verbs f t) = wt_ok t" "wt_ok (on_props g t) = wt_ok t" "wt_ok (on_ancestry h t) = wt_ok t"
  "wt_ok (on_memo i t) = wt_ok t"
  by (simp_all add: world_def wt_ok_def fun_eq_iff)

lemma edit_drop_frame:
  "wt_rel (edit_drop scope t) = wt_rel t"
  by (cases scope) (simp_all add: drop_branch_def)

lemma edit_drop_lookups:
  "vc_lookup_spec (verb_resolution_cache (wt_caches (edit_drop scope t))) ob n a f =
     (if ob \<in> drop_verbs scope then None else vc_lookup_spec (verb_resolution_cache (wt_caches t)) ob n a f)"
  "vc_lookup_first_parent (verb_resolution_cache (wt_caches (edit_drop scope t))) ob =
     (if ob \<in> drop_verbs scope then None else vc_lookup_first_parent (verb_resolution_cache (wt_caches t)) ob)"
  "pc_lookup (prop_resolution_cache (wt_caches (edit_drop scope t))) ob n =
     (if ob \<in> drop_props scope then None else pc_lookup (prop_resolution_cache (wt_caches t)) ob n)"
  "pc_lookup_first_parent (prop_resolution_cache (wt_caches (edit_drop scope t))) ob =
     (if ob \<in> drop_props scope then None else pc_lookup_first_parent (prop_resolution_cache (wt_caches t)) ob)"
  "ac_lookup (ancestry_cache (wt_caches (edit_drop scope t))) ob =
     (if ob \<in> drop_lines scope then None else ac_lookup (ancestry_cache (wt_caches t)) ob)"
  "cached_perms (wt_perm_memo (edit_drop scope t)) h =
     (if h \<in> drop_memo scope then None else cached_perms (wt_perm_memo t) h)"
  by (cases scope; auto simp: drop_branch_def)+

text \<open>A change without an edit, and a change under an edit.\<close>

lemma keeps_winv:
  assumes "winv txt t" and k: "keeps K t t'" and cov: "covers {} {} {} {} K (world t)"
    and "definers_local (world t')"
  shows "winv txt t'"
proof -
  have same: "\<not> K r key \<Longrightarrow> world t' r key = world t r key" for r key
    using k by (simp add: keeps_def)
  have c: "wt_caches t' = wt_caches t" "wt_perm_memo t' = wt_perm_memo t" "wt_ok t'"
    using k by (simp_all add: keeps_def)
  have s: "verbs_sound txt (world t) (verb_resolution_cache (wt_caches t))"
    "props_sound (world t) (prop_resolution_cache (wt_caches t))"
    "lines_sound (world t) (ancestry_cache (wt_caches t))" "memo_sound (world t) (wt_perm_memo t)"
    using assms(1) by (simp_all add: winv_def)
  have "verbs_sound txt (world t') (verb_resolution_cache (wt_caches t))"
    by (rule verbs_sound_change [OF cov same s(1)]) simp_all
  moreover have "props_sound (world t') (prop_resolution_cache (wt_caches t))"
    by (rule props_sound_change [OF cov same s(2)]) simp_all
  moreover have "lines_sound (world t') (ancestry_cache (wt_caches t))"
    by (rule lines_sound_change [OF cov same s(3)]) simp_all
  moreover have "memo_sound (world t') (wt_perm_memo t)"
    by (rule memo_sound_change [OF cov same s(4)]) simp_all
  ultimately show ?thesis
    using assms(4) by (simp add: winv_def c)
qed

lemma keeps_nothing_winv: "winv txt t \<Longrightarrow> keeps nothing_changed t t' \<Longrightarrow> winv txt t'"
  by (simp add: winv_def keeps_def keeps_nothingD [of t t'])

lemma edit_drop_winv:
  assumes "winv txt t" and k: "keeps K t t'"
    and cov: "covers (drop_verbs scope) (drop_props scope) (drop_lines scope) (drop_memo scope) K (world t)"
    and "definers_local (world t')"
  shows "winv txt (edit_drop scope t')"
proof -
  have same: "\<not> K r key \<Longrightarrow> world t' r key = world t r key" for r key
    using k by (simp add: keeps_def)
  have c: "wt_caches t' = wt_caches t" "wt_perm_memo t' = wt_perm_memo t" "wt_ok t'"
    using k by (simp_all add: keeps_def)
  have w: "world (edit_drop scope t') = world t'" and ok: "wt_ok (edit_drop scope t')"
    using c(3) by (simp_all add: world_def wt_ok_def edit_drop_frame fun_eq_iff)
  have s: "verbs_sound txt (world t) (verb_resolution_cache (wt_caches t))"
    "props_sound (world t) (prop_resolution_cache (wt_caches t))"
    "lines_sound (world t) (ancestry_cache (wt_caches t))" "memo_sound (world t) (wt_perm_memo t)"
    using assms(1) by (simp_all add: winv_def)
  have "verbs_sound txt (world t') (verb_resolution_cache (wt_caches (edit_drop scope t')))"
    by (rule verbs_sound_change [OF cov same s(1)]) (auto simp: edit_drop_lookups c split: if_splits)
  moreover have "props_sound (world t') (prop_resolution_cache (wt_caches (edit_drop scope t')))"
    by (rule props_sound_change [OF cov same s(2)]) (auto simp: edit_drop_lookups c split: if_splits)
  moreover have "lines_sound (world t') (ancestry_cache (wt_caches (edit_drop scope t')))"
    by (rule lines_sound_change [OF cov same s(3)]) (auto simp: edit_drop_lookups c split: if_splits)
  moreover have "memo_sound (world t') (wt_perm_memo (edit_drop scope t'))"
    by (rule memo_sound_change [OF cov same s(4)]) (auto simp: edit_drop_lookups c split: if_splits)
  ultimately show ?thesis
    using ok assms(4) by (simp add: winv_def w)
qed

end
