(* ===== verification/WorldReads.thy ===== *)
theory WorldReads
  imports WorldInv
begin

text \<open>
  A Hoare logic for the operations of a transaction, \<open>wok txt w m Q\<close>: run in the world \<open>w\<close> with the
  invariant of \<open>WorldInv\<close>, \<open>m\<close> keeps the invariant whether it succeeds or fails, and a result satisfies
  \<open>Q\<close> in the world it leaves. The reads that go through a cache are shown here to return what the
  search finds.
\<close>

named_theorems wok_intros \<open>rules of the logic of operations\<close>

definition wok :: "(symbol_id \<Rightarrow> chars) \<Rightarrow> 'x world \<Rightarrow> ('x, 'a) wm \<Rightarrow> ('a \<Rightarrow> 'x world \<Rightarrow> bool) \<Rightarrow> bool" where
  "wok txt w m Q \<longleftrightarrow> (\<forall>t t' r. winv txt t \<longrightarrow> world t = w \<longrightarrow> m t = Some (t', r) \<longrightarrow>
     winv txt t' \<and> (\<forall>a. r = Inr a \<longrightarrow> Q a (world t')))"

lemma wokI:
  assumes "\<And>t t' r. winv txt t \<Longrightarrow> world t = w \<Longrightarrow> m t = Some (t', r) \<Longrightarrow>
    winv txt t' \<and> (\<forall>a. r = Inr a \<longrightarrow> Q a (world t'))"
  shows "wok txt w m Q"
  using assms unfolding wok_def by blast

lemma wokD:
  assumes "wok txt w m Q" and "winv txt t" and "world t = w" and "m t = Some (t', r)"
  shows "winv txt t'" and "r = Inr a \<Longrightarrow> Q a (world t')"
  using assms unfolding wok_def by blast+

lemma wok_bind:
  assumes "wok txt w m Q" and "\<And>a w'. Q a w' \<Longrightarrow> wok txt w' (f a) R"
  shows "wok txt w (wbind m f) R"
proof (rule wokI)
  fix t t' r
  assume inv: "winv txt t" "world t = w" and "wbind m f t = Some (t', r)"
  then obtain t1 r1 where m: "m t = Some (t1, r1)"
    and f: "case r1 of Inl e \<Rightarrow> t' = t1 \<and> r = Inl e | Inr a \<Rightarrow> f a t1 = Some (t', r)"
    by (auto simp: wbind_eq_Some)
  note i1 = wokD [OF assms(1) inv m]
  show "winv txt t' \<and> (\<forall>a. r = Inr a \<longrightarrow> R a (world t'))"
  proof (cases r1)
    case (Inl e)
    with f i1(1) show ?thesis by simp
  next
    case (Inr a)
    with f have "f a t1 = Some (t', r)" by simp
    from wokD [OF assms(2) [OF i1(2) [OF Inr]] i1(1) refl this] show ?thesis by blast
  qed
qed

lemma wok_weaken: "wok txt w m Q \<Longrightarrow> (\<And>a w'. Q a w' \<Longrightarrow> Q' a w') \<Longrightarrow> wok txt w m Q'"
  unfolding wok_def by blast

lemma wok_ret [wok_intros]: "Q a w \<Longrightarrow> wok txt w (wret a) Q"
  by (rule wokI) (auto simp: wret_def)

lemma wok_fail [wok_intros]: "wok txt w (wfail e) Q"
  by (rule wokI) (auto simp: wfail_def)

lemma wok_panic [wok_intros]: "wok txt w wpanic Q"
  by (rule wokI) (auto simp: wpanic_def)

lemma wok_state:
  "(\<And>t. winv txt t \<Longrightarrow> world t = w \<Longrightarrow> P (f t)) \<Longrightarrow> wok txt w (wstate f) (\<lambda>a w'. w' = w \<and> P a)"
  by (rule wokI) (auto simp: wstate_def)

lemma wok_modify:
  "(\<And>t. winv txt t \<Longrightarrow> world t = w \<Longrightarrow> winv txt (f t) \<and> world (f t) = w) \<Longrightarrow> wok txt w (wmodify f) (\<lambda>_ w'. w' = w)"
  by (rule wokI) (auto simp: wmodify_def)

lemma wok_fold:
  assumes "\<And>x a w. x \<in> set xs \<Longrightarrow> I a w \<Longrightarrow> wok txt w (f x a) I" and "I a w"
  shows "wok txt w (wfold f xs a) I"
  using assms
proof (induction xs arbitrary: a w)
  case (Cons x xs)
  have "wok txt w' (wfold f xs b) I" if "I b w'" for b w'
    by (rule Cons.IH [OF _ that]) (simp add: Cons.prems(1))
  moreover have "wok txt w (f x a) I"
    using Cons.prems by simp
  ultimately show ?case by (simp add: wok_bind [of "txt" w "f x a" I])
qed (simp add: wok_ret)

lemma wok_for:
  assumes "\<And>x w. x \<in> set xs \<Longrightarrow> I w \<Longrightarrow> wok txt w (f x) (\<lambda>_. I)" and "I w"
  shows "wok txt w (wfor f xs) (\<lambda>_. I)"
  unfolding wfor_def
proof (rule wok_fold)
  fix x w and a :: unit
  assume "x \<in> set xs" and "I w"
  then show "wok txt w (wbind (f x) (\<lambda>_. wret ())) (\<lambda>_. I)"
    by (intro wok_bind [OF assms(1)] wok_ret)
qed (rule assms(2))

text \<open>Reads of relations.\<close>

lemma wok_unchanged:
  assumes "wkeeps nothing_changed m"
  shows "wok txt w m (\<lambda>_ w'. w' = w)"
proof (rule wokI)
  fix t t' r
  assume "winv txt t" and "world t = w" and "m t = Some (t', r)"
  moreover have "keeps nothing_changed t t'"
    by (rule wkeepsD [OF assms]) (use calculation in \<open>simp_all add: winv_def\<close>)
  ultimately show "winv txt t' \<and> (\<forall>a. r = Inr a \<longrightarrow> world t' = w)"
    by (auto dest: keeps_nothing_winv keeps_nothingD)
qed

lemma wok_get: "wok txt w (rel_get r k) (\<lambda>v w'. w' = w \<and> v = w r k)"
  by (rule wokI) (auto simp: rel_get_eq world_def split: sum.splits)

lemma wok_has: "wok txt w (rel_has r k) (\<lambda>b w'. w' = w \<and> b = (w r k \<noteq> None))"
  by (rule wokI) (auto simp: rel_has_eq world_def split: sum.splits)

lemma wok_with: "wok txt w (rel_with r k f) (\<lambda>v w'. w' = w \<and> v = map_option f (w r k))"
  by (rule wokI) (auto simp: rel_with_eq world_def split: sum.splits)

lemma wok_read: "wok txt w (rel_read sel r k) (\<lambda>v w'. w' = w \<and> v = Option.bind (w r k) sel)"
  unfolding rel_read_def by (intro wok_bind [OF wok_get] wok_ret) simp

lemma wok_get_properties: "wok txt w (get_properties ob) (\<lambda>ds w'. w' = w \<and> ds = props_in w ob)"
  unfolding get_properties_def by (intro wok_bind [OF wok_read] wok_ret) (simp add: props_in_def)

lemma wok_get_verbs: "wok txt w (get_verbs ob) (\<lambda>ds w'. w' = w)"
  unfolding get_verbs_def by (intro wok_bind [OF wok_read] wok_ret) simp

lemma wok_get_parent: "wok txt w (get_object_parent ob) (\<lambda>p w'. w' = w \<and> p = parent_in w ob)"
  unfolding get_object_parent_def by (intro wok_bind [OF wok_read] wok_ret) (simp add: parent_in_def)

lemma wok_get_owner: "wok txt w (get_object_owner ob) (\<lambda>p w'. w' = w \<and> p = owner_in w ob)"
  unfolding get_object_owner_def by (intro wok_bind [OF wok_read] wok_ret) (simp add: owner_in_def)

lemma wok_children:
  "wok txt w (get_object_children ob) (\<lambda>cs w'. w' = w \<and> (\<forall>c. climbs (parent_in w) c ob \<longrightarrow> c \<in> set cs))"
proof (rule wokI)
  fix t t' r
  assume inv: "winv txt t" "world t = w" and m: "get_object_children ob t = Some (t', r)"
  then have ok: "wt_ok t" by (simp add: winv_def)
  note spec = get_object_children_spec [OF ok m]
  from keeps_nothing_winv [OF inv(1) spec(1)] keeps_nothingD [OF spec(1)] spec(2) inv(2)
  show "winv txt t' \<and> (\<forall>a. r = Inr a \<longrightarrow> world t' = w \<and> (\<forall>c. climbs (parent_in w) c ob \<longrightarrow> c \<in> set a))"
    by blast
qed

lemma wok_descendants:
  "wok txt w (descendants ob b) (\<lambda>ds w'. w' = w
     \<and> children_closed (parent_in w) (insert ob (set ds)) \<and> (b \<longrightarrow> ob \<in> set ds))"
proof (rule wokI)
  fix t t' r
  assume inv: "winv txt t" "world t = w" and m: "descendants ob b t = Some (t', r)"
  then have ok: "wt_ok t" by (simp add: winv_def)
  note spec = descendants_spec [OF m ok]
  from keeps_nothing_winv [OF inv(1) spec(1)] keeps_nothingD [OF spec(1)] spec(2) inv(2)
  show "winv txt t' \<and> (\<forall>a. r = Inr a \<longrightarrow> world t' = w
     \<and> children_closed (parent_in w) (insert ob (set a)) \<and> (b \<longrightarrow> ob \<in> set a))"
    by blast
qed

lemma wok_branch:
  "wok txt w (branch_objects ob) (\<lambda>ds w'. w' = w \<and> children_closed (parent_in w) (set ds) \<and> ob \<in> set ds)"
  unfolding branch_objects_def by (rule wok_weaken [OF wok_descendants]) (auto simp: insert_absorb)

section \<open>Ancestors\<close>

text \<open>The relation of parents agrees with the hierarchy wherever it can be read.\<close>

definition reads_up :: "'x db_rt \<Rightarrow> (obj \<Rightarrow> obj) \<Rightarrow> bool" where
  "reads_up rt up \<longleftrightarrow> (\<forall>x v. rt_view rt (KObj x) = Inr v \<longrightarrow>
     up x = (case Option.bind v value_obj of None \<Rightarrow> NOTHING | Some p \<Rightarrow> p))"

lemma reads_up_world: "reads_up (wt_rel t ObjectParent) (parent_in (world t))"
  by (auto simp: reads_up_def parent_in_def world_view)

lemma parent_of_up: "reads_up rt up \<Longrightarrow> parent_of rt x = Inr p \<Longrightarrow> p = up x"
  by (auto simp: reads_up_def parent_of_def rt_get_eq_view split: sum.splits)

lemma ancestors_loop_line:
  assumes "ancestors_loop rt cur acc = Some res" and "reads_up rt up"
  shows "\<exists>rest. line up cur = Some (cur # rest) \<and> res = acc @ rest"
proof -
  have "reads_up rt up \<longrightarrow> (\<exists>rest. line up cur = Some (cur # rest) \<and> res = acc @ rest)"
  proof (rule ancestors_loop.raw_induct [OF _ assms(1)])
    fix loop and rt :: "'a db_rt" and cur acc res
    assume IH: "\<And>rt cur acc res. loop rt cur acc = Some res \<Longrightarrow>
        reads_up rt up \<longrightarrow> (\<exists>rest. line up cur = Some (cur # rest) \<and> res = acc @ rest)"
      and body: "(case rt_get rt (KObj cur) of Inl e \<Rightarrow> None
        | Inr v \<Rightarrow> (case Option.bind v value_obj of None \<Rightarrow> Some acc
            | Some parent \<Rightarrow> if is_nothing parent then Some acc else loop rt parent (acc @ [parent]))) = Some res"
    show "reads_up rt up \<longrightarrow> (\<exists>rest. line up cur = Some (cur # rest) \<and> res = acc @ rest)"
    proof
      assume up: "reads_up rt up"
      from body obtain v where v: "rt_view rt (KObj cur) = Inr v"
        by (auto simp: rt_get_eq_view split: sum.splits)
      with up have ucur: "up cur = (case Option.bind v value_obj of None \<Rightarrow> NOTHING | Some p \<Rightarrow> p)"
        by (simp add: reads_up_def)
      show "\<exists>rest. line up cur = Some (cur # rest) \<and> res = acc @ rest"
      proof (cases "is_nothing (up cur)")
        case True
        with body v ucur show ?thesis by (auto simp: rt_get_eq_view split: option.splits if_splits)
      next
        case False
        with body v ucur have "loop rt (up cur) (acc @ [up cur]) = Some res"
          by (auto simp: rt_get_eq_view split: option.splits)
        with IH up obtain rest where "line up (up cur) = Some (up cur # rest)" and "res = acc @ up cur # rest"
          by force
        with False show ?thesis by simp
      qed
    qed
  qed
  with assms(2) show ?thesis by simp
qed

lemma winv_fill_line:
  assumes "winv txt t" and "line (parent_in (world t)) ob = Some (ob # found)"
  shows "winv txt (on_ancestry (\<lambda>c. ac_fill c ob found) t)"
  using assms by (auto simp: winv_def lines_sound_def ac.lookup_fill)

lemma wok_ancestors:
  "wok txt w (ancestors ob b) (\<lambda>as w'. w' = w \<and>
     (\<exists>rest. line (parent_in w) ob = Some (ob # rest) \<and> as = (if b then ob # rest else rest)))"
proof (rule wokI)
  fix t t' r
  assume inv: "winv txt t" "world t = w" and m: "ancestors ob b t = Some (t', r)"
  show "winv txt t' \<and> (\<forall>a. r = Inr a \<longrightarrow> world t' = w \<and>
     (\<exists>rest. line (parent_in w) ob = Some (ob # rest) \<and> a = (if b then ob # rest else rest)))"
  proof (cases "ac_lookup (ancestry_cache (wt_caches t)) ob")
    case (Some hit)
    with inv have "line (parent_in w) ob = Some (ob # hit)"
      by (auto simp: winv_def lines_sound_def)
    with m Some inv show ?thesis by (auto simp: ancestors_def)
  next
    case None
    with m obtain found where l: "ancestors_loop (wt_rel t ObjectParent) ob [] = Some found"
      and t': "t' = on_ancestry (\<lambda>c. ac_fill c ob found) t" and r: "r = Inr (if b then ob # found else found)"
      by (auto simp: ancestors_def split: option.splits)
    from ancestors_loop_line [OF l reads_up_world] inv(2) have "line (parent_in w) ob = Some (ob # found)"
      by auto
    with winv_fill_line [OF inv(1), of ob found] inv(2) show ?thesis by (auto simp: t' r)
  qed
qed

lemma isa_loop_line:
  assumes "isa_loop rt pa cur seen b = Some (Inr (found, b'))" and "reads_up rt up"
  shows "\<exists>rest. line up cur = Some (cur # rest) \<and> found = seen @ rest \<and> b' = (b \<or> pa \<in> set rest)"
proof -
  define P where "P rt cur seen b y \<longleftrightarrow> (\<forall>found b'. y = Inr (found, b') \<longrightarrow> reads_up rt up \<longrightarrow>
      (\<exists>rest. line up cur = Some (cur # rest) \<and> found = seen @ rest \<and> b' = (b \<or> pa \<in> set rest)))"
    for rt :: "'a db_rt" and cur seen b and y :: "world_state_error + obj list \<times> bool"
  have "P rt cur seen b (Inr (found, b'))"
  proof (rule isa_loop.raw_induct [where P = "\<lambda>rt p cur seen b y. p = pa \<longrightarrow> P rt cur seen b y", OF _ assms(1), simplified])
    fix loop rt p cur seen b and y :: "world_state_error + obj list \<times> bool"
    assume IH: "\<And>rt p cur seen b y. loop rt p cur seen b = Some y \<Longrightarrow> p = pa \<longrightarrow> P rt cur seen b y"
      and body: "(case parent_of rt cur of Inl e \<Rightarrow> Some (Inl e)
        | Inr parent \<Rightarrow> if is_nothing parent then Some (Inr (seen, b))
            else loop rt p parent (seen @ [parent]) (b \<or> parent = p)) = Some y"
    show "p = pa \<longrightarrow> P rt cur seen b y"
      unfolding P_def
    proof (intro impI allI)
      fix found b'
      assume p: "p = pa" and y: "y = Inr (found, b')" and up: "reads_up rt up"
      from body y obtain parent where parent: "parent_of rt cur = Inr parent"
        by (auto split: sum.splits)
      with up have ucur: "parent = up cur" by (rule parent_of_up)
      show "\<exists>rest. line up cur = Some (cur # rest) \<and> found = seen @ rest \<and> b' = (b \<or> pa \<in> set rest)"
      proof (cases "is_nothing parent")
        case True
        with body parent y ucur show ?thesis by simp
      next
        case False
        with body parent have "loop rt p parent (seen @ [parent]) (b \<or> parent = p) = Some y" by simp
        from IH [OF this] p y up obtain rest where "line up parent = Some (parent # rest)"
          and "found = seen @ parent # rest" and "b' = (b \<or> parent = pa \<or> pa \<in> set rest)"
          by (auto simp: P_def)
        with False ucur show ?thesis by auto
      qed
    qed
  qed
  with assms(2) show ?thesis by (simp add: P_def)
qed

lemma wok_isa:
  "wok txt w (isa ob pa) (\<lambda>b w'. w' = w \<and> (w ObjectFlags (KObj ob) = None \<longrightarrow> \<not> b)
     \<and> (w ObjectFlags (KObj ob) \<noteq> None \<longrightarrow> ob \<noteq> pa \<longrightarrow>
          (\<exists>rest. line (parent_in w) ob = Some (ob # rest) \<and> b = (pa \<in> set rest))))"
proof -
  have walk: "wok txt w (\<lambda>t. case ac_contains (ancestry_cache (wt_caches t)) ob pa of
        Some is_ancestor \<Rightarrow> Some (t, Inr is_ancestor)
      | None \<Rightarrow> (case isa_loop (wt_rel t ObjectParent) pa ob [] False of
          None \<Rightarrow> None
        | Some (Inl e) \<Rightarrow> Some (t, Inl e)
        | Some (Inr (found, is_ancestor)) \<Rightarrow> Some (on_ancestry (\<lambda>c. ac_fill c ob found) t, Inr is_ancestor)))
      (\<lambda>b w'. w' = w \<and> (\<exists>rest. line (parent_in w) ob = Some (ob # rest) \<and> b = (pa \<in> set rest)))"
    (is "wok txt w ?m ?Q")
  proof (rule wokI)
    fix t t' r
    assume inv: "winv txt t" "world t = w" and m: "?m t = Some (t', r)"
    show "winv txt t' \<and> (\<forall>a. r = Inr a \<longrightarrow> ?Q a (world t'))"
    proof (cases "ac_lookup (ancestry_cache (wt_caches t)) ob")
      case (Some hit)
      with inv have "line (parent_in w) ob = Some (ob # hit)"
        by (auto simp: winv_def lines_sound_def)
      with m Some inv show ?thesis by (auto simp: ac_contains_def ac_lookup_def)
    next
      case None
      with m have "(case isa_loop (wt_rel t ObjectParent) pa ob [] False of
          None \<Rightarrow> None
        | Some (Inl e) \<Rightarrow> Some (t, Inl e)
        | Some (Inr (found, is_ancestor)) \<Rightarrow> Some (on_ancestry (\<lambda>c. ac_fill c ob found) t, Inr is_ancestor))
          = Some (t', r)"
        by (simp add: ac_contains_def ac_lookup_def)
      then consider e where "t' = t" "r = Inl e"
        | found b where "isa_loop (wt_rel t ObjectParent) pa ob [] False = Some (Inr (found, b))"
          "t' = on_ancestry (\<lambda>c. ac_fill c ob found) t" "r = Inr b"
        by (auto split: option.splits sum.splits prod.splits)
      then show ?thesis
      proof cases
        case 1
        with inv show ?thesis by simp
      next
        case 2
        from isa_loop_line [OF 2(1) reads_up_world] inv(2)
        have "line (parent_in w) ob = Some (ob # found)" and "b = (pa \<in> set found)" by auto
        with winv_fill_line [OF inv(1), of ob found] inv(2) 2 show ?thesis by auto
      qed
    qed
  qed
  show ?thesis
    unfolding isa_def object_valid_def
  proof (rule wok_bind [OF wok_has])
    fix valid w'
    assume v: "w' = w \<and> valid = (w ObjectFlags (KObj ob) \<noteq> None)"
    show "wok txt w' (if \<not> valid then wret False else if ob = pa then wret True
        else (\<lambda>t. case ac_contains (ancestry_cache (wt_caches t)) ob pa of
            Some is_ancestor \<Rightarrow> Some (t, Inr is_ancestor)
          | None \<Rightarrow> (case isa_loop (wt_rel t ObjectParent) pa ob [] False of
              None \<Rightarrow> None
            | Some (Inl e) \<Rightarrow> Some (t, Inl e)
            | Some (Inr (found, is_ancestor)) \<Rightarrow> Some (on_ancestry (\<lambda>c. ac_fill c ob found) t, Inr is_ancestor))))
        (\<lambda>b w'. w' = w \<and> (w ObjectFlags (KObj ob) = None \<longrightarrow> \<not> b)
          \<and> (w ObjectFlags (KObj ob) \<noteq> None \<longrightarrow> ob \<noteq> pa \<longrightarrow>
               (\<exists>rest. line (parent_in w) ob = Some (ob # rest) \<and> b = (pa \<in> set rest))))"
      using v wok_weaken [OF walk] by (auto intro: wok_ret)
  qed
qed

section \<open>Verbs\<close>

lemma verb_at_fold:
  assumes "plain txt n" and "compare_id n' = compare_id n"
  shows "verb_at txt w n' a f = verb_at txt w n a f"
  by (simp add: verb_at_def fun_eq_iff plain_spelling(2) [OF assms])

lemma winv_fill_verb:
  assumes "winv txt t" and "finds (parent_in (world t)) (verb_at txt (world t) n a f) ob r"
  shows "winv txt (on_verbs (\<lambda>c. vc_answer c (ob, compare_id n, a, f) r) t)"
proof -
  have "finds (parent_in (world t)) (verb_at txt (world t) n' a f) ob r"
    if "compare_id n' = compare_id n" and "plain txt n'" for n'
    unfolding verb_at_fold [OF that(2) that(1) [symmetric], symmetric] by (rule assms(2))
  then show ?thesis
    using assms(1) by (auto simp: winv_def verbs_sound_def vc_lookup_query vc.lookup_fill vc_other_ops split: if_splits)
qed

lemma winv_fill_first_verbs:
  assumes "winv txt t" and "finds (parent_in (world t)) (has_verbs (world t)) ob r"
  shows "winv txt (on_verbs (\<lambda>c. vc_fill_first_parent c ob r) t)"
  using assms by (auto simp: winv_def verbs_sound_def vc_lookup_query vfp.lookup_fill vc_other_ops split: if_splits)

lemma has_verbs_None: "has_verbs w x = None \<longleftrightarrow> verbs_in w x = None"
  by (simp add: has_verbs_def)

lemma verb_at_None: "verbs_in w x = None \<Longrightarrow> verb_at txt w n a f x = None"
  by (simp add: verb_at_def)

text \<open>The walk: up to \<open>s\<close> no verb was found, and while no verbs were seen there were none.\<close>

definition walked ::
  "(symbol_id \<Rightarrow> chars) \<Rightarrow> 'x world \<Rightarrow> symbol_id \<Rightarrow> verb_args_spec option \<Rightarrow> bit_enum option \<Rightarrow> obj \<Rightarrow> obj \<Rightarrow> bool \<Rightarrow> bool" where
  "walked txt w n a f ob s seen \<longleftrightarrow> (\<exists>pre. path (parent_in w) ob pre s
     \<and> (\<forall>x \<in> set pre. verb_at txt w n a f x = None) \<and> (\<not> seen \<longrightarrow> (\<forall>x \<in> set pre. verbs_in w x = None)))"

lemma walked_step:
  assumes "walked txt w n a f ob s seen" and "verb_at txt w n a f s = None" and "\<not> is_nothing (parent_in w s)"
  shows "walked txt w n a f ob (parent_in w s) (seen \<or> verbs_in w s \<noteq> None)"
proof -
  from assms(1) obtain pre where p: "path (parent_in w) ob pre s" "\<forall>x \<in> set pre. verb_at txt w n a f x = None"
    "\<not> seen \<longrightarrow> (\<forall>x \<in> set pre. verbs_in w x = None)"
    by (auto simp: walked_def)
  moreover have "path (parent_in w) ob (pre @ [s]) (parent_in w s)"
    using p(1) assms(3) by (simp add: path_snoc climbs_def)
  ultimately show ?thesis
    using assms(2) unfolding walked_def by (intro exI [of _ "pre @ [s]"]) auto
qed

lemma walked_end:
  assumes "walked txt w n a f ob s seen" and "verb_at txt w n a f s = None" and "is_nothing (parent_in w s)"
  shows "finds (parent_in w) (verb_at txt w n a f) ob None"
proof -
  from assms(1) obtain pre where "path (parent_in w) ob pre s" "\<forall>x \<in> set pre. verb_at txt w n a f x = None"
    by (auto simp: walked_def)
  then show ?thesis
    using assms(2,3) path_line [of "parent_in w" ob pre s] by (auto simp: finds_def)
qed

lemma walked_found:
  assumes "walked txt w n a f ob s seen" and "verb_at txt w n a f s = Some v"
  shows "finds (parent_in w) (verb_at txt w n a f) ob (Some v)"
  using assms by (auto simp: walked_def intro: finds_SomeI)

lemma walked_first:
  assumes "walked txt w n a f ob s False" and "verbs_in w s \<noteq> None"
  shows "finds (parent_in w) (has_verbs w) ob (Some s)"
  using assms by (auto simp: walked_def has_verbs_def intro!: finds_SomeI)

lemma resolve_verb_loop_finds:
  assumes "winv txt t" and "walked txt (world t) n a f ob s seen"
    and "resolve_verb_loop txt ob n a f s seen t = Some (t', r)"
  shows "winv txt t' \<and> world t' = world t \<and> (\<forall>res. r = Inr res \<longrightarrow>
     finds (parent_in (world t)) (verb_at txt (world t) n a f) ob res)"
proof -
  define P where "P s seen t tr \<longleftrightarrow> (winv txt t \<longrightarrow> walked txt (world t) n a f ob s seen \<longrightarrow>
      winv txt (fst tr) \<and> world (fst tr) = world t \<and> (\<forall>res. snd tr = Inr res \<longrightarrow>
        finds (parent_in (world t)) (verb_at txt (world t) n a f) ob res))"
    for s seen t and tr :: "'a ws_transaction \<times> (world_state_error + resolved_verb option)"
  have "P s seen t (t', r)"
  proof (rule resolve_verb_loop.raw_induct [where P = "\<lambda>txt' ob' n' a' f' s seen t tr.
        txt' = txt \<longrightarrow> ob' = ob \<longrightarrow> n' = n \<longrightarrow> a' = a \<longrightarrow> f' = f \<longrightarrow> P s seen t tr", OF _ assms(3), simplified])
    fix loop txt' ob' n' a' f' s seen t tr
    assume IH: "\<And>txt' ob' n' a' f' s seen t tr. loop txt' ob' n' a' f' s seen t = Some tr \<Longrightarrow>
        txt' = txt \<longrightarrow> ob' = ob \<longrightarrow> n' = n \<longrightarrow> a' = a \<longrightarrow> f' = f \<longrightarrow> P s seen t tr"
      and body: "(case rt_with_domain_value (wt_rel t ObjectVerbdefs) (KObj s) value_verbdefs of
        Inl e \<Rightarrow> Some (t, Inl (database_error e))
      | Inr r \<Rightarrow>
          let verbdefs = Option.bind r (\<lambda>ds. ds);
              t1 = (if verbdefs \<noteq> None \<and> \<not> seen then on_verbs (\<lambda>c. vc_fill_first_parent c ob' (Some s)) t else t)
          in case Option.bind verbdefs (find (\<lambda>verb. verbdef_matches_name txt' verb n'
                                               \<and> verbdef_matches_spec verb a' f')) of
               None \<Rightarrow>
                 (case parent_of (wt_rel t1 ObjectParent) s of
                    Inl e \<Rightarrow> Some (t1, Inl e)
                  | Inr parent \<Rightarrow>
                      if is_nothing parent then Some (t1, Inr None)
                      else loop txt' ob' n' a' f' parent (seen \<or> verbdefs \<noteq> None) t1)
             | Some verb \<Rightarrow>
                 Some (on_verbs (\<lambda>c. vc_fill_hit_spec c ob' n' a' f' (as_resolved verb)) t1,
                       Inr (Some (as_resolved verb)))) = Some tr"
    show "txt' = txt \<longrightarrow> ob' = ob \<longrightarrow> n' = n \<longrightarrow> a' = a \<longrightarrow> f' = f \<longrightarrow> P s seen t tr"
      unfolding P_def
    proof (intro impI)
      assume eq: "txt' = txt" "ob' = ob" "n' = n" "a' = a" "f' = f" and inv: "winv txt t"
        and wk: "walked txt (world t) n a f ob s seen"
      define t1 where "t1 = (if verbs_in (world t) s \<noteq> None \<and> \<not> seen
          then on_verbs (\<lambda>c. vc_fill_first_parent c ob (Some s)) t else t)"
      have w1: "world t1 = world t" and rel1: "wt_rel t1 = wt_rel t" by (simp_all add: t1_def)
      have inv1: "winv txt t1"
        using inv walked_first [of "txt" "world t" n a f ob s] wk winv_fill_first_verbs [of "txt" t ob "Some s"]
        by (cases seen) (auto simp: t1_def)
      show "winv txt (fst tr) \<and> world (fst tr) = world t \<and> (\<forall>res. snd tr = Inr res \<longrightarrow>
          finds (parent_in (world t)) (verb_at txt (world t) n a f) ob res)"
      proof (cases "rt_view (wt_rel t ObjectVerbdefs) (KObj s)")
        case (Inl e)
        with body inv show ?thesis by (auto simp: rt_with_domain_value_eq_view)
      next
        case (Inr v)
        then have vs: "Option.bind (map_option value_verbdefs v) (\<lambda>ds. ds) = verbs_in (world t) s"
          by (cases v) (simp_all add: verbs_in_def world_view)
        from body have body': "(case Option.bind (verbs_in (world t) s)
              (find (\<lambda>verb. verbdef_matches_name txt verb n \<and> verbdef_matches_spec verb a f)) of
               None \<Rightarrow>
                 (case parent_of (wt_rel t ObjectParent) s of
                    Inl e \<Rightarrow> Some (t1, Inl e)
                  | Inr parent \<Rightarrow>
                      if is_nothing parent then Some (t1, Inr None)
                      else loop txt ob n a f parent (seen \<or> verbs_in (world t) s \<noteq> None) t1)
             | Some verb \<Rightarrow>
                 Some (on_verbs (\<lambda>c. vc_fill_hit_spec c ob n a f (as_resolved verb)) t1,
                       Inr (Some (as_resolved verb)))) = Some tr"
          by (simp only: eq rt_with_domain_value_eq_view Inr rbind_simps sum.case vs Let_def t1_def [symmetric] rel1)
        show ?thesis
        proof (cases "verb_at txt (world t) n a f s")
          case (Some rv)
          then obtain verb where "Option.bind (verbs_in (world t) s)
              (find (\<lambda>verb. verbdef_matches_name txt verb n \<and> verbdef_matches_spec verb a f)) = Some verb"
            and rv: "rv = as_resolved verb"
            by (auto simp: verb_at_def)
          with body' have tr: "tr = (on_verbs (\<lambda>c. vc_fill_hit_spec c ob n a f rv) t1, Inr (Some rv))" by simp
          note f = walked_found [OF wk Some]
          with winv_fill_verb [OF inv1, of n a f ob "Some rv"] show ?thesis
            by (simp add: tr w1 vc_fill_as_answer)
        next
          case None
          then have "Option.bind (verbs_in (world t) s)
              (find (\<lambda>verb. verbdef_matches_name txt verb n \<and> verbdef_matches_spec verb a f)) = None"
            by (simp add: verb_at_def)
          with body' have b: "(case parent_of (wt_rel t ObjectParent) s of
                    Inl e \<Rightarrow> Some (t1, Inl e)
                  | Inr parent \<Rightarrow>
                      if is_nothing parent then Some (t1, Inr None)
                      else loop txt ob n a f parent (seen \<or> verbs_in (world t) s \<noteq> None) t1) = Some tr"
            by simp
          show ?thesis
          proof (cases "parent_of (wt_rel t ObjectParent) s")
            case (Inl e)
            with b inv1 w1 show ?thesis by auto
          next
            case (Inr parent)
            with reads_up_world [of t] have p: "parent = parent_in (world t) s" by (rule parent_of_up)
            show ?thesis
            proof (cases "is_nothing parent")
              case True
              with b Inr have "tr = (t1, Inr None)" by simp
              with inv1 w1 walked_end [OF wk None] True p show ?thesis by auto
            next
              case False
              with b Inr have "loop txt ob n a f parent (seen \<or> verbs_in (world t) s \<noteq> None) t1 = Some tr" by simp
              with IH have "P parent (seen \<or> verbs_in (world t) s \<noteq> None) t1 tr" by blast
              with inv1 walked_step [OF wk None] False show ?thesis by (simp add: P_def p w1)
            qed
          qed
        qed
      qed
    qed
  qed
  with assms(1,2) show ?thesis by (simp add: P_def)
qed

lemma resolve_verb_loop_total:
  assumes "readable t" and "line (parent_in (world t)) s = Some xs"
  shows "\<exists>t' res. resolve_verb_loop txt ob n a f s seen t = Some (t', Inr res)"
  using assms
proof (induction xs arbitrary: s seen t)
  case Nil
  then show ?case using line_head by fastforce
next
  case (Cons y ys)
  have view: "rt_view (wt_rel t r) k = Inr (world t r k)" for r k
    using Cons.prems(1) by (simp add: readable_def)
  have parent: "parent_of (wt_rel t ObjectParent) s = Inr (parent_in (world t) s)"
    by (simp add: parent_of_def rt_get_eq_view view parent_in_def)
  define vs where "vs = Option.bind (map_option value_verbdefs (world t ObjectVerbdefs (KObj s))) (\<lambda>ds. ds)"
  define t1 where "t1 = (if vs \<noteq> None \<and> \<not> seen then on_verbs (\<lambda>c. vc_fill_first_parent c ob (Some s)) t else t)"
  have t1: "readable t1" "world t1 = world t" "wt_rel t1 = wt_rel t"
    using Cons.prems(1) by (simp_all add: t1_def readable_def)
  have step: "resolve_verb_loop txt ob n a f s seen t =
      (case Option.bind vs (find (\<lambda>verb. verbdef_matches_name txt verb n \<and> verbdef_matches_spec verb a f)) of
         Some verb \<Rightarrow> Some (on_verbs (\<lambda>c. vc_fill_hit_spec c ob n a f (as_resolved verb)) t1, Inr (Some (as_resolved verb)))
       | None \<Rightarrow>
           if is_nothing (parent_in (world t) s) then Some (t1, Inr None)
           else resolve_verb_loop txt ob n a f (parent_in (world t) s) (seen \<or> vs \<noteq> None) t1)"
    by (subst resolve_verb_loop.simps)
      (simp only: rt_with_domain_value_eq_view view rbind_simps sum.case Let_def vs_def [symmetric]
        t1_def [symmetric] t1(3) parent)
  show ?case
  proof (cases "is_nothing (parent_in (world t) s)")
    case True
    then show ?thesis by (simp add: step split: option.splits)
  next
    case False
    with Cons.prems(2) have "line (parent_in (world t1)) (parent_in (world t) s) = Some ys"
      by (auto simp: t1(2))
    from Cons.IH [OF t1(1) this] False show ?thesis by (simp add: step split: option.splits)
  qed
qed

lemma resolve_verb_walk_exact:
  assumes inv: "winv txt t" and rd: "readable t"
    and l: "line (parent_in (world t)) ob = Some xs"
  shows "\<exists>t'. resolve_verb_walk txt ob n a f t =
     Some (t', case first_of (verb_at txt (world t) n a f) xs of Some v \<Rightarrow> Inr v | None \<Rightarrow> Inl (VerbNotFound ob))
     \<and> winv txt t' \<and> world t' = world t"
proof -
  let ?up = "parent_in (world t)" and ?look = "verb_at txt (world t) n a f"
  define fp where "fp = vc_lookup_first_parent (verb_resolution_cache (wt_caches t)) ob"
  have start: "walked txt (world t) n a f ob ob False"
    unfolding walked_def by (intro exI [of _ "[]"]) simp
  have from_s: "\<exists>t'. (wbind (resolve_verb_loop txt ob n a f s seen) (\<lambda>r.
           case r of
             Some resolved \<Rightarrow> wret resolved
           | None \<Rightarrow>
               wbind (wmodify (on_verbs (\<lambda>c. vc_fill_miss_spec c ob n a f))) (\<lambda>_. wfail (VerbNotFound ob)))) t =
       Some (t', case first_of ?look xs of Some v \<Rightarrow> Inr v | None \<Rightarrow> Inl (VerbNotFound ob))
       \<and> winv txt t' \<and> world t' = world t"
    if wk: "walked txt (world t) n a f ob s seen" for s seen
  proof -
    obtain pre where "path ?up ob pre s" using wk by (auto simp: walked_def)
    with l obtain ys where "line ?up s = Some ys" by (auto simp: path_line)
    from resolve_verb_loop_total [OF rd this] obtain t1 res
      where loop: "resolve_verb_loop txt ob n a f s seen t = Some (t1, Inr res)" by blast
    from resolve_verb_loop_finds [OF inv wk loop]
    have i1: "winv txt t1" "world t1 = world t" and fd: "finds ?up ?look ob res" by auto
    have res: "res = first_of ?look xs" by (rule finds_line [OF fd l])
    show ?thesis
    proof (cases res)
      case (Some v)
      with loop i1 res [symmetric] show ?thesis by (simp add: wbind_def wret_def)
    next
      case None
      have "winv txt (on_verbs (\<lambda>c. vc_fill_miss_spec c ob n a f) t1)"
        using winv_fill_verb [OF i1(1), of n a f ob None] fd None i1(2) by (simp add: vc_fill_as_answer)
      with loop i1 res [symmetric] None show ?thesis by (simp add: wbind_def wmodify_def wfail_def)
    qed
  qed
  have first: "finds ?up (has_verbs (world t)) ob r" if "fp = Some r" for r
    using inv that by (simp add: fp_def winv_def verbs_sound_def)
  show ?thesis
  proof (cases fp)
    case None
    with from_s [OF start] show ?thesis
      by (simp add: resolve_verb_walk_def wbind_def [of "wstate _"] wstate_def fp_def [symmetric])
  next
    case (Some r)
    show ?thesis
    proof (cases r)
      case r: None
      with first [OF Some] have "\<forall>x \<in> set xs. verbs_in (world t) x = None"
        using l by (auto simp: finds_def has_verbs_None)
      then have "first_of ?look xs = None" by (simp add: first_of_None verb_at_None)
      with Some r inv show ?thesis
        by (simp add: resolve_verb_walk_def wbind_def [of "wstate _"] wstate_def fp_def [symmetric] wfail_def)
    next
      case r: (Some s)
      with first [OF Some] obtain pre where "path ?up ob pre s" "\<forall>x \<in> set pre. verbs_in (world t) x = None"
        by (auto simp: finds_def has_verbs_def split: if_splits)
      then have "walked txt (world t) n a f ob s True"
        by (auto simp: walked_def verb_at_None)
      from from_s [OF this] Some r show ?thesis
        by (simp add: resolve_verb_walk_def wbind_def [of "wstate _"] wstate_def fp_def [symmetric])
    qed
  qed
qed

lemma resolve_verb_handle_exact:
  assumes "plain txt n" and inv: "winv txt t" and rd: "readable t"
    and l: "line (parent_in (world t)) ob = Some xs"
  shows "\<exists>t'. resolve_verb_handle txt ob n a f t =
     Some (t', case first_of (verb_at txt (world t) n a f) xs of Some v \<Rightarrow> Inr v | None \<Rightarrow> Inl (VerbNotFound ob))
     \<and> winv txt t' \<and> world t' = world t"
proof -
  define hit where "hit = vc_lookup_spec (verb_resolution_cache (wt_caches t)) ob n a f"
  have unf: "resolve_verb_handle txt ob n a f t =
      (case hit of
         Some None \<Rightarrow> Some (t, Inl (VerbNotFound ob))
       | Some (Some resolved) \<Rightarrow>
           if resolved_matches_spec resolved a f then Some (t, Inr resolved) else resolve_verb_walk txt ob n a f t
       | None \<Rightarrow> resolve_verb_walk txt ob n a f t)"
    by (simp add: resolve_verb_handle_def wbind_def [of "wstate _"] wstate_def hit_def [symmetric] wret_def wfail_def
        split: option.splits)
  have "r = first_of (verb_at txt (world t) n a f) xs" if "hit = Some r" for r
    using that inv l assms(1) by (intro finds_line) (auto simp: hit_def winv_def verbs_sound_def)
  with resolve_verb_walk_exact [OF assms(2-4), of n a f] inv show ?thesis
    by (cases hit) (auto simp: unf split: option.splits)
qed

lemma wok_resolve_verb_loop:
  assumes "walked txt w n a f ob s seen"
  shows "wok txt w (resolve_verb_loop txt ob n a f s seen)
    (\<lambda>res w'. w' = w \<and> finds (parent_in w) (verb_at txt w n a f) ob res)"
proof (rule wokI)
  fix t t' r
  assume inv: "winv txt t" "world t = w" and m: "resolve_verb_loop txt ob n a f s seen t = Some (t', r)"
  then show "winv txt t' \<and> (\<forall>res. r = Inr res \<longrightarrow> world t' = w \<and> finds (parent_in w) (verb_at txt w n a f) ob res)"
    using resolve_verb_loop_finds [OF inv(1) _ m] assms by auto
qed

lemma wok_fill_verb:
  assumes "finds (parent_in w) (verb_at txt w n a f) ob r"
  shows "wok txt w (wmodify (on_verbs (\<lambda>c. vc_answer c (ob, compare_id n, a, f) r))) (\<lambda>_ w'. w' = w)"
  by (rule wok_modify) (use winv_fill_verb assms in auto)

lemma wok_resolve_verb_walk: "wok txt w (resolve_verb_walk txt ob n a f) (\<lambda>_ w'. w' = w)"
proof -
  have start: "walked txt w n a f ob ob False"
    unfolding walked_def by (intro exI [of _ "[]"]) simp
  have rest: "wok txt w (wbind (resolve_verb_loop txt ob n a f s seen) (\<lambda>r.
           case r of
             Some resolved \<Rightarrow> wret resolved
           | None \<Rightarrow>
               wbind (wmodify (on_verbs (\<lambda>c. vc_fill_miss_spec c ob n a f))) (\<lambda>_. wfail (VerbNotFound ob))))
      (\<lambda>_ w'. w' = w)"
    if "walked txt w n a f ob s seen" for s seen
    by (rule wok_bind [OF wok_resolve_verb_loop [OF that]])
      (auto split: option.splits simp: vc_fill_as_answer intro!: wok_fail wok_ret wok_bind [OF wok_fill_verb])
  have first: "walked txt w n a f ob s True" if "finds (parent_in w) (has_verbs w) ob (Some s)" for s
  proof -
    from that obtain pre where "path (parent_in w) ob pre s" "\<forall>x \<in> set pre. verbs_in w x = None"
      by (auto simp: finds_def has_verbs_def split: if_splits)
    then show ?thesis by (auto simp: walked_def verb_at_None)
  qed
  show ?thesis
    unfolding resolve_verb_walk_def
    by (rule wok_bind [OF wok_state [where P = "\<lambda>fp. \<forall>r. fp = Some r \<longrightarrow> finds (parent_in w) (has_verbs w) ob r"]])
      (auto simp: winv_def verbs_sound_def split: option.splits intro!: wok_fail rest [OF start] rest [OF first])
qed

lemma wok_resolve_verb_handle:
  "wok txt w (resolve_verb_handle txt ob n a f) (\<lambda>_ w'. w' = w)"
  unfolding resolve_verb_handle_def
  by (rule wok_bind [OF wok_state [where P = "\<lambda>_. True"]])
    (auto split: option.splits intro!: wok_fail wok_ret wok_resolve_verb_walk)

lemma wok_with_verbdefs: "wok txt w (with_verbdefs ob g) (\<lambda>r w'. w' = w \<and> r = Option.bind (verbs_in w ob) g)"
  unfolding with_verbdefs_def
  by (intro wok_bind [OF wok_with] wok_ret) (auto simp: verbs_in_def split: Option.bind_splits)

lemma wok_lookup_resolved_verbdef: "wok txt w (lookup_resolved_verbdef ob rv) (\<lambda>_ w'. w' = w)"
  unfolding lookup_resolved_verbdef_def
  by (rule wok_bind [OF wok_with_verbdefs]) (auto split: option.splits intro: wok_fail wok_ret)

lemma wok_direct_verb:
  "wok txt w (direct_verb txt ob name) (\<lambda>_ w'. w' = w)"
proof -
  have "finds (parent_in w) (verb_at txt w name None None) ob (Some (as_resolved v))"
    if "Option.bind (verbs_in w ob) (\<lambda>ds. defs_find_first_named (verbdef_matches_name txt) ds name) = Some v" for v
  proof (rule finds_SomeI [of _ _ "[]"])
    have "verbdef_matches_spec u None None" for u
      by (simp add: verbdef_matches_spec_def)
    with that show "verb_at txt w name None None ob = Some (as_resolved v)"
      by (auto simp: verb_at_def defs_find_first_named_def)
  qed simp_all
  then show ?thesis
    unfolding direct_verb_def
    by (intro wok_bind [OF wok_with_verbdefs])
      (auto split: option.splits simp: vc_fill_hit_def vc_fill_as_answer
        intro!: wok_fail wok_ret wok_bind [OF wok_fill_verb])
qed

lemma wok_get_verb_by_name:
  "wok txt w (get_verb_by_name txt ob name) (\<lambda>_ w'. w' = w)"
  unfolding get_verb_by_name_def
  by (rule wok_bind [OF wok_state [where P = "\<lambda>_. True"]])
    (auto split: option.splits intro!: wok_fail wok_direct_verb wok_lookup_resolved_verbdef)

end
