(* ===== verification/PropReads.thy ===== *)
theory PropReads
  imports WorldReads
begin

text \<open>
  Reads of properties through the caches and the memo: the definition a name or an identifier finds,
  the permissions, and the value, which is that of the nearest object of the chain that has one.
\<close>

section \<open>Definitions\<close>

lemma finds_path:
  assumes "path up ob pre s" and "\<forall>x \<in> set pre. look x = None" and "finds up look s r"
  shows "finds up look ob r"
proof (cases r)
  case None
  with assms show ?thesis by (auto simp: finds_def path_line)
next
  case (Some v)
  with assms(3) obtain pre' s' where p: "path up s pre' s'" "\<forall>x \<in> set pre'. look x = None" "look s' = Some v"
    by (auto simp: finds_def)
  have "path up ob (pre @ pre') s'"
    using assms(1) p(1) by (induction pre arbitrary: ob) auto
  with assms(2) p show ?thesis unfolding Some by (intro finds_SomeI [of up ob "pre @ pre'" s']) auto
qed

lemma finds_step:
  assumes "look ob = None" and "\<not> is_nothing (up ob)" and "finds up look (up ob) r"
  shows "finds up look ob r"
  by (rule finds_path [of up ob "[ob]" "up ob"]) (use assms in auto)

lemma finds_here: "look ob = Some v \<Longrightarrow> finds up look ob (Some v)"
  by (rule finds_SomeI [of _ _ "[]"]) auto

lemma finds_root: "look ob = None \<Longrightarrow> is_nothing (up ob) \<Longrightarrow> finds up look ob None"
  by (simp add: finds_def)

lemma view_props:
  "rt_view (wt_rel t ObjectPropdefs) (KObj s) = Inr v \<Longrightarrow>
     (case Option.bind (map_option value_propdefs v) (\<lambda>ds. ds) of None \<Rightarrow> [] | Some ds \<Rightarrow> ds) = props_in (world t) s"
  by (cases v) (simp_all add: props_in_def world_view)

lemma first_props_loop_finds:
  assumes "first_props_loop t s = Some (Inr r)"
  shows "finds (parent_in (world t)) (has_props (world t)) s r"
proof -
  have "\<forall>r. y = Inr r \<longrightarrow> finds (parent_in (world t)) (has_props (world t)) s r" if "first_props_loop t s = Some y" for y
  proof (rule first_props_loop.raw_induct [OF _ that])
    fix loop and t :: "'a ws_transaction" and s y
    assume IH: "\<And>t s y. loop t s = Some y \<Longrightarrow>
        \<forall>r. y = Inr r \<longrightarrow> finds (parent_in (world t)) (has_props (world t)) s r"
      and body: "(case rt_with_domain_value (wt_rel t ObjectPropdefs) (KObj s) value_propdefs of
        Inl e \<Rightarrow> Some (Inl (database_error e))
      | Inr r \<Rightarrow>
          if (case Option.bind r (\<lambda>ds. ds) of None \<Rightarrow> False | Some propdefs \<Rightarrow> propdefs \<noteq> [])
          then Some (Inr (Some s))
          else
            (case parent_of (wt_rel t ObjectParent) s of
               Inl e \<Rightarrow> Some (Inl e)
             | Inr parent \<Rightarrow>
                 if is_nothing parent then Some (Inr None) else loop t parent)) = Some y"
    show "\<forall>r. y = Inr r \<longrightarrow> finds (parent_in (world t)) (has_props (world t)) s r"
    proof (cases "rt_view (wt_rel t ObjectPropdefs) (KObj s)")
      case (Inl e)
      with body show ?thesis by (auto simp: rt_with_domain_value_eq_view)
    next
      case (Inr v)
      have none: "(case Option.bind (map_option value_propdefs v) (\<lambda>ds. ds) of None \<Rightarrow> False | Some propdefs \<Rightarrow> propdefs \<noteq> [])
          \<longleftrightarrow> has_props (world t) s \<noteq> None"
        using view_props [OF Inr] by (auto simp: has_props_def split: option.splits)
      show ?thesis
      proof (cases "has_props (world t) s")
        case (Some x)
        then have "x = s" by (simp add: has_props_def split: if_splits)
        with Some body show ?thesis by (auto simp: rt_with_domain_value_eq_view Inr none intro: finds_here)
      next
        case None
        with body have b: "(case parent_of (wt_rel t ObjectParent) s of Inl e \<Rightarrow> Some (Inl e)
            | Inr parent \<Rightarrow> if is_nothing parent then Some (Inr None) else loop t parent) = Some y"
          by (simp add: rt_with_domain_value_eq_view Inr none)
        show ?thesis
        proof (cases "parent_of (wt_rel t ObjectParent) s")
          case (Inl e)
          with b show ?thesis by auto
        next
          case (Inr parent)
          with reads_up_world [of t] have p: "parent = parent_in (world t) s" by (rule parent_of_up)
          show ?thesis
            using b Inr None IH by (cases "is_nothing parent") (auto simp: p intro: finds_root finds_step)
        qed
      qed
    qed
  qed
  with assms show ?thesis by blast
qed

lemma named_prop_loop_finds:
  assumes "named_prop_loop t name s = Some (Inr r)"
  shows "finds (parent_in (world t)) (prop_at (world t) name) s r"
proof -
  have "\<forall>r. y = Inr r \<longrightarrow> finds (parent_in (world t)) (prop_at (world t) name) s r" if "named_prop_loop t name s = Some y" for y
  proof (rule named_prop_loop.raw_induct [OF _ that])
    fix loop and t :: "'a ws_transaction" and name s y
    assume IH: "\<And>t name s y. loop t name s = Some y \<Longrightarrow>
        \<forall>r. y = Inr r \<longrightarrow> finds (parent_in (world t)) (prop_at (world t) name) s r"
      and body: "(case rt_with_domain_value (wt_rel t ObjectPropdefs) (KObj s) value_propdefs of
        Inl e \<Rightarrow> Some (Inl (database_error e))
      | Inr r \<Rightarrow>
          (case Option.bind (Option.bind r (\<lambda>ds. ds)) (\<lambda>ds. defs_find_first_named propdef_matches_name ds name) of
             None \<Rightarrow>
               (case parent_of (wt_rel t ObjectParent) s of
                  Inl e \<Rightarrow> Some (Inl e)
                | Inr parent \<Rightarrow>
                    if is_nothing parent then Some (Inr None) else loop t name parent)
           | Some propdef \<Rightarrow> Some (Inr (Some propdef)))) = Some y"
    show "\<forall>r. y = Inr r \<longrightarrow> finds (parent_in (world t)) (prop_at (world t) name) s r"
    proof (cases "rt_view (wt_rel t ObjectPropdefs) (KObj s)")
      case (Inl e)
      with body show ?thesis by (auto simp: rt_with_domain_value_eq_view)
    next
      case (Inr v)
      have look: "Option.bind (Option.bind (map_option value_propdefs v) (\<lambda>ds. ds))
          (\<lambda>ds. defs_find_first_named propdef_matches_name ds name) = prop_at (world t) name s"
        using view_props [OF Inr]
        by (cases "Option.bind (map_option value_propdefs v) (\<lambda>ds. ds)") (auto simp: prop_at_def defs_find_first_named_def)
      from body have b: "(case prop_at (world t) name s of
             None \<Rightarrow>
               (case parent_of (wt_rel t ObjectParent) s of
                  Inl e \<Rightarrow> Some (Inl e)
                | Inr parent \<Rightarrow>
                    if is_nothing parent then Some (Inr None) else loop t name parent)
           | Some propdef \<Rightarrow> Some (Inr (Some propdef))) = Some y"
        by (simp only: rt_with_domain_value_eq_view Inr rbind_simps sum.case look)
      show ?thesis
      proof (cases "prop_at (world t) name s")
        case (Some d)
        with b show ?thesis by (auto intro: finds_here)
      next
        case None
        show ?thesis
        proof (cases "parent_of (wt_rel t ObjectParent) s")
          case (Inl e)
          with b None show ?thesis by auto
        next
          case (Inr parent)
          with reads_up_world [of t] have p: "parent = parent_in (world t) s" by (rule parent_of_up)
          show ?thesis
            using b Inr None IH by (cases "is_nothing parent") (auto simp: p intro: finds_root finds_step)
        qed
      qed
    qed
  qed
  with assms show ?thesis by blast
qed

lemma winv_fill_prop:
  assumes "winv txt t" and "finds (parent_in (world t)) (prop_at (world t) n) ob r"
  shows "winv txt (on_props (\<lambda>c. pc_answer c (ob, compare_id n) r) t)"
proof -
  have "finds (parent_in (world t)) (prop_at (world t) n') ob r" if "compare_id n' = compare_id n" for n'
  proof -
    have "prop_at (world t) n' = prop_at (world t) n"
      using that by (simp add: prop_at_def defs_find_first_named_def propdef_matches_name_def symbol_eq_def fun_eq_iff)
    with assms(2) show ?thesis by simp
  qed
  then show ?thesis
    using assms(1) by (auto simp: winv_def props_sound_def pc_lookup_query pc.lookup_fill pc_other_ops split: if_splits)
qed

lemma winv_fill_first_props:
  assumes "winv txt t" and "finds (parent_in (world t)) (has_props (world t)) ob r"
  shows "winv txt (on_props (\<lambda>c. pc_fill_first_parent c ob r) t)"
  using assms by (auto simp: winv_def props_sound_def pc_lookup_query pfp.lookup_fill pc_other_ops split: if_splits)

lemma has_props_prop_at: "has_props w x = None \<Longrightarrow> prop_at w n x = None"
  by (auto simp: has_props_def prop_at_def defs_find_first_named_def split: if_splits)

lemma find_named_from_finds:
  assumes "winv txt t" and "finds (parent_in (world t)) (has_props (world t)) ob (Some s)"
    and "find_named_from ob n s t = Some (t', res)"
  shows "winv txt t' \<and> world t' = world t \<and> (\<forall>d. res = Inr (Some d) \<longrightarrow>
     finds (parent_in (world t)) (prop_at (world t) n) ob (Some d))"
proof -
  from assms(2) obtain pre where p: "path (parent_in (world t)) ob pre s" "\<forall>x \<in> set pre. has_props (world t) x = None"
    by (auto simp: finds_def has_props_def split: if_splits)
  have fd: "finds (parent_in (world t)) (prop_at (world t) n) ob r" if "named_prop_loop t n s = Some (Inr r)" for r
    using finds_path [OF p(1) _ named_prop_loop_finds [OF that]] p(2) has_props_prop_at by blast
  show ?thesis
    using assms(1,3) winv_fill_prop [OF assms(1) fd]
    by (auto simp: find_named_from_def pc_fill_as_answer fd split: option.splits sum.splits)
qed

lemma wok_find_property_by_name:
  "wok txt w (find_property_by_name ob n) (\<lambda>r w'. w' = w \<and>
     (\<forall>d. r = Some d \<longrightarrow> finds (parent_in w) (prop_at w n) ob (Some d)))"
proof (rule wokI)
  fix t t' res
  assume inv: "winv txt t" "world t = w" and m: "find_property_by_name ob n t = Some (t', res)"
  have hit: "pc_lookup (prop_resolution_cache (wt_caches t)) ob n = Some r \<Longrightarrow> finds (parent_in w) (prop_at w n) ob r"
    "pc_lookup_first_parent (prop_resolution_cache (wt_caches t)) ob = Some q \<Longrightarrow> finds (parent_in w) (has_props w) ob q" for r q
    using inv by (auto simp: winv_def props_sound_def)
  have ff: "first_props_loop t ob = Some (Inr q) \<Longrightarrow> finds (parent_in w) (has_props w) ob q" for q
    using first_props_loop_finds [of t ob q] inv(2) by simp
  have go: "winv txt t' \<and> (\<forall>a. res = Inr a \<longrightarrow> world t' = w \<and> (\<forall>d. a = Some d \<longrightarrow> finds (parent_in w) (prop_at w n) ob (Some d)))"
    if "winv txt t1" "world t1 = w" "finds (parent_in w) (has_props w) ob (Some s)" "find_named_from ob n s t1 = Some (t', res)" for t1 s
    using find_named_from_finds [OF that(1) _ that(4)] that(2,3) by auto
  have fill: "winv txt (on_props (\<lambda>c. pc_fill_first_parent c ob (Some s)) t)" if "first_props_loop t ob = Some (Inr (Some s))" for s
    using winv_fill_first_props [OF inv(1), of ob "Some s"] ff [OF that] inv(2) by simp
  show "winv txt t' \<and> (\<forall>a. res = Inr a \<longrightarrow> world t' = w \<and> (\<forall>d. a = Some d \<longrightarrow> finds (parent_in w) (prop_at w n) ob (Some d)))"
  proof (cases "pc_lookup (prop_resolution_cache (wt_caches t)) ob n")
    case (Some r)
    with m hit(1) [OF Some] inv show ?thesis by (auto simp: find_property_by_name_def)
  next
    case none: None
    show ?thesis
    proof (cases "pc_lookup_first_parent (prop_resolution_cache (wt_caches t)) ob")
      case (Some q)
      show ?thesis
      proof (cases q)
        case q: None
        with m none Some inv show ?thesis by (auto simp: find_property_by_name_def)
      next
        case q: (Some s)
        with m none Some have "find_named_from ob n s t = Some (t', res)" by (simp add: find_property_by_name_def)
        from go [OF inv _ this] hit(2) [OF Some] q show ?thesis by simp
      qed
    next
      case None
      show ?thesis
      proof (cases "\<exists>s. first_props_loop t ob = Some (Inr (Some s))")
        case True
        then obtain s where s: "first_props_loop t ob = Some (Inr (Some s))" by blast
        with m none None have "find_named_from ob n s (on_props (\<lambda>c. pc_fill_first_parent c ob (Some s)) t) = Some (t', res)"
          by (simp add: find_property_by_name_def)
        from go [OF fill [OF s] _ ff [OF s] this] inv(2) show ?thesis by simp
      next
        case False
        with m none None inv show ?thesis
          by (auto simp: find_property_by_name_def split: option.splits sum.splits)
      qed
    qed
  qed
qed

lemma wok_with_propdefs:
  assumes "g [] = None"
  shows "wok txt w (with_propdefs ob g) (\<lambda>r w'. w' = w \<and> r = g (props_in w ob))"
  unfolding with_propdefs_def
  by (intro wok_bind [OF wok_with] wok_ret) (auto simp: props_in_def assms split: Option.bind_splits option.splits)

lemma wok_find_in_ancestors:
  "wok txt w (find_in_ancestors u xs) (\<lambda>r w'. w' = w \<and> r = first_of (def_at w u) xs)"
proof (induction xs)
  case Nil
  show ?case by (auto intro: wok_ret)
next
  case (Cons x xs)
  have "wok txt w (with_propdefs x (\<lambda>props. defs_find pd_uuid props u)) (\<lambda>r w'. w' = w \<and> r = def_at w u x)"
    unfolding def_at_def by (rule wok_with_propdefs) (simp add: defs_find_def)
  then show ?case
    by (simp, rule wok_bind) (auto split: option.splits intro!: wok_ret wok_weaken [OF Cons.IH])
qed

lemma wok_find_property_by_uuid:
  "wok txt w (find_property_by_uuid ob u) (\<lambda>d w'. w' = w \<and> finds (parent_in w) (def_at w u) ob (Some d))"
proof -
  have found: "finds (parent_in w) (def_at w u) ob (Some d)"
    if "line (parent_in w) ob = Some xs" and "first_of (def_at w u) xs = Some d" for xs d
    using finds_first [OF that(1), of "def_at w u"] that(2) by simp
  show ?thesis
    unfolding find_property_by_uuid_def
    by (rule wok_bind [OF wok_ancestors])
      (auto simp del: find_in_ancestors.simps split: option.splits
        intro!: wok_bind [OF wok_find_in_ancestors] wok_ret wok_fail found)
qed

section \<open>Permissions\<close>

lemma wok_local_perms: "wok txt w (local_perms ob u) (\<lambda>r w'. w' = w \<and> r = flags_in w ob u)"
  unfolding local_perms_def
  by (intro wok_bind [OF wok_with] wok_ret) (auto simp: flags_in_def split: Option.bind_splits)

lemma wok_cache_perms:
  assumes "perms_are w ob u p"
  shows "wok txt w (wmodify (on_memo (\<lambda>m. cache_perms m (ob, u) p))) (\<lambda>_ w'. w' = w)"
  by (rule wok_modify) (use assms in \<open>auto simp: winv_def memo_sound_def\<close>)

lemma wok_retrieve_property_permissions:
  "wok txt w (retrieve_property_permissions ob u) (\<lambda>p w'. w' = w \<and> perms_are w ob u p)"
proof -
  have local: "perms_are w ob u p" if "flags_in w ob u = Some p" for p
    using that by (simp add: perms_are_def)
  have inherited: "perms_are w ob u (inherited_perms w ob d c)"
    if "flags_in w ob u = None" "finds (parent_in w) (def_at w u) ob (Some d)" "flags_in w (pd_definer d) u = Some c" for d c
    using that by (auto simp: perms_are_def)
  have final: "wok txt w (if be_contains prop_flag_index (pp_flags c) PropChown \<and> ob \<noteq> pd_definer d
                then wbind (get_object_owner ob) (\<lambda>obj_owner. wret (prop_perms_with_owner c obj_owner))
                else wret c) (\<lambda>p w'. w' = w \<and> p = inherited_perms w ob d c)" for d c
    by (auto simp: inherited_perms_def intro!: wok_ret wok_bind [OF wok_get_owner])
  have rest: "wok txt w (wbind (find_property_by_uuid ob u) (\<lambda>propdef.
          let defining_obj = pd_definer propdef
          in wbind (local_perms defining_obj u) (\<lambda>r.
               case r of
                 None \<Rightarrow> wfail DatabaseError
               | Some canonical_perms \<Rightarrow>
                   wbind (if be_contains prop_flag_index (pp_flags canonical_perms) PropChown \<and> ob \<noteq> defining_obj
                          then wbind (get_object_owner ob) (\<lambda>obj_owner.
                                 wret (prop_perms_with_owner canonical_perms obj_owner))
                          else wret canonical_perms) (\<lambda>final_perms.
                     wbind (wmodify (on_memo (\<lambda>m. cache_perms m (ob, u) final_perms))) (\<lambda>_.
                       wret final_perms))))) (\<lambda>p w'. w' = w \<and> perms_are w ob u p)"
    if none: "flags_in w ob u = None"
    unfolding Let_def
    by (rule wok_bind [OF wok_find_property_by_uuid], clarsimp, rule wok_bind [OF wok_local_perms])
      (auto split: option.splits split del: if_split
        intro!: wok_fail wok_bind [OF final] wok_bind [OF wok_cache_perms] wok_ret intro: inherited [OF none])
  show ?thesis
    unfolding retrieve_property_permissions_def
    by (rule wok_bind [OF wok_state [where P = "\<lambda>r. \<forall>p. r = Some p \<longrightarrow> perms_are w ob u p"]])
      (auto simp: winv_def memo_sound_def split: option.splits
        intro!: wok_ret wok_bind [OF wok_local_perms] wok_bind [OF wok_cache_perms] rest intro: local)
qed

text \<open>The lists of dependencies and the known holders are not part of the invariant.\<close>

lemma world_reads_simps [simp]:
  "world (t\<lparr>wt_inherited_policy_reads := g\<rparr>) = world t" "world (t\<lparr>wt_owner_change_reads := h\<rparr>) = world t"
  "wt_ok (t\<lparr>wt_inherited_policy_reads := g\<rparr>) = wt_ok t" "wt_ok (t\<lparr>wt_owner_change_reads := h\<rparr>) = wt_ok t"
  by (simp_all add: wt_ok_def world_def fun_eq_iff)

lemma wok_policy_reads:
  "wok txt w (wmodify (\<lambda>t. t\<lparr>wt_inherited_policy_reads := g t\<rparr>)) (\<lambda>_ w'. w' = w)"
  "wok txt w (wmodify (\<lambda>t. t\<lparr>wt_owner_change_reads := h t\<rparr>)) (\<lambda>_ w'. w' = w)"
  by (rule wok_modify, auto simp: winv_def)+

lemma wok_mark_known:
  "wok txt w (wmodify (on_memo (\<lambda>m. mark_known_propflags m h))) (\<lambda>_ w'. w' = w)"
  "wok txt w (wmodify (on_memo (\<lambda>m. invalidate_known_for_holder m h))) (\<lambda>_ w'. w' = w)"
  by (rule wok_modify, auto simp: winv_def memo_sound_def)+

lemma wok_record_inherited: "wok txt w (record_inherited_policy_dependency ob u) (\<lambda>_ w'. w' = w)"
  unfolding record_inherited_policy_dependency_def
  by (rule wok_bind [OF wok_has]) (auto intro!: wok_ret wok_bind [OF wok_find_property_by_uuid] wok_policy_reads)

section \<open>Values\<close>

lemma wok_inherited_value:
  "wok txt w (inherited_value u xs) (\<lambda>r w'. w' = w \<and> r = first_of (\<lambda>x. w ObjectPropvalues (KProperty x u)) xs)"
proof (induction xs)
  case Nil
  show ?case by (auto intro: wok_ret)
next
  case (Cons x xs)
  show ?case
    by (simp, rule wok_bind [OF wok_get]) (auto split: option.splits intro!: wok_ret wok_weaken [OF Cons.IH])
qed

lemma wok_retrieve_property:
  "wok txt w (retrieve_property ob u)
     (\<lambda>(v, p) w'. w' = w \<and> v = w ObjectPropvalues (KProperty ob u) \<and> perms_are w ob u p)"
  unfolding retrieve_property_def
  by (rule wok_bind [OF wok_get], clarsimp, rule wok_bind [OF wok_retrieve_property_permissions])
    (auto intro!: wok_ret)

definition value_in :: "'x world \<Rightarrow> 'x \<Rightarrow> obj \<Rightarrow> uuid \<Rightarrow> 'x db_value \<Rightarrow> bool \<Rightarrow> bool" where
  "value_in w nv ob u v inherited \<longleftrightarrow>
     (if inherited then \<exists>rest. line (parent_in w) ob = Some (ob # rest) \<and> w ObjectPropvalues (KProperty ob u) = None
          \<and> v = (case first_of (\<lambda>x. w ObjectPropvalues (KProperty x u)) rest of None \<Rightarrow> v_none nv | Some x \<Rightarrow> x)
      else w ObjectPropvalues (KProperty ob u) = Some v)"

lemma value_in_local: "w ObjectPropvalues (KProperty ob u) = Some v \<Longrightarrow> value_in w nv ob u v False"
  by (simp add: value_in_def)

lemma value_in_inherited:
  "line (parent_in w) ob = Some (ob # rest) \<Longrightarrow> w ObjectPropvalues (KProperty ob u) = None \<Longrightarrow>
     value_in w nv ob u (case first_of (\<lambda>x. w ObjectPropvalues (KProperty x u)) rest of None \<Rightarrow> v_none nv | Some x \<Rightarrow> x) True"
  by (simp add: value_in_def)

lemma wok_resolve_property_by_uuid:
  "wok txt w (resolve_property_by_uuid nv ob u)
     (\<lambda>(v, p, inherited) w'. w' = w \<and> perms_are w ob u p \<and> value_in w nv ob u v inherited)"
  unfolding resolve_property_by_uuid_def
  by (rule wok_bind [OF wok_retrieve_property])
    (case_tac a, case_tac "fst a", auto simp: value_in_local value_in_inherited
      intro!: wok_ret wok_bind [OF wok_ancestors] wok_bind [OF wok_inherited_value])

lemma wok_resolve_property:
  "wok txt w (resolve_property nv ob n)
     (\<lambda>(d, v, p, inherited) w'. w' = w \<and> finds (parent_in w) (prop_at w n) ob (Some d)
        \<and> perms_are w ob (pd_uuid d) p \<and> value_in w nv ob (pd_uuid d) v inherited)"
proof -
  have rest: "wok txt w (wbind (retrieve_property ob (pd_uuid d)) (\<lambda>(pvalue, perms).
             case pvalue of
               Some value \<Rightarrow> wret (d, value, perms, False)
             | None \<Rightarrow>
                 wbind (ancestors ob False) (\<lambda>line.
                   wbind (inherited_value (pd_uuid d) line) (\<lambda>value.
                     wret (d, case value of None \<Rightarrow> v_none nv | Some v \<Rightarrow> v, perms, True)))))
     (\<lambda>(d, v, p, inherited) w'. w' = w \<and> finds (parent_in w) (prop_at w n) ob (Some d)
        \<and> perms_are w ob (pd_uuid d) p \<and> value_in w nv ob (pd_uuid d) v inherited)"
    if "finds (parent_in w) (prop_at w n) ob (Some d)" for d
    by (rule wok_bind [OF wok_retrieve_property])
      (case_tac a, case_tac "fst a", auto simp: that value_in_local value_in_inherited
        intro!: wok_ret wok_bind [OF wok_ancestors] wok_bind [OF wok_inherited_value])
  show ?thesis
    unfolding resolve_property_def
    by (rule wok_bind [OF wok_find_property_by_name]) (auto split: option.splits intro!: wok_fail rest)
qed

end
