(* ===== verification/WorldWrites.thy ===== *)
theory WorldWrites
  imports PropReads
begin

text \<open>
  The operations that change the world keep the invariant of \<open>WorldInv\<close>: for each, the keys its edit
  changes, and that the scope of the edit invalidates every object whose searches pass them.
\<close>

section \<open>Covering a change\<close>

lemma def_at_definer: "definers_local w \<Longrightarrow> def_at w u s = Some d \<Longrightarrow> pd_definer d = s"
  by (auto simp: definers_local_def def_at_def defs_find_def find_Some_iff)

lemma finds_definer:
  assumes "definers_local w" and "finds (parent_in w) (def_at w u) ob (Some d)"
  shows "climbs_to (parent_in w) ob (pd_definer d)" and "def_at w u (pd_definer d) = Some d"
proof -
  obtain pre s where p: "path (parent_in w) ob pre s" and d: "def_at w u s = Some d"
    using assms(2) by (auto simp: finds_def)
  have s: "pd_definer d = s" by (rule def_at_definer [OF assms(1) d])
  show "climbs_to (parent_in w) ob (pd_definer d)" using path_under [OF p] by (simp add: s)
  show "def_at w u (pd_definer d) = Some d" using d by (simp add: s)
qed

abbreviation holders :: "obj set \<Rightarrow> property_key set" where
  "holders S \<equiv> {h. fst h \<in> S}"

lemma holdersD: "holders S \<subseteq> DM \<Longrightarrow> ob \<in> S \<Longrightarrow> (ob, u) \<in> DM"
  by auto

lemma covers_closed:
  assumes closed: "children_closed (parent_in w) S" and loc: "definers_local w"
    and p: "\<And>x. K ObjectParent (KObj x) \<Longrightarrow> x \<in> S \<and> S \<subseteq> DV \<and> S \<subseteq> DP \<and> S \<subseteq> DA \<and> holders S \<subseteq> DM"
    and v: "\<And>x. K ObjectVerbdefs (KObj x) \<Longrightarrow> x \<in> S \<and> S \<subseteq> DV"
    and d: "\<And>x. K ObjectPropdefs (KObj x) \<Longrightarrow> x \<in> S \<and> S \<subseteq> DP \<and> holders S \<subseteq> DM"
    and ow: "\<And>x. K ObjectOwner (KObj x) \<Longrightarrow> x \<in> S \<and> holders S \<subseteq> DM"
    and fl: "\<And>x u. K ObjectPropflags (KProperty x u) \<Longrightarrow> x \<in> S \<and> holders S \<subseteq> DM"
  shows "covers DV DP DA DM K w"
proof -
  have up: "climbs_to (parent_in w) ob x \<Longrightarrow> x \<in> S \<Longrightarrow> ob \<in> S" for ob x
    by (rule children_closed_under [OF _ closed])
  have "\<not> K ObjectPropflags (KProperty (pd_definer e) u)"
    if "(ob, u) \<notin> DM" "finds (parent_in w) (def_at w u) ob (Some e)" for ob u e
    using that fl [of "pd_definer e" u] up [OF finds_definer(1) [OF loc that(2)]] by (auto dest: holdersD)
  moreover have "\<not> K ObjectParent (KObj x)" if "climbs_to (parent_in w) ob x" "ob \<notin> DV \<or> ob \<notin> DP \<or> ob \<notin> DA \<or> (ob, u) \<notin> DM" for ob x u
    using that p [of x] up [OF that(1)] by (auto dest: holdersD)
  moreover have "\<not> K ObjectVerbdefs (KObj x)" if "climbs_to (parent_in w) ob x" "ob \<notin> DV" for ob x
    using that v [of x] up [OF that(1)] by (auto dest: holdersD)
  moreover have "\<not> K ObjectPropdefs (KObj x)" if "climbs_to (parent_in w) ob x" "ob \<notin> DP \<or> (ob, u) \<notin> DM" for ob x u
    using that d [of x] up [OF that(1)] by (auto dest: holdersD)
  moreover have "\<not> K ObjectOwner (KObj ob)" "\<not> K ObjectPropflags (KProperty ob u)" if "(ob, u) \<notin> DM" for ob u
    using that ow [of ob] fl [of ob u] by (auto dest: holdersD)
  ultimately show ?thesis
    unfolding covers_def by (intro conjI allI impI) blast+
qed

lemma covers_elsewhere:
  assumes "\<And>x. \<not> K ObjectParent (KObj x) \<and> \<not> K ObjectVerbdefs (KObj x) \<and> \<not> K ObjectPropdefs (KObj x) \<and> \<not> K ObjectOwner (KObj x)"
    and "\<And>x u. \<not> K ObjectPropflags (KProperty x u)"
  shows "covers DV DP DA DM K w"
  using assms by (simp add: covers_def)

lemma covers_permissions:
  assumes loc: "definers_local w" and "def_at w u ob = None" and "(ob, u) \<in> DM"
    and K: "\<And>x. \<not> K ObjectParent (KObj x) \<and> \<not> K ObjectVerbdefs (KObj x) \<and> \<not> K ObjectPropdefs (KObj x) \<and> \<not> K ObjectOwner (KObj x)"
    "\<And>x v. K ObjectPropflags (KProperty x v) \<Longrightarrow> x = ob \<and> v = u"
  shows "covers DV DP DA DM K w"
proof -
  have "\<not> K ObjectPropflags (KProperty (pd_definer d) v)" if "finds (parent_in w) (def_at w v) x (Some d)" for x v d
    using finds_definer(2) [OF loc that] K(2) assms(2) by fastforce
  with K assms(3) show ?thesis
    unfolding covers_def by (intro conjI allI impI) blast+
qed

lemma covers_owner:
  assumes "\<And>x. \<not> K ObjectParent (KObj x) \<and> \<not> K ObjectVerbdefs (KObj x) \<and> \<not> K ObjectPropdefs (KObj x)"
    and "\<And>x u. \<not> K ObjectPropflags (KProperty x u)"
    and "\<And>x u d. K ObjectOwner (KObj x) \<Longrightarrow> finds (parent_in w) (def_at w u) x (Some d) \<Longrightarrow> x \<noteq> pd_definer d \<Longrightarrow> (x, u) \<in> DM"
  shows "covers DV DP DA DM K w"
  unfolding covers_def using assms by (intro conjI allI impI) blast+

section \<open>Rules for changes\<close>

lemma definers_unchanged:
  assumes "definers_local w" and "\<And>x. w' ObjectPropdefs (KObj x) = w ObjectPropdefs (KObj x)"
  shows "definers_local w'"
  using assms by (simp add: definers_local_def props_in_def)

lemma wok_change:
  assumes k: "wkeeps K m" and cov: "definers_local w \<Longrightarrow> covers {} {} {} {} K w"
    and d: "\<And>x. \<not> K ObjectPropdefs (KObj x)"
  shows "wok txt w m (\<lambda>_ w'. \<forall>r k. \<not> K r k \<longrightarrow> w' r k = w r k)"
proof (rule wokI)
  fix t t' r
  assume inv: "winv txt t" "world t = w" and m: "m t = Some (t', r)"
  then have ok: "wt_ok t" and loc: "definers_local w" by (auto simp: winv_def)
  note keep = wkeepsD [OF k ok m]
  then have w': "\<not> K r k \<Longrightarrow> world t' r k = w r k" for r k
    using inv(2) by (simp add: keeps_def)
  have "definers_local (world t')"
    using loc by (rule definers_unchanged) (simp add: w' d)
  with keeps_winv [OF inv(1) keep] cov [OF loc] inv(2) w'
  show "winv txt t' \<and> (\<forall>a. r = Inr a \<longrightarrow> (\<forall>r k. \<not> K r k \<longrightarrow> world t' r k = w r k))" by simp
qed

lemma winv_revision [simp]: "winv txt (t\<lparr>wt_verb_program_revision := n\<rparr>) = winv txt t"
  "world (t\<lparr>wt_verb_program_revision := n\<rparr>) = world t"
proof -
  show w: "world (t\<lparr>wt_verb_program_revision := n\<rparr>) = world t"
    by (simp add: world_def fun_eq_iff)
  show "winv txt (t\<lparr>wt_verb_program_revision := n\<rparr>) = winv txt t"
    by (simp add: winv_def w wt_ok_def)
qed

lemma wok_edit_defs:
  assumes k: "wkeeps K body"
    and cov: "definers_local w \<Longrightarrow> covers (drop_verbs scope) (drop_props scope) (drop_lines scope) (drop_memo scope) K w"
    and d: "\<And>t t' r. wt_ok t \<Longrightarrow> definers_local (world t) \<Longrightarrow> body t = Some (t', r) \<Longrightarrow> definers_local (world t')"
  shows "wok txt w (edit scope body) (\<lambda>_ w'. \<forall>r k. \<not> K r k \<longrightarrow> w' r k = w r k)"
proof (rule wokI)
  fix t t' r
  assume inv: "winv txt t" "world t = w" and m: "edit scope body t = Some (t', r)"
  define t1 where "t1 = (if bumps_revision scope
      then t\<lparr>wt_verb_program_revision := wt_verb_program_revision t + 1\<rparr> else t)"
  from m obtain t2 where b: "body t1 = Some (t2, r)" and t': "t' = edit_drop scope t2"
    by (auto simp: edit_def t1_def Let_def split: if_splits option.splits)
  have inv1: "winv txt t1" "world t1 = w" using inv by (simp_all add: t1_def)
  then have ok: "wt_ok t1" and loc: "definers_local (world t1)" by (simp_all add: winv_def)
  note keep = wkeepsD [OF k ok b]
  have w': "world t' = world t2" by (simp add: t' world_def edit_drop_frame fun_eq_iff)
  have "winv txt t'"
    unfolding t' by (rule edit_drop_winv [OF inv1(1) keep _ d [OF ok loc b]]) (use cov loc inv1(2) in simp)
  moreover have "\<not> K r k \<Longrightarrow> world t' r k = w r k" for r k
    using keep inv1(2) by (simp add: keeps_def w')
  ultimately show "winv txt t' \<and> (\<forall>a. r = Inr a \<longrightarrow> (\<forall>r k. \<not> K r k \<longrightarrow> world t' r k = w r k))" by simp
qed

lemma wok_edit:
  assumes k: "wkeeps K body"
    and cov: "definers_local w \<Longrightarrow> covers (drop_verbs scope) (drop_props scope) (drop_lines scope) (drop_memo scope) K w"
    and d: "\<And>x. \<not> K ObjectPropdefs (KObj x)"
  shows "wok txt w (edit scope body) (\<lambda>_ w'. \<forall>r k. \<not> K r k \<longrightarrow> w' r k = w r k)"
proof (rule wok_edit_defs [OF k cov])
  fix t t' r
  assume "wt_ok t" and loc: "definers_local (world t)" and "body t = Some (t', r)"
  with wkeepsD [OF k] have "keeps K t t'" by blast
  with d have "world t' ObjectPropdefs (KObj x) = world t ObjectPropdefs (KObj x)" for x
    by (simp add: keeps_def)
  with loc show "definers_local (world t')" by (rule definers_unchanged)
qed

text \<open>The keys of one relation.\<close>

abbreviation at_key :: "database_relation \<Rightarrow> db_key \<Rightarrow> database_relation \<Rightarrow> db_key \<Rightarrow> bool" where
  "at_key r k \<equiv> \<lambda>r' k'. r' = r \<and> k' = k"

section \<open>Objects\<close>

lemma wok_set_object_flags: "wok txt w (set_object_flags ob flags) (\<lambda>_ _. True)"
  unfolding set_object_flags_def
  by (rule wok_weaken [OF wok_change [where K = "at_key ObjectFlags (KObj ob)"]])
    (auto intro!: keeps_intros covers_elsewhere)

lemma wok_set_object_name: "wok txt w (set_object_name ob name) (\<lambda>_ _. True)"
  unfolding set_object_name_def
  by (rule wok_weaken [OF wok_change [where K = "at_key ObjectName (KObj ob)"]])
    (auto intro!: keeps_intros covers_elsewhere)

lemma wok_set_initial_object_location: "wok txt w (set_initial_object_location ob l) (\<lambda>_ w'. \<forall>x. w' ObjectParent x = w ObjectParent x)"
  unfolding set_initial_object_location_def
  by (rule wok_weaken [OF wok_change [where K = "at_key ObjectLocation (KObj ob)"]])
    (auto intro!: keeps_intros covers_elsewhere)

lemma wok_set_object_location:
  "wok txt w (set_object_location ob l) (\<lambda>_ w'. \<forall>r k. r \<noteq> ObjectLocation \<longrightarrow> w' r k = w r k)"
proof -
  have body: "wok txt w (wbind (rel_read value_obj ObjectLocation (KObj ob)) (\<lambda>old_location.
            if old_location = Some l then wret ()
            else wbind (upsert ObjectLocation (KObj ob) (VObj l)) (\<lambda>_. wret ())))
      (\<lambda>_ w'. \<forall>r k. r \<noteq> ObjectLocation \<longrightarrow> w' r k = w r k)"
    by (rule wok_weaken [OF wok_change [where K = "at_key ObjectLocation (KObj ob)"]])
      (auto intro!: keeps_intros covers_elsewhere)
  show ?thesis
  proof (rule wokI)
    fix t t' r
    assume inv: "winv txt t" "world t = w" and m: "set_object_location ob l t = Some (t', r)"
    show "winv txt t' \<and> (\<forall>a. r = Inr a \<longrightarrow> (\<forall>r k. r \<noteq> ObjectLocation \<longrightarrow> world t' r k = w r k))"
      using m inv wokD [OF body inv] unfolding set_object_location_def
      by (auto split: option.splits sum.splits bool.splits)
  qed
qed

lemma wok_edit_upsert:
  assumes "r \<noteq> ObjectPropdefs"
    and cov: "definers_local w \<Longrightarrow>
      covers (drop_verbs scope) (drop_props scope) (drop_lines scope) (drop_memo scope) (at_key r k) w"
  shows "wok txt w (edit scope (wbind (upsert r k v) (\<lambda>_. wret ()))) (\<lambda>_ w'. w' = w(r := (w r)(k := Some v)))"
proof (rule wokI)
  fix t t' res
  assume inv: "winv txt t" "world t = w"
    and m: "edit scope (wbind (upsert r k v) (\<lambda>_. wret ())) t = Some (t', res)"
  have "wok txt w (edit scope (wbind (upsert r k v) (\<lambda>_. wret ()))) (\<lambda>_ w'. \<forall>r' k'. \<not> at_key r k r' k' \<longrightarrow> w' r' k' = w r' k')"
    by (rule wok_edit [OF _ cov]) (use assms(1) in \<open>auto intro!: keeps_intros\<close>)
  note i = wokD [OF this inv m]
  define t1 where "t1 = (if bumps_revision scope
      then t\<lparr>wt_verb_program_revision := wt_verb_program_revision t + 1\<rparr> else t)"
  from m obtain t2 where b: "wbind (upsert r k v) (\<lambda>_. wret ()) t1 = Some (t2, res)" and t': "t' = edit_drop scope t2"
    by (auto simp: edit_def t1_def Let_def split: if_splits option.splits)
  have w1: "wt_ok t1" "world t1 = w" using inv by (auto simp: t1_def winv_def wt_ok_def)
  have "world t' = w(r := (w r)(k := Some v))" if res: "res = Inr a" for a
  proof -
    from b obtain r1 where u: "upsert r k v t1 = Some (t2, r1)" and r1: "res = map_sum (\<lambda>e. e) (\<lambda>_. ()) r1"
      by (auto simp: wbind_wret)
    from r1 res obtain old where "r1 = Inr old" by (cases r1) auto
    with u have "upsert r k v t1 = Some (t2, Inr old)" by simp
    from upsert_world [OF w1(1) this] w1(2) show ?thesis
      by (simp add: t' world_def edit_drop_frame fun_eq_iff)
  qed
  with i(1) show "winv txt t' \<and> (\<forall>a. res = Inr a \<longrightarrow> world t' = w(r := (w r)(k := Some v)))" by blast
qed

lemma wok_set_object_parent:
  "wok txt w (set_object_parent ob p) (\<lambda>_ w'. w' = w \<and> parent_in w ob = p
     \<or> w' = w(ObjectParent := (w ObjectParent)(KObj ob := Some (VObj p))))"
proof -
  have cov: "covers (set os) (set os) (set os) (holders (set os)) (at_key ObjectParent (KObj ob)) w"
    if "children_closed (parent_in w) (set os)" "ob \<in> set os" "definers_local w" for os
    by (rule covers_closed [OF that(1,3)]) (use that(2) in auto)
  have unchanged: "parent_in w ob = p" if "Option.bind (w ObjectParent (KObj ob)) value_obj = Some p"
    using that by (simp add: parent_in_def)
  show ?thesis
    unfolding set_object_parent_def
    by (rule wok_bind [OF wok_read])
      (auto intro!: wok_ret wok_bind [OF wok_branch] wok_weaken [OF wok_edit_upsert] simp: cov unchanged)
qed

lemma wok_set_initial_object_parent:
  assumes "\<forall>c. \<not> climbs (parent_in w) c ob"
  shows "wok txt w (set_initial_object_parent ob p) (\<lambda>_ _. True)"
proof -
  have "covers {ob} {ob} {ob} (holders {ob}) (at_key ObjectParent (KObj ob)) w" if "definers_local w"
    by (rule covers_closed [where S = "{ob}", OF _ that]) (use assms in \<open>auto simp: children_closed_def\<close>)
  then show ?thesis
    unfolding set_initial_object_parent_def
    by (intro wok_weaken [OF wok_edit [where K = "at_key ObjectParent (KObj ob)"]])
      (auto intro!: keeps_intros)
qed

lemma wok_wexpect:
  assumes "wok txt w m Q"
  shows "wok txt w (wexpect m) Q"
proof (rule wokI)
  fix t t' r
  assume inv: "winv txt t" "world t = w" and m: "wexpect m t = Some (t', r)"
  then obtain a where "m t = Some (t', Inr a)" and "r = Inr a"
    by (auto simp: wexpect_def split: option.splits sum.splits)
  with wokD [OF assms inv] show "winv txt t' \<and> (\<forall>a. r = Inr a \<longrightarrow> Q a (world t'))" by auto
qed

text \<open>A new object: nothing refers to it and it has no parent yet.\<close>

definition fresh_in :: "'x world \<Rightarrow> obj \<Rightarrow> bool" where
  "fresh_in w ob \<longleftrightarrow> is_nothing (parent_in w ob) \<and> (\<forall>c. \<not> climbs (parent_in w) c ob)"

lemma covers_fresh_owner:
  assumes "fresh_in w ob" and "definers_local w"
  shows "covers {} {} {} {} (at_key ObjectOwner (KObj ob)) w"
proof (rule covers_owner)
  fix x u d
  assume "at_key ObjectOwner (KObj ob) ObjectOwner (KObj x)" and f: "finds (parent_in w) (def_at w u) x (Some d)"
    and ne: "x \<noteq> pd_definer d"
  then have x: "x = ob" by simp
  from f obtain pre s where p: "path (parent_in w) ob pre s" and d: "def_at w u s = Some d"
    by (auto simp: finds_def x)
  from p assms(1) have "s = ob" by (cases pre) (auto simp: fresh_in_def)
  with def_at_definer [OF assms(2) d] ne x show "(x, u) \<in> {}" by simp
qed auto

lemma fresh_in_parents:
  "fresh_in w ob \<Longrightarrow> (\<forall>k. w' ObjectParent k = w ObjectParent k) \<Longrightarrow> fresh_in w' ob"
  by (simp add: fresh_in_def parent_in_def climbs_def)

lemma wok_insert_object:
  assumes "fresh_in w ob"
  shows "wok txt w (insert_object ob attrs) (\<lambda>_ _. True)"
proof -
  have owner: "wok txt w (insert_guaranteed_unique ObjectOwner (KObj ob) v) (\<lambda>_ w'. fresh_in w' ob)"
    if "fresh_in w ob" for w v
    by (rule wok_weaken [OF wok_change [where K = "at_key ObjectOwner (KObj ob)"]])
      (use that in \<open>auto intro!: keeps_intros covers_fresh_owner elim: fresh_in_parents\<close>)
  have name: "wok txt w (insert_guaranteed_unique ObjectName (KObj ob) v) (\<lambda>_ w'. fresh_in w' ob)"
    if "fresh_in w ob" for w v
    by (rule wok_weaken [OF wok_change [where K = "at_key ObjectName (KObj ob)"]])
      (use that in \<open>auto intro!: keeps_intros covers_elsewhere elim: fresh_in_parents\<close>)
  have flags: "wok txt w (insert_guaranteed_unique ObjectFlags (KObj ob) v) (\<lambda>_ _. True)" for w v
    by (rule wok_weaken [OF wok_change [where K = "at_key ObjectFlags (KObj ob)"]])
      (auto intro!: keeps_intros covers_elsewhere)
  have parent: "wok txt w (case attrs_parent attrs of None \<Rightarrow> wret ()
      | Some parent \<Rightarrow> wexpect (set_initial_object_parent ob parent)) (\<lambda>_ _. True)" if "fresh_in w ob" for w
    using that by (auto simp: fresh_in_def split: option.splits intro!: wok_ret wok_wexpect wok_set_initial_object_parent)
  have location: "wok txt w (case attrs_location attrs of None \<Rightarrow> wret ()
      | Some location \<Rightarrow> wexpect (set_initial_object_location ob location)) (\<lambda>_ _. True)" for w
    by (auto split: option.splits intro!: wok_ret wok_wexpect wok_weaken [OF wok_set_initial_object_location])
  show ?thesis
    unfolding insert_object_def
    by (rule wok_bind [OF wok_wexpect [OF owner [OF assms]]], rule wok_bind [OF wok_wexpect [OF name]], assumption,
        rule wok_bind [OF parent], assumption, rule wok_bind [OF location], rule wok_wexpect [OF flags])
qed

section \<open>Metadata\<close>

definition metadata_only :: "database_relation \<Rightarrow> db_key \<Rightarrow> bool" where
  "metadata_only r k \<longleftrightarrow> r = EntityMetadata"

lemma wkeeps_delete_metadata [keeps_intros]:
  assumes "\<And>k. K EntityMetadata k"
  shows "wkeeps K (delete_metadata_where P)" "wkeeps K (delete_metadata_for_obj ob)"
    "wkeeps K (delete_property_metadata_for_holder ob u)" "wkeeps K (delete_verb_metadata_for_holder ob u)"
proof -
  have "wkeeps K (delete_metadata_where Q)" for Q
    unfolding delete_metadata_where_def by (intro wkeeps_bind wkeeps_reads wkeeps_for wkeeps_writes assms)
  then show "wkeeps K (delete_metadata_where P)" "wkeeps K (delete_metadata_for_obj ob)"
    "wkeeps K (delete_property_metadata_for_holder ob u)" "wkeeps K (delete_verb_metadata_for_holder ob u)"
    by (simp_all add: delete_metadata_for_obj_def delete_property_metadata_for_holder_def delete_verb_metadata_for_holder_def)
qed

lemma wok_metadata:
  "wok txt w (set_metadata key v) (\<lambda>_ _. True)" "wok txt w (clear_metadata key) (\<lambda>_ _. True)"
  unfolding set_metadata_def clear_metadata_def
  by (rule wok_weaken [OF wok_change [where K = "at_key EntityMetadata key"]];
      auto intro!: keeps_intros covers_elsewhere)+

lemma wok_set_last_move: "wok txt w (set_last_move g ob l) (\<lambda>_ _. True)"
  unfolding set_last_move_def
  by (rule wok_weaken [OF wok_change [where K = "at_key ObjectLastMove (KObj ob)"]])
    (auto intro!: keeps_intros covers_elsewhere)

section \<open>Changes of verbs\<close>

text \<open>What an edit of the verbs of an object may change.\<close>

definition verb_keys :: "obj \<Rightarrow> database_relation \<Rightarrow> db_key \<Rightarrow> bool" where
  "verb_keys ob r k \<longleftrightarrow> r = ObjectVerbdefs \<and> k = KObj ob \<or> r = ObjectVerbs \<or> r = EntityMetadata"

lemma wok_edit_verbs:
  assumes "children_closed (parent_in w) (set os)" and "ob \<in> set os" and "wkeeps (verb_keys ob) body"
  shows "wok txt w (edit (EditVerbs os) body) (\<lambda>_ _. True)"
proof (rule wok_weaken [OF wok_edit [OF assms(3)]])
  assume "definers_local w"
  then show "covers (drop_verbs (EditVerbs os)) (drop_props (EditVerbs os)) (drop_lines (EditVerbs os))
      (drop_memo (EditVerbs os)) (verb_keys ob) w"
    by (intro covers_closed [OF assms(1)]) (use assms(2) in \<open>auto simp: verb_keys_def\<close>)
qed (auto simp: verb_keys_def)

lemma wok_update_verb: "wok txt w (update_verb ob u attrs) (\<lambda>_ _. True)"
  unfolding update_verb_def
  by (rule wok_bind [OF wok_branch])
    (auto intro!: wok_edit_verbs [of _ _ ob] keeps_intros simp: verb_keys_def)

lemma wok_add_object_verb: "wok txt w (add_object_verb u ob owner names program flags args) (\<lambda>_ _. True)"
  unfolding add_object_verb_def Let_def
  by (rule wok_bind [OF wok_get_verbs], simp, rule wok_bind [OF wok_branch])
    (auto intro!: wok_edit_verbs [of _ _ ob] keeps_intros simp: verb_keys_def)

lemma wok_delete_verb: "wok txt w (delete_verb ob u) (\<lambda>_ _. True)"
proof -
  have "wok txt w (wbind (branch_objects ob) (\<lambda>objects.
             edit (EditVerbs objects)
               (wbind (upsert ObjectVerbdefs (KObj ob) (VVerbdefs ds)) (\<lambda>_.
                  wbind (rel_delete ObjectVerbs (KVerb ob u)) (\<lambda>_.
                    delete_verb_metadata_for_holder ob u))))) (\<lambda>_ _. True)" for ds
    by (rule wok_bind [OF wok_branch])
      (auto intro!: wok_edit_verbs [of _ _ ob] keeps_intros simp: verb_keys_def)
  then show ?thesis
    unfolding delete_verb_def by (intro wok_bind [OF wok_get_verbs]) (auto split: option.splits intro: wok_fail)
qed

section \<open>Changes of properties\<close>

lemma wok_clear_property: "wok txt w (clear_property ob u) (\<lambda>_ _. True)"
  unfolding clear_property_def
  by (rule wok_weaken [OF wok_edit [where K = "at_key ObjectPropvalues (KProperty ob u)"]])
    (auto intro!: keeps_intros covers_elsewhere)

text \<open>Permissions that are inherited are not those of the definer.\<close>

lemma inherited_undefined:
  assumes "definers_local w" and "perms_are w ob u p" and "flags_in w ob u = None"
  shows "def_at w u ob = None"
proof (rule ccontr)
  assume "def_at w u ob \<noteq> None"
  then obtain d' where d': "def_at w u ob = Some d'" by blast
  from assms(2,3) obtain d c where f: "finds (parent_in w) (def_at w u) ob (Some d)"
    and c: "flags_in w (pd_definer d) u = Some c"
    by (auto simp: perms_are_def)
  have "d = d'"
    by (rule finds_unique [OF f, of "[]" ob]) (use d' in auto)
  with def_at_definer [OF assms(1) d'] c assms(3) show False by simp
qed

lemma wok_store_permissions:
  assumes "def_at w u ob = None"
  shows "wok txt w (edit (EditPermissions (ob, u)) (wbind (upsert ObjectPropflags (KProperty ob u) (VPerms p)) (\<lambda>_. wret ())))
    (\<lambda>_ w'. w' = w(ObjectPropflags := (w ObjectPropflags)(KProperty ob u := Some (VPerms p))))"
proof (rule wok_edit_upsert)
  assume "definers_local w"
  then show "covers (drop_verbs (EditPermissions (ob, u)))
      (drop_props (EditPermissions (ob, u))) (drop_lines (EditPermissions (ob, u)))
      (drop_memo (EditPermissions (ob, u))) (at_key ObjectPropflags (KProperty ob u)) w"
    by (rule covers_permissions [OF _ assms]) auto
qed simp

lemma wok_definers:
  assumes "definers_local w \<Longrightarrow> wok txt w m Q"
  shows "wok txt w m Q"
  using assms by (auto simp: wok_def winv_def)

lemma wok_set_property: "wok txt w (set_property nv ob u v) (\<lambda>_ _. True)"
proof -
  have store: "wok txt w (upsert ObjectPropvalues (KProperty ob u) v) (\<lambda>_ _. True)" for w
    by (rule wok_weaken [OF wok_change [where K = "at_key ObjectPropvalues (KProperty ob u)"]])
      (auto intro!: keeps_intros covers_elsewhere)
  have lazy: "wok txt w (wbind (retrieve_property_permissions ob u) (\<lambda>inherited_perms.
                     wbind (record_inherited_policy_dependency ob u) (\<lambda>_.
                       edit (EditPermissions (ob, u))
                         (wbind (upsert ObjectPropflags (KProperty ob u) (VPerms inherited_perms)) (\<lambda>_. wret ()))))) (\<lambda>_ _. True)"
    if "w ObjectPropflags (KProperty ob u) = None" for w
  proof (rule wok_definers)
    assume loc: "definers_local w"
    have "def_at w u ob = None" if "perms_are w ob u p" for p
      by (rule inherited_undefined [OF loc that]) (use \<open>w ObjectPropflags (KProperty ob u) = None\<close> in \<open>simp add: flags_in_def\<close>)
    then show "wok txt w (wbind (retrieve_property_permissions ob u) (\<lambda>inherited_perms.
                     wbind (record_inherited_policy_dependency ob u) (\<lambda>_.
                       edit (EditPermissions (ob, u))
                         (wbind (upsert ObjectPropflags (KProperty ob u) (VPerms inherited_perms)) (\<lambda>_. wret ()))))) (\<lambda>_ _. True)"
      by (intro wok_bind [OF wok_retrieve_property_permissions] wok_bind [OF wok_record_inherited])
        (auto intro!: wok_weaken [OF wok_store_permissions])
  qed
  have rest: "wok txt w (wbind (rel_has ObjectPropflags (KProperty ob u)) (\<lambda>has_local.
            wbind (if has_local then wret ()
                   else
                     wbind (retrieve_property_permissions ob u) (\<lambda>inherited_perms.
                     wbind (record_inherited_policy_dependency ob u) (\<lambda>_.
                       edit (EditPermissions (ob, u))
                         (wbind (upsert ObjectPropflags (KProperty ob u) (VPerms inherited_perms)) (\<lambda>_. wret ()))))) (\<lambda>_.
              wmodify (on_memo (\<lambda>m. mark_known_propflags m (ob, u)))))) (\<lambda>_ _. True)" for w
    by (rule wok_bind [OF wok_has], rule wok_bind [where Q = "\<lambda>_ _. True"])
      (auto intro!: wok_ret lazy wok_weaken [OF wok_mark_known(1)])
  show ?thesis
    unfolding set_property_def
    by (auto intro!: wok_fail wok_bind [OF store] wok_bind [OF wok_state [where P = "\<lambda>_. True"]] wok_ret rest)
qed

lemma wok_clear_local_property_permissions:
  assumes "def_at w u ob = None"
  shows "wok txt w (clear_local_property_permissions ob u) (\<lambda>_ _. True)"
proof -
  have "wok txt w (edit (EditPermissions (ob, u)) (wbind (rel_delete ObjectPropflags (KProperty ob u)) (\<lambda>_. wret ()))) (\<lambda>_ _. True)"
    by (rule wok_weaken [OF wok_edit [where K = "at_key ObjectPropflags (KProperty ob u)"]])
      (use assms in \<open>auto intro!: keeps_intros intro: covers_permissions\<close>)
  then show ?thesis
    unfolding clear_local_property_permissions_def
    by (rule wok_bind) (auto intro!: wok_weaken [OF wok_mark_known(2)])
qed

subsection \<open>Definitions stay with their definer\<close>

definition wdefs :: "('x, 'a) wm \<Rightarrow> bool" where
  "wdefs m \<longleftrightarrow> (\<forall>t t' r. wt_ok t \<longrightarrow> definers_local (world t) \<longrightarrow> m t = Some (t', r) \<longrightarrow>
     wt_ok t' \<and> definers_local (world t'))"

lemma wdefs_keeps:
  assumes "wkeeps K m" and "\<And>x. \<not> K ObjectPropdefs (KObj x)"
  shows "wdefs m"
  unfolding wdefs_def
proof (intro allI impI)
  fix t t' r
  assume "wt_ok t" and loc: "definers_local (world t)" and "m t = Some (t', r)"
  with assms(1) have k: "keeps K t t'" by (auto intro: wkeepsD)
  then have "world t' ObjectPropdefs (KObj x) = world t ObjectPropdefs (KObj x)" for x
    using assms(2) by (simp add: keeps_def)
  with loc have "definers_local (world t')" by (rule definers_unchanged)
  with k show "wt_ok t' \<and> definers_local (world t')" by (simp add: keeps_ok)
qed

lemma wdefs_bind:
  assumes "wdefs m" and "\<And>a. wdefs (f a)"
  shows "wdefs (wbind m f)"
  unfolding wdefs_def
proof (intro allI impI)
  fix t t' r
  assume ok: "wt_ok t" "definers_local (world t)" and "wbind m f t = Some (t', r)"
  then obtain t1 r1 where m: "m t = Some (t1, r1)"
    and f: "case r1 of Inl e \<Rightarrow> t' = t1 \<and> r = Inl e | Inr a \<Rightarrow> f a t1 = Some (t', r)"
    by (auto simp: wbind_eq_Some)
  from assms(1) ok m have "wt_ok t1 \<and> definers_local (world t1)" unfolding wdefs_def by blast
  with f assms(2) show "wt_ok t' \<and> definers_local (world t')"
    unfolding wdefs_def by (cases r1) auto
qed

lemma wdefs_ret: "wdefs (wret a)" "wdefs (wfail e)"
  by (auto simp: wdefs_def wret_def wfail_def)

lemma wdefs_for: "(\<And>x. wdefs (f x)) \<Longrightarrow> wdefs (wfor f xs)"
proof -
  assume f: "\<And>x. wdefs (f x)"
  have "wdefs (wfold (\<lambda>x _. wbind (f x) (\<lambda>_. wret ())) xs a)" for a
    by (induction xs arbitrary: a) (simp_all add: wdefs_ret wdefs_bind f)
  then show ?thesis by (simp add: wfor_def)
qed

lemma rel_upsert_with_cases:
  assumes "wt_ok t" and "rel_upsert_with r k f t = Some (t', res)"
  shows "world t' = world t \<or> (\<exists>v. f (world t r k) = Some v \<and> world t' = (world t)(r := (world t r)(k := Some v)))"
proof -
  have ok: "rt_ok (wt_rel t r)" using assms(1) by (simp add: wt_ok_def rel_ok_def)
  let ?rt = "wt_rel t r"
  have t': "t' = t\<lparr>wt_rel := (wt_rel t)(r := fst (rt_upsert_with ?rt k f))\<rparr>"
    using assms(2) by (auto simp: rel_upsert_with_def rel_lift_def split: prod.splits)
  have "map_prod rt_view (\<lambda>r. r) (rt_upsert_with ?rt k f) = spec_upsert_with (rt_view ?rt) k f"
    by (rule rt_upsert_with_refines)
  then have "rt_view (fst (rt_upsert_with ?rt k f)) = fst (spec_upsert_with (rt_view ?rt) k f)"
    by (metis fst_map_prod)
  then have "rt_view (fst (rt_upsert_with ?rt k f)) = rt_view ?rt
      \<or> (\<exists>v. f (world t r k) = Some v \<and> rt_view (fst (rt_upsert_with ?rt k f)) = (rt_view ?rt)(k := Inr (Some v)))"
    by (auto simp: spec_upsert_with_def world_def split: sum.splits option.splits)
  then show ?thesis
  proof (elim disjE exE conjE)
    assume "rt_view (fst (rt_upsert_with ?rt k f)) = rt_view ?rt"
    then have "world t' = world t" by (auto simp: t' world_def fun_eq_iff)
    then show ?thesis ..
  next
    fix v
    assume v: "f (world t r k) = Some v" and "rt_view (fst (rt_upsert_with ?rt k f)) = (rt_view ?rt)(k := Inr (Some v))"
    then have "world t' = (world t)(r := (world t r)(k := Some v))" by (auto simp: t' world_def fun_eq_iff)
    with v show ?thesis by blast
  qed
qed

lemma upsert_as_upsert_with:
  assumes "wt_ok t" and "upsert r k v t = Some (t', res)"
  shows "world t' = world t \<or> world t' = (world t)(r := (world t r)(k := Some v))"
proof -
  have ok: "rt_ok (wt_rel t r)" using assms(1) by (simp add: wt_ok_def rel_ok_def)
  have t': "t' = t\<lparr>wt_rel := (wt_rel t)(r := fst (rt_upsert (wt_rel t r) k v))\<rparr>"
    using assms(2) by (auto simp: upsert_def rel_lift_def split: prod.splits)
  show ?thesis
    using rt.upsert_ok [OF ok] rt.upsert_error [OF ok]
    by (cases "rt_view (wt_rel t r) k") (auto simp: t' world_def fun_eq_iff)
qed

lemma definers_update:
  assumes "definers_local w" and "\<forall>d \<in> set ds. pd_definer d = x"
  shows "definers_local (w(ObjectPropdefs := (w ObjectPropdefs)(KObj x := Some (VPropdefs ds))))"
  using assms by (auto simp: definers_local_def props_in_def)

lemma wdefs_upsert: "\<forall>d \<in> set ds. pd_definer d = x \<Longrightarrow> wdefs (upsert ObjectPropdefs (KObj x) (VPropdefs ds))"
  unfolding wdefs_def
  using upsert_as_upsert_with definers_update wkeepsD [OF wkeeps_writes(1) [where K = "\<lambda>_ _. True"]] keeps_ok
  by (metis (no_types, lifting))

text \<open>An update of the definitions that keeps their definers.\<close>

lemma wdefs_update_with:
  assumes "\<And>ds ds'. g ds = Some ds' \<Longrightarrow> pd_definer ` set ds' \<subseteq> pd_definer ` set ds"
  shows "wdefs (rel_update_with ObjectPropdefs (KObj x) (\<lambda>v. Option.bind (value_propdefs v) (\<lambda>ds. map_option VPropdefs (g ds))))"
  unfolding wdefs_def
proof (intro allI impI)
  fix t t' r
  let ?f = "\<lambda>v. Option.bind (value_propdefs v) (\<lambda>ds. map_option VPropdefs (g ds))"
  assume ok: "wt_ok t" and loc: "definers_local (world t)" and m: "rel_update_with ObjectPropdefs (KObj x) ?f t = Some (t', r)"
  then have m': "rel_upsert_with ObjectPropdefs (KObj x) (\<lambda>current. Option.bind current ?f) t = Some (t', r)"
    by (simp add: rel_update_with_def rel_upsert_with_def rt_update_with_def)
  have "wt_ok t'"
    using wkeepsD [OF wkeeps_writes(6) [where K = "\<lambda>_ _. True"] ok m] keeps_ok by blast
  moreover from rel_upsert_with_cases [OF ok m'] have "definers_local (world t')"
  proof (elim disjE exE conjE)
    fix v
    assume v: "Option.bind (world t ObjectPropdefs (KObj x)) ?f = Some v"
      and w': "world t' = (world t)(ObjectPropdefs := (world t ObjectPropdefs)(KObj x := Some v))"
    from v obtain ds ds' where ds: "props_in (world t) x = ds" and g: "g ds = Some ds'" and v': "v = VPropdefs ds'"
      by (auto simp: props_in_def bind_eq_Some_conv)
    have "\<forall>d \<in> set ds. pd_definer d = x" using loc ds by (auto simp: definers_local_def)
    with assms [OF g] have "\<forall>d \<in> set ds'. pd_definer d = x" by fastforce
    from definers_update [OF loc this] show ?thesis by (simp add: w' v')
  qed (use loc in simp)
  ultimately show "wt_ok t' \<and> definers_local (world t')" by simp
qed

subsection \<open>Edits of properties\<close>

definition prop_keys :: "obj set \<Rightarrow> database_relation \<Rightarrow> db_key \<Rightarrow> bool" where
  "prop_keys S r k \<longleftrightarrow> (r = ObjectPropdefs \<or> r = ObjectPropflags) \<and> key_obj k \<in> S \<or> r = EntityMetadata"

lemma wok_edit_props:
  assumes "children_closed (parent_in w) (set os)" and "wkeeps (prop_keys (set os)) body" and "wdefs body"
  shows "wok txt w (edit (EditProperties os removed) body) (\<lambda>_ w'. \<forall>k. w' ObjectParent k = w ObjectParent k)"
proof (rule wok_weaken [OF wok_edit_defs [OF assms(2)]])
  assume "definers_local w"
  then show "covers (drop_verbs (EditProperties os removed)) (drop_props (EditProperties os removed))
      (drop_lines (EditProperties os removed)) (drop_memo (EditProperties os removed)) (prop_keys (set os)) w"
    by (intro covers_closed [OF assms(1)]) (auto simp: prop_keys_def)
next
  fix t t' r
  assume "wt_ok t" and "definers_local (world t)" and "body t = Some (t', r)"
  with assms(3) show "definers_local (world t')" unfolding wdefs_def by blast
qed (auto simp: prop_keys_def)

lemma children_closed_cong:
  "(\<forall>k. w' ObjectParent k = w ObjectParent k) \<Longrightarrow> children_closed (parent_in w') S = children_closed (parent_in w) S"
  by (simp add: children_closed_def climbs_def parent_in_def)

lemma wok_define_property: "wok txt w (define_property nv u ob ob name owner perms v) (\<lambda>_ _. True)"
proof (rule wok_definers)
  assume loc: "definers_local w"
  have check: "wok txt w (check_undefined name xs) (\<lambda>_ w'. w' = w)" for xs
    by (induction xs) (auto intro!: wok_ret wok_fail wok_bind [OF wok_get_properties])
  have ed: "wok txt w (edit (EditProperties (below @ [ob]) None)
        (wbind (upsert ObjectPropdefs (KObj ob) (VPropdefs (defs_with_added (props_in w ob) (propdef_new u ob ob name)))) (\<lambda>_.
           wbind (upsert ObjectPropflags (KProperty ob u) (VPerms (prop_perms_new owner perms))) (\<lambda>_. wret ()))))
      (\<lambda>_ _. True)"
    if "children_closed (parent_in w) (insert ob (set below))" for below
  proof (rule wok_weaken [OF wok_edit_props])
    have "\<forall>d \<in> set (defs_with_added (props_in w ob) (propdef_new u ob ob name)). pd_definer d = ob"
      using loc by (auto simp: definers_local_def defs_with_added_def propdef_new_def)
    moreover have "wdefs (upsert ObjectPropflags (KProperty ob u) (VPerms p))" for p
      by (rule wdefs_keeps [OF wkeeps_writes(1) [where K = "at_key ObjectPropflags (KProperty ob u)"]]) auto
    ultimately show "wdefs (wbind (upsert ObjectPropdefs (KObj ob) (VPropdefs (defs_with_added (props_in w ob) (propdef_new u ob ob name)))) (\<lambda>_.
           wbind (upsert ObjectPropflags (KProperty ob u) (VPerms (prop_perms_new owner perms))) (\<lambda>_. wret ())))"
      by (intro wdefs_bind wdefs_upsert wdefs_ret)
  qed (use that in \<open>auto intro!: keeps_intros simp: prop_keys_def\<close>)
  have last: "wok txt w' (case v of None \<Rightarrow> wret () | Some v \<Rightarrow> set_property nv ob u v) (\<lambda>_ _. True)" for w'
    by (auto split: option.splits intro!: wok_ret wok_set_property)
  show "wok txt w (define_property nv u ob ob name owner perms v) (\<lambda>_ _. True)"
    unfolding define_property_def
    by (auto simp del: split_paired_All intro!: wok_fail wok_ret wok_bind [OF wok_get_properties] wok_bind [OF wok_ancestors]
        wok_bind [OF check] wok_bind [OF wok_descendants] wok_bind [OF ed] wok_bind [OF wok_mark_known(1)] wok_bind [OF last])
qed

lemma wok_rename_property:
  assumes "children_closed (parent_in w) (set os)" and "ob \<in> set os"
  shows "wok txt w (rename_property os ob u name) (\<lambda>_ w'. \<forall>k. w' ObjectParent k = w ObjectParent k)"
  unfolding rename_property_def
proof (rule wok_edit_props [OF assms(1)])
  have upd: "wdefs (rel_update_with ObjectPropdefs (KObj ob) (\<lambda>v.
                 Option.bind (value_propdefs v) (\<lambda>props.
                   map_option VPropdefs (defs_with_updated pd_uuid props u
                     (\<lambda>p. propdef_new (pd_uuid p) (pd_definer p) (pd_location p) name)))))"
    by (rule wdefs_update_with) (auto simp: defs_with_updated_def Let_def propdef_new_def split: if_splits)
  show "wdefs (wbind (rel_update_with ObjectPropdefs (KObj ob) (\<lambda>v.
                 Option.bind (value_propdefs v) (\<lambda>props.
                   map_option VPropdefs (defs_with_updated pd_uuid props u
                     (\<lambda>p. propdef_new (pd_uuid p) (pd_definer p) (pd_location p) name))))) (\<lambda>updated.
          case Option.bind updated value_propdefs of
            None \<Rightarrow> wfail (PropertyNotFound ob)
          | Some props \<Rightarrow>
              if defs_find pd_uuid props u = None then wfail (PropertyNotFound ob) else wret ()))"
    by (rule wdefs_bind [OF upd]) (auto split: option.splits intro: wdefs_ret)
qed (use assms(2) in \<open>auto intro!: keeps_intros simp: prop_keys_def\<close>)

lemma wok_update_property_info: "wok txt w (update_property_info ob u new_owner new_flags new_name) (\<lambda>_ _. True)"
proof -
  have rename: "wok txt w (case new_name of None \<Rightarrow> wret () | Some name \<Rightarrow> rename_property os ob u name)
      (\<lambda>_ w'. children_closed (parent_in w') (set os))"
    if "children_closed (parent_in w) (set os)" "ob \<in> set os" for os
    by (auto split: option.splits intro!: wok_ret wok_weaken [OF wok_rename_property] simp: that
        intro: children_closed_cong [THEN iffD2, OF _ that(1)])
  have store: "wok txt w' (edit (EditProperties os None) (wbind (upsert ObjectPropflags (KProperty ob u) (VPerms p)) (\<lambda>_. wret ())))
      (\<lambda>_ _. True)"
    if "children_closed (parent_in w') (set os)" "ob \<in> set os" for w' os p
  proof (rule wok_weaken [OF wok_edit_props [OF that(1)]])
    have "wdefs (upsert ObjectPropflags (KProperty ob u) (VPerms p))"
      by (rule wdefs_keeps [OF wkeeps_writes(1) [where K = "at_key ObjectPropflags (KProperty ob u)"]]) auto
    then show "wdefs (wbind (upsert ObjectPropflags (KProperty ob u) (VPerms p)) (\<lambda>_. wret ()))"
      by (intro wdefs_bind wdefs_ret)
  qed (use that in \<open>auto intro!: keeps_intros simp: prop_keys_def\<close>)
  have perms: "wok txt w' (if new_flags = None \<and> new_owner = None then wret ()
          else
            wbind (record_inherited_policy_dependency ob u) (\<lambda>_.
            wbind (retrieve_property_permissions ob u) (\<lambda>perms.
              let perms1 = (case new_flags of None \<Rightarrow> perms | Some flags \<Rightarrow> prop_perms_with_flags perms flags);
                  perms2 = (case new_owner of None \<Rightarrow> perms1 | Some owner \<Rightarrow> prop_perms_with_owner perms1 owner)
              in wbind (edit (EditProperties os None)
                          (wbind (upsert ObjectPropflags (KProperty ob u) (VPerms perms2)) (\<lambda>_. wret ()))) (\<lambda>_.
                   wmodify (on_memo (\<lambda>m. mark_known_propflags m (ob, u))))))) (\<lambda>_ _. True)"
    if "children_closed (parent_in w') (set os)" "ob \<in> set os" for w' os
    unfolding Let_def
    by (auto intro!: wok_ret wok_bind [OF wok_record_inherited] wok_bind [OF wok_retrieve_property_permissions]
        wok_bind [OF store] wok_weaken [OF wok_mark_known(1)] that simp del: not_None_eq)
  show ?thesis
  proof (cases "new_owner = None \<and> new_flags = None \<and> new_name = None")
    case False
    show ?thesis
      unfolding update_property_info_def if_not_P [OF False]
      by (intro wok_bind [OF wok_branch], elim conjE, hypsubst, rule wok_bind [OF rename], assumption, assumption,
          rule perms)
  qed (auto simp: update_property_info_def intro: wok_ret)
qed

lemma wok_delete_property: "wok txt w (delete_property ob u) (\<lambda>_ _. True)"
proof -
  have upd: "wdefs (rel_update_with ObjectPropdefs (KObj x) (\<lambda>v.
      Option.bind (value_propdefs v) (\<lambda>props. map_option VPropdefs (defs_with_removed pd_uuid props u))))" for x
    by (rule wdefs_update_with) (auto simp: defs_with_removed_def)
  have meta: "wdefs (delete_property_metadata_for_holder x u)" for x
    by (rule wdefs_keeps [where K = metadata_only]) (auto intro: keeps_intros simp: metadata_only_def)
  have ed: "wok txt w (edit (EditProperties (ob # below) (Some u))
         (wfor (\<lambda>location.
             wbind (rel_update_with ObjectPropdefs (KObj location) (\<lambda>v.
                      Option.bind (value_propdefs v) (\<lambda>props.
                        map_option VPropdefs (defs_with_removed pd_uuid props u)))) (\<lambda>_.
               delete_property_metadata_for_holder location u)) (ob # below))) (\<lambda>_ _. True)"
    if "children_closed (parent_in w) (insert ob (set below))" for below
    by (rule wok_weaken [OF wok_edit_props])
      (use that in \<open>auto intro!: wkeeps_for wdefs_for wdefs_bind upd meta keeps_intros simp: prop_keys_def\<close>)
  show ?thesis
    unfolding delete_property_def by (rule wok_bind [OF wok_descendants]) (auto intro: ed)
qed

section \<open>The owner of an object\<close>

text \<open>The holders whose permissions are to be stored inherit them.\<close>

definition to_preserve :: "'x world \<Rightarrow> obj \<Rightarrow> (property_key \<times> prop_perms) list \<Rightarrow> bool" where
  "to_preserve w ob preserved \<longleftrightarrow> (\<forall>x \<in> set preserved. fst (fst x) = ob \<and> def_at w (snd (fst x)) ob = None)"

lemma to_preserve_Nil: "to_preserve w ob []"
  by (simp add: to_preserve_def)

lemma wok_preserve_property:
  assumes "to_preserve w ob preserved"
  shows "wok txt w (preserve_property ob d preserved) (\<lambda>ps w'. w' = w \<and> to_preserve w ob ps)"
proof (rule wok_definers)
  assume loc: "definers_local w"
  have "def_at w (pd_uuid d) ob = None"
    if "w ObjectPropflags (KProperty ob (pd_uuid d)) = None" "perms_are w ob (pd_uuid d) p" for p
    by (rule inherited_undefined [OF loc that(2)]) (use that(1) in \<open>simp add: flags_in_def\<close>)
  then show "wok txt w (preserve_property ob d preserved) (\<lambda>ps w'. w' = w \<and> to_preserve w ob ps)"
    using assms unfolding preserve_property_def Let_def
    by (intro wok_bind [OF wok_policy_reads(1)] wok_bind [OF wok_has])
      (auto intro!: wok_ret wok_bind [OF wok_record_inherited] wok_bind [OF wok_retrieve_property_permissions]
        simp: to_preserve_def split: if_splits)
qed

lemma def_at_propflags [simp]: "def_at (w(ObjectPropflags := f)) u x = def_at w u x"
  by (simp add: def_at_def props_in_def)

lemma wok_set_object_owner: "wok txt w (set_object_owner ob owner) (\<lambda>_ _. True)"
proof -
  have props: "wok txt w' (wfold (preserve_property ob) ds ps) (\<lambda>ps w''. w'' = w \<and> to_preserve w ob ps)"
    if "w' = w \<and> to_preserve w ob ps" for ds ps w'
    by (rule wok_fold [where I = "\<lambda>ps w'. w' = w \<and> to_preserve w ob ps"])
      (use that in \<open>auto intro: wok_preserve_property\<close>)
  have line: "wok txt w (wfold (\<lambda>ancestor preserved.
        wbind (get_properties ancestor) (\<lambda>props. wfold (preserve_property ob) props preserved)) xs [])
      (\<lambda>ps w'. w' = w \<and> to_preserve w ob ps)" for xs
    by (rule wok_fold [where I = "\<lambda>ps w'. w' = w \<and> to_preserve w ob ps"])
      (auto intro!: wok_bind [OF wok_get_properties] props to_preserve_Nil)
  have store: "wok txt w (wfor (\<lambda>(holder, perms).
        wbind (edit (EditPermissions holder)
                 (wbind (upsert ObjectPropflags (KProperty (fst holder) (snd holder)) (VPerms perms)) (\<lambda>_. wret ()))) (\<lambda>_.
          wmodify (on_memo (\<lambda>m. mark_known_propflags m holder)))) ps) (\<lambda>_ _. True)"
    if "to_preserve w ob ps" for ps
  proof (rule wok_weaken [OF wok_for [where I = "\<lambda>w. to_preserve w ob ps"]])
    fix x w
    assume x: "x \<in> set ps" and pres: "to_preserve w ob ps"
    define u p where "u = snd (fst x)" and "p = snd x"
    have "fst (fst x) = ob" and "def_at w u ob = None"
      using x pres by (auto simp: to_preserve_def u_def)
    then have xe: "x = ((ob, u), p)" by (simp add: prod_eq_iff u_def p_def)
    have after: "to_preserve (w(ObjectPropflags := f)) ob ps" for f
      using pres by (simp add: to_preserve_def)
    show "wok txt w (case x of (holder, perms) \<Rightarrow>
        wbind (edit (EditPermissions holder)
                 (wbind (upsert ObjectPropflags (KProperty (fst holder) (snd holder)) (VPerms perms)) (\<lambda>_. wret ()))) (\<lambda>_.
          wmodify (on_memo (\<lambda>m. mark_known_propflags m holder)))) (\<lambda>_ w. to_preserve w ob ps)"
      unfolding xe
      by (simp, rule wok_bind [OF wok_store_permissions [OF \<open>def_at w u ob = None\<close>]])
        (auto intro!: wok_weaken [OF wok_mark_known(1)] after)
  qed (use that in simp_all)
  have owner: "wok txt w' (edit (EditOwner ob) (wbind (upsert ObjectOwner (KObj ob) (VObj owner)) (\<lambda>_. wret ()))) (\<lambda>_ _. True)" for w'
    by (rule wok_weaken [OF wok_edit_upsert]) (auto intro: covers_owner)
  show ?thesis
    unfolding set_object_owner_def
    by (auto intro!: wok_bind [OF wok_read] wok_ret wok_bind [OF wok_ancestors] wok_bind [OF wok_policy_reads(2)]
        wok_bind [OF line] wok_bind [OF store] owner simp del: filter.simps fold.simps)
qed

section \<open>Recycling\<close>

definition object_keys :: "obj set \<Rightarrow> database_relation \<Rightarrow> db_key \<Rightarrow> bool" where
  "object_keys S r k \<longleftrightarrow> key_obj k \<in> S \<and> r \<noteq> ObjectPropflags \<or> r = EntityMetadata \<or> r = ObjectLocation"

lemma wok_edit_remove:
  assumes closed: "children_closed (parent_in w) (set os)" and "wkeeps (object_keys (set os)) body" and "wdefs body"
  shows "wok txt w (edit (EditRemove os removed) body) (\<lambda>_ _. True)"
proof (rule wok_weaken [OF wok_edit_defs [OF assms(2)]])
  assume "definers_local w"
  then show "covers (drop_verbs (EditRemove os removed)) (drop_props (EditRemove os removed))
      (drop_lines (EditRemove os removed)) (drop_memo (EditRemove os removed)) (object_keys (set os)) w"
    by (intro covers_closed [OF closed]) (auto simp: object_keys_def)
next
  fix t t' r
  assume "wt_ok t" and "definers_local (world t)" and "body t = Some (t', r)"
  with assms(3) show "definers_local (world t')" unfolding wdefs_def by blast
qed auto

lemma definers_removed: "definers_local w \<Longrightarrow> definers_local (w(ObjectPropdefs := (w ObjectPropdefs)(k := None)))"
  by (auto simp: definers_local_def props_in_def)

lemma wdefs_delete: "wdefs (rel_delete r k)"
proof (cases "r = ObjectPropdefs")
  case False
  then show ?thesis by (intro wdefs_keeps [OF wkeeps_writes(3) [where K = "at_key r k"]]) auto
next
  case True
  show ?thesis
    unfolding wdefs_def
  proof (intro allI impI)
    fix t t' res
    assume ok: "wt_ok t" and loc: "definers_local (world t)" and m: "rel_delete r k t = Some (t', res)"
    have "rt_ok (wt_rel t r)" using ok by (simp add: wt_ok_def rel_ok_def)
    note del = rt.delete_ok [OF this] rt.delete_error [OF this]
    have t': "t' = t\<lparr>wt_rel := (wt_rel t)(r := fst (rt_delete (wt_rel t r) k))\<rparr>"
      using m by (auto simp: rel_delete_def rel_lift_def split: prod.splits)
    have "world t' = world t \<or> world t' = (world t)(r := (world t r)(k := None))"
      using del by (cases "rt_view (wt_rel t r) k") (auto simp: t' world_def fun_eq_iff)
    with loc definers_removed [OF loc, of k] have "definers_local (world t')" by (auto simp: True)
    moreover have "wt_ok t'"
      using wkeepsD [OF wkeeps_writes(3) [where K = "\<lambda>_ _. True"] ok m] keeps_ok by blast
    ultimately show "wt_ok t' \<and> definers_local (world t')" by simp
  qed
qed

lemma wtry_eq_Some: "wtry m t = Some (t', r) \<longleftrightarrow> (\<exists>r1. m t = Some (t', r1) \<and> r = Inr r1)"
  by (auto simp: wtry_def split: option.splits)

lemma wdefs_try: "wdefs m \<Longrightarrow> wdefs (wtry m)"
  unfolding wdefs_def wtry_eq_Some by blast

lemma wdefs_metadata: "wdefs (delete_metadata_for_obj ob)"
  by (rule wdefs_keeps [where K = metadata_only]) (auto intro: keeps_intros simp: metadata_only_def)

lemmas wdefs_intros = wdefs_bind wdefs_for wdefs_ret wdefs_delete wdefs_try wdefs_metadata

lemma wok_recycle_object:
  assumes "parent_in w ob \<noteq> ob"
  shows "wok txt w (recycle_object ob) (\<lambda>_ _. True)"
proof -
  text \<open>Children yet to be moved are those of the list.\<close>
  let ?left = "\<lambda>cs w'. parent_in w ob \<noteq> ob \<and> (\<forall>c. climbs (parent_in w') c ob \<longrightarrow> c \<in> set cs)"
  have contents: "wok txt w (wfor (\<lambda>c. set_object_location c NOTHING) xs) (\<lambda>_ w'. \<forall>k. w' ObjectParent k = w ObjectParent k)" for xs
    by (rule wok_for [where I = "\<lambda>w'. \<forall>k. w' ObjectParent k = w ObjectParent k"])
      (auto intro!: wok_weaken [OF wok_set_object_location])
  have move: "?left cs w'" if "?left (c # cs) w1"
    "w' = w1 \<and> parent_in w1 c = parent_in w ob \<or> w' = w1(ObjectParent := (w1 ObjectParent)(KObj c := Some (VObj (parent_in w ob))))"
    for c cs w1 w'
  proof -
    have p: "parent_in w' x = (if x = c then parent_in w ob else parent_in w1 x)" for x
      using that(2) by (auto simp: parent_in_def)
    show ?thesis using that(1) by (auto simp: climbs_def p split: if_splits)
  qed
  have children: "wok txt w1 (wfor (\<lambda>c. set_object_parent c (parent_in w ob)) cs) (\<lambda>_. ?left [])" if "?left cs w1" for cs w1
    using that
  proof (induction cs arbitrary: w1)
    case Nil
    then show ?case by (simp add: wfor_def wok_ret)
  next
    case (Cons c cs)
    have "wok txt w1 (set_object_parent c (parent_in w ob)) (\<lambda>_. ?left cs)"
      by (rule wok_weaken [OF wok_set_object_parent]) (rule move [OF Cons.prems], blast)
    then have "wok txt w1 (wbind (set_object_parent c (parent_in w ob)) (\<lambda>_. wret ())) (\<lambda>_. ?left cs)"
      by (rule wok_bind) (simp add: wok_ret)
    from wok_bind [OF this, of "\<lambda>_. wfor (\<lambda>c. set_object_parent c (parent_in w ob)) cs"] Cons.IH show ?case
      by (simp add: wfor_def)
  qed
  have ed: "wok txt w1 (edit (EditRemove [ob] [ob])
         (wbind (wfor (\<lambda>r. rel_delete r (KObj ob))
                   [ObjectParent, ObjectLocation, ObjectFlags, ObjectName, ObjectOwner, ObjectParent, ObjectLocation]) (\<lambda>_.
          wbind (delete_metadata_for_obj ob) (\<lambda>_.
          wbind (rel_delete ObjectVerbdefs (KObj ob)) (\<lambda>_.
          wbind (wfor (\<lambda>p. rel_delete ObjectPropvalues (KProperty ob (pd_uuid p))) ds) (\<lambda>_.
          wbind (wtry (rel_delete ObjectPropdefs (KObj ob))) (\<lambda>_. wret ()))))))) (\<lambda>_ _. True)"
    if "?left [] w1" for w1 ds
  proof (rule wok_edit_remove)
    show "children_closed (parent_in w1) (set [ob])" using that by (auto simp: children_closed_def)
  qed (auto intro!: wkeeps_for keeps_intros wdefs_intros simp: object_keys_def)
  have start: "?left cs w1" if "\<forall>k. w1 ObjectParent k = w ObjectParent k" "\<forall>c. climbs (parent_in w) c ob \<longrightarrow> c \<in> set cs" for cs w1
    using that assms by (simp add: climbs_def parent_in_def)
  have rest: "wok txt w1 (wbind (get_properties ob) (\<lambda>propdefs. edit (EditRemove [ob] [ob])
         (wbind (wfor (\<lambda>r. rel_delete r (KObj ob))
                   [ObjectParent, ObjectLocation, ObjectFlags, ObjectName, ObjectOwner, ObjectParent, ObjectLocation]) (\<lambda>_.
          wbind (delete_metadata_for_obj ob) (\<lambda>_.
          wbind (rel_delete ObjectVerbdefs (KObj ob)) (\<lambda>_.
          wbind (wfor (\<lambda>p. rel_delete ObjectPropvalues (KProperty ob (pd_uuid p))) propdefs) (\<lambda>_.
          wbind (wtry (rel_delete ObjectPropdefs (KObj ob))) (\<lambda>_. wret ())))))))) (\<lambda>_ _. True)" if "?left [] w1" for w1
    by (rule wok_bind [OF wok_get_properties], elim conjE, hypsubst, rule ed [OF that])
  have cont: "wok txt w (get_object_contents ob) (\<lambda>_ w'. w' = w)"
    unfolding get_object_contents_def by (rule wok_unchanged) (intro keeps_intros wkeeps_by_codomain, simp)
  show ?thesis
    unfolding recycle_object_def
    by (rule wok_bind [OF cont], hypsubst, rule wok_bind [OF wok_get_parent], elim conjE, hypsubst,
        rule wok_bind [OF wok_children], elim conjE, hypsubst, rule wok_bind [OF contents],
        rule wok_bind [OF children], rule start, assumption, assumption, rule rest)
qed

lemma wok_contents: "wok txt w (get_object_contents ob) (\<lambda>_ w'. w' = w)"
  unfolding get_object_contents_def by (rule wok_unchanged) (intro keeps_intros wkeeps_by_codomain, simp)

text \<open>The plan names every child of the objects, and their own properties.\<close>

definition plan_ok :: "'x world \<Rightarrow> obj set \<Rightarrow> recycle_plan \<Rightarrow> bool" where
  "plan_ok w S plan \<longleftrightarrow> (\<forall>ob \<in> S. \<forall>c. climbs (parent_in w) c ob \<longrightarrow> c \<in> fst ` set (children_to_reparent plan))
     \<and> fst ` set (properties_to_delete plan) \<subseteq> S"

lemma wok_plan_recycle:
  assumes "plan_ok w S plan"
  shows "wok txt w (plan_recycle ob plan) (\<lambda>plan' w'. w' = w \<and> plan_ok w (insert ob S) plan')"
  unfolding plan_recycle_def
  by (auto intro!: wok_bind [OF wok_contents] wok_bind [OF wok_get_parent] wok_bind [OF wok_children]
      wok_bind [OF wok_get_properties] wok_ret)
    (use assms in \<open>auto simp: plan_ok_def image_Un image_image\<close>)

lemma wok_plan_recycle_all:
  assumes "plan_ok w S plan"
  shows "wok txt w (wfold plan_recycle objects plan) (\<lambda>plan' w'. w' = w \<and> plan_ok w (S \<union> set objects) plan')"
  using assms
proof (induction objects arbitrary: S plan)
  case Nil
  then show ?case by (simp add: wok_ret)
next
  case (Cons ob objects)
  show ?case
    by (simp, rule wok_bind [OF wok_plan_recycle [OF Cons.prems]], elim conjE, hypsubst,
        rule wok_weaken [OF Cons.IH]) auto
qed

text \<open>The affected objects: those to be recycled and the branches of the children moved so far.\<close>

definition affected_ok :: "'x world \<Rightarrow> obj list \<Rightarrow> obj set \<Rightarrow> obj list \<Rightarrow> bool" where
  "affected_ok w objects S affected \<longleftrightarrow> set objects \<subseteq> set affected \<and> S \<subseteq> set affected
     \<and> (\<forall>c p. climbs (parent_in w) c p \<longrightarrow> p \<in> set affected \<longrightarrow> p \<in> set objects \<or> c \<in> set affected)"

lemma wok_affected:
  assumes "affected_ok w objects S affected"
  shows "wok txt w (wfold (\<lambda>(child, _) affected.
      wbind (branch_objects child) (\<lambda>branch. wret (affected @ branch))) cs affected)
    (\<lambda>affected' w'. w' = w \<and> affected_ok w objects (S \<union> fst ` set cs) affected')"
  using assms
proof (induction cs arbitrary: S affected)
  case Nil
  then show ?case by (simp add: wok_ret)
next
  case (Cons c cs)
  obtain child x where c: "c = (child, x)" by (cases c)
  have step: "affected_ok w objects (insert child S) (affected @ branch)"
    if "children_closed (parent_in w) (set branch)" "child \<in> set branch" for branch
    using Cons.prems that by (auto simp: affected_ok_def children_closed_def)
  have "wok txt w (wbind (branch_objects child) (\<lambda>branch. wret (affected @ branch)))
      (\<lambda>affected' w'. w' = w \<and> affected_ok w objects (insert child S) affected')"
    by (rule wok_bind [OF wok_branch]) (use step in \<open>auto intro!: wok_ret\<close>)
  then show ?case
    by (simp add: c, rule wok_bind) (elim conjE, hypsubst, rule wok_weaken [OF Cons.IH], auto)
qed

lemma delete_core_keeps: "ob \<in> S \<Longrightarrow> wkeeps (object_keys S) (delete_core ob)"
  unfolding delete_core_def
  by (intro wkeeps_bind wkeeps_for wkeeps_wtry wkeeps_writes wkeeps_ret wkeeps_delete_metadata)
    (auto simp: object_keys_def)

lemma delete_core_wdefs: "wdefs (delete_core ob)"
  unfolding delete_core_def by (intro wdefs_intros)

lemma wdefs_upsert_other: "wdefs (upsert ObjectParent (KObj c) (VObj p))" "wdefs (upsert ObjectLocation (KObj c) (VObj p))"
  by (rule wdefs_keeps [OF wkeeps_writes(1) [where K = "\<lambda>r _. r \<noteq> ObjectPropdefs"]]; simp)+

text \<open>The body of the edit of \<open>recycle_objects\<close>.\<close>

definition recycle_body :: "obj list \<Rightarrow> recycle_plan \<Rightarrow> ('x, unit) wm" where
  "recycle_body objects plan =
     wbind (wfor (\<lambda>content. upsert ObjectLocation (KObj content) (VObj NOTHING)) (contents_to_move plan)) (\<lambda>_.
     wbind (wfor (\<lambda>(child, new_parent). upsert ObjectParent (KObj child) (VObj new_parent))
              (children_to_reparent plan)) (\<lambda>_.
     wbind (wfor delete_core objects) (\<lambda>_.
       wfor (\<lambda>(ob, u). rel_delete ObjectPropvalues (KProperty ob u)) (properties_to_delete plan))))"

lemma recycle_body_keeps:
  assumes "set objects \<subseteq> S" and "fst ` set (children_to_reparent plan) \<subseteq> S"
    and "fst ` set (properties_to_delete plan) \<subseteq> S"
  shows "wkeeps (object_keys S) (recycle_body objects plan)"
  unfolding recycle_body_def
proof (intro wkeeps_bind)
  show "wkeeps (object_keys S) (wfor (\<lambda>content. upsert ObjectLocation (KObj content) (VObj NOTHING)) (contents_to_move plan))"
    by (rule wkeeps_for, rule wkeeps_writes) (simp add: object_keys_def)
  show "wkeeps (object_keys S) (wfor (\<lambda>(child, new_parent). upsert ObjectParent (KObj child) (VObj new_parent))
      (children_to_reparent plan))"
    by (rule wkeeps_for) (use assms(2) in \<open>auto split: prod.splits intro!: wkeeps_writes simp: object_keys_def\<close>)
  show "wkeeps (object_keys S) (wfor delete_core objects)"
    by (rule wkeeps_for, rule delete_core_keeps) (use assms(1) in auto)
  show "wkeeps (object_keys S) (wfor (\<lambda>(ob, u). rel_delete ObjectPropvalues (KProperty ob u)) (properties_to_delete plan))"
    by (rule wkeeps_for) (use assms(3) in \<open>auto split: prod.splits intro!: wkeeps_writes simp: object_keys_def\<close>)
qed

lemma recycle_body_wdefs: "wdefs (recycle_body objects plan)"
  unfolding recycle_body_def
proof (intro wdefs_bind wdefs_for)
  show "wdefs (case x of (child, new_parent) \<Rightarrow> upsert ObjectParent (KObj child) (VObj new_parent))" for x
    by (cases x) (simp add: wdefs_upsert_other)
  show "wdefs (case x of (ob, u) \<Rightarrow> rel_delete ObjectPropvalues (KProperty ob u))" for x
    by (cases x) (simp add: wdefs_delete)
qed (rule wdefs_upsert_other delete_core_wdefs)+

lemma wok_recycle_objects: "wok txt w (recycle_objects objects) (\<lambda>_ _. True)"
proof (cases "objects = []")
  case False
  have plan0: "plan_ok w {} \<lparr>contents_to_move = [], children_to_reparent = [], properties_to_delete = []\<rparr>"
    by (simp add: plan_ok_def)
  have aff0: "affected_ok w objects {} objects"
    unfolding affected_ok_def by blast
  have ed: "wok txt w (edit (EditRemove (remdups_adj (sort_key obj_word affected)) objects) (recycle_body objects plan)) (\<lambda>_ _. True)"
    if plan: "plan_ok w ({} \<union> set objects) plan"
      and aff: "affected_ok w objects ({} \<union> fst ` set (children_to_reparent plan)) affected"
    for plan affected
  proof (rule wok_edit_remove)
    show "children_closed (parent_in w) (set (remdups_adj (sort_key obj_word affected)))"
      unfolding children_closed_def
    proof (intro allI impI)
      fix c p
      assume c: "climbs (parent_in w) c p" and "p \<in> set (remdups_adj (sort_key obj_word affected))"
      then have "p \<in> set affected" by simp
      with aff c have "p \<in> set objects \<or> c \<in> set affected" unfolding affected_ok_def by blast
      moreover have "c \<in> set affected" if "p \<in> set objects"
      proof -
        have "c \<in> fst ` set (children_to_reparent plan)" using plan c that unfolding plan_ok_def by blast
        with aff show ?thesis unfolding affected_ok_def by blast
      qed
      ultimately show "c \<in> set (remdups_adj (sort_key obj_word affected))" by auto
    qed
    have o: "set objects \<subseteq> set affected" and c: "fst ` set (children_to_reparent plan) \<subseteq> set affected"
      using aff unfolding affected_ok_def by blast+
    have "fst ` set (properties_to_delete plan) \<subseteq> set objects"
      using plan unfolding plan_ok_def by blast
    with o c show "wkeeps (object_keys (set (remdups_adj (sort_key obj_word affected)))) (recycle_body objects plan)"
      by (intro recycle_body_keeps) auto
  qed (rule recycle_body_wdefs)
  show ?thesis
    unfolding recycle_objects_def if_not_P [OF False] recycle_body_def [symmetric]
    by (rule wok_bind [OF wok_plan_recycle_all [OF plan0]], elim conjE, hypsubst,
        rule wok_bind [OF wok_affected [OF aff0]], elim conjE, hypsubst, rule ed)
qed (simp add: recycle_objects_def wok_ret)

lemma wok_collect: "wok txt w (collect_unreachable_anonymous_objects xs) (\<lambda>_ _. True)"
proof -
  have "wok txt w (valid_objects ys) (\<lambda>_ w'. w' = w)" for ys
    unfolding valid_objects_def by (rule wok_unchanged) (intro keeps_intros)
  then show ?thesis
    unfolding collect_unreachable_anonymous_objects_def
    by (rule wok_bind) (auto intro!: wok_ret wok_bind [OF wok_ret [where Q = "\<lambda>_ _. True"]] wok_bind [OF wok_recycle_objects])
qed

lemma wok_flush_caches: "wok txt w flush_caches (\<lambda>_ _. True)"
proof -
  have "winv txt (on_ancestry ac_flush (on_props pc_flush (on_verbs vc_flush t)))" if "winv txt t" for t
    using that by (auto simp: winv_def verbs_sound_def props_sound_def lines_sound_def vc_lookup_query pc_lookup_query
        vc.lookup_flush vfp.lookup_flush pc.lookup_flush pfp.lookup_flush ac.lookup_flush)
  then show ?thesis
    unfolding flush_caches_def by (intro wok_weaken [OF wok_modify]) auto
qed

lemma wok_mark_builtin: "wok txt w (mark_builtin_proxy_absent b) (\<lambda>_ _. True)"
  unfolding mark_builtin_proxy_absent_def
  by (rule wok_weaken [OF wok_modify]) (auto simp: winv_def verbs_sound_def vc_lookup_query vc_other_ops)

end
