(* ===== verification/WorldTypes.thy ===== *)
theory WorldTypes
  imports WorldWrites
begin

text \<open>
  The types of the relations: the declaration in \<^verbatim>\<open>db/src/engine/moor_db.rs\<close> gives each relation the type
  of its keys and of its values, while the model has one type of keys and one of values. \<open>row_ok\<close> is the
  declaration, and every operation of a transaction, renumbering included, keeps every row of the
  world within it: reading a row with the selector of its type never misses.
\<close>

named_theorems typed_intros \<open>operations that keep the types of the relations\<close>

text \<open>The kinds of keys and of values, one per constructor.\<close>

datatype key_kind = ObjKey | VerbKey | PropertyKey | EntityMetadataKey

datatype value_kind = ObjValue | FlagsValue | NameValue | VerbDefsValue | ProgramValue | PropDefsValue | VarValue
  | PermsValue | AnonymousValue

primrec kind_of_key :: "db_key \<Rightarrow> key_kind" where
  "kind_of_key (KObj ob) = ObjKey"
| "kind_of_key (KVerb ob u) = VerbKey"
| "kind_of_key (KProperty ob u) = PropertyKey"
| "kind_of_key (KEntity ob tag u y) = EntityMetadataKey"

primrec kind_of_value :: "'x db_value \<Rightarrow> value_kind" where
  "kind_of_value (VObj p) = ObjValue"
| "kind_of_value (VFlags f) = FlagsValue"
| "kind_of_value (VName s) = NameValue"
| "kind_of_value (VVerbdefs vs) = VerbDefsValue"
| "kind_of_value (VProgram p) = ProgramValue"
| "kind_of_value (VPropdefs ds) = PropDefsValue"
| "kind_of_value (VVar h x) = VarValue"
| "kind_of_value (VPerms p) = PermsValue"
| "kind_of_value (VAnonymous a b) = AnonymousValue"

text \<open>The declaration of the relations.\<close>

primrec relation_type :: "database_relation \<Rightarrow> key_kind \<times> value_kind" where
  "relation_type ObjectLocation = (ObjKey, ObjValue)"
| "relation_type ObjectParent = (ObjKey, ObjValue)"
| "relation_type ObjectFlags = (ObjKey, FlagsValue)"
| "relation_type ObjectOwner = (ObjKey, ObjValue)"
| "relation_type ObjectName = (ObjKey, NameValue)"
| "relation_type ObjectVerbdefs = (ObjKey, VerbDefsValue)"
| "relation_type ObjectVerbs = (VerbKey, ProgramValue)"
| "relation_type ObjectPropdefs = (ObjKey, PropDefsValue)"
| "relation_type ObjectPropvalues = (PropertyKey, VarValue)"
| "relation_type ObjectPropflags = (PropertyKey, PermsValue)"
| "relation_type EntityMetadata = (EntityMetadataKey, VarValue)"
| "relation_type ObjectLastMove = (ObjKey, VarValue)"
| "relation_type AnonymousObjectMetadata = (ObjKey, AnonymousValue)"

definition row_ok :: "database_relation \<Rightarrow> db_key \<Rightarrow> 'x db_value \<Rightarrow> bool" where
  "row_ok r k v \<longleftrightarrow> relation_type r = (kind_of_key k, kind_of_value v)"

lemma row_ok_simps [simp]:
  "row_ok r k (VObj p) \<longleftrightarrow> relation_type r = (kind_of_key k, ObjValue)"
  "row_ok r k (VFlags f) \<longleftrightarrow> relation_type r = (kind_of_key k, FlagsValue)"
  "row_ok r k (VName s) \<longleftrightarrow> relation_type r = (kind_of_key k, NameValue)"
  "row_ok r k (VVerbdefs vs) \<longleftrightarrow> relation_type r = (kind_of_key k, VerbDefsValue)"
  "row_ok r k (VProgram x) \<longleftrightarrow> relation_type r = (kind_of_key k, ProgramValue)"
  "row_ok r k (VPropdefs ds) \<longleftrightarrow> relation_type r = (kind_of_key k, PropDefsValue)"
  "row_ok r k (VVar h x) \<longleftrightarrow> relation_type r = (kind_of_key k, VarValue)"
  "row_ok r k (VPerms q) \<longleftrightarrow> relation_type r = (kind_of_key k, PermsValue)"
  by (simp_all add: row_ok_def)

definition typed :: "'x world \<Rightarrow> bool" where
  "typed w \<longleftrightarrow> (\<forall>r k v. w r k = Some v \<longrightarrow> row_ok r k v)"

text \<open>
  The rows below a transaction, those of its snapshot, have these types too: a scan may return one
  that the transaction has overwritten. An operation leaves them as they are.
\<close>

type_synonym 'x base_rows = "database_relation \<Rightarrow> db_key \<Rightarrow> tx_error + (timestamp \<times> 'x db_value) option"

definition base_rows :: "'x ws_transaction \<Rightarrow> 'x base_rows" where
  "base_rows t r = rt_base (wt_rel t r)"

definition base_typed :: "'x base_rows \<Rightarrow> bool" where
  "base_typed b \<longleftrightarrow> (\<forall>r k ts v. b r k = Inr (Some (ts, v)) \<longrightarrow> row_ok r k v)"

definition tinv :: "'x base_rows \<Rightarrow> 'x ws_transaction \<Rightarrow> bool" where
  "tinv b t \<longleftrightarrow> wt_ok t \<and> typed (world t) \<and> base_rows t = b \<and> base_typed b"

text \<open>
  The steps of a transaction that the commit protocol knows: an operation of one relation, and a
  change of what the transaction notes besides. Every operation of the world state is a sequence of
  them.
\<close>

inductive tx_step :: "'x ws_transaction \<Rightarrow> 'x ws_transaction \<Rightarrow> bool" where
  work: "rt_step (wt_rel t r) rt \<Longrightarrow> tx_step t (t\<lparr>wt_rel := (wt_rel t)(r := rt)\<rparr>)"
| note_reads: "tx_step t (t\<lparr>wt_owner_change_reads := obs, wt_inherited_policy_reads := props, wt_caches := cs,
    wt_perm_memo := memo, wt_verb_program_revision := revision\<rparr>)"

abbreviation tx_steps :: "'x ws_transaction \<Rightarrow> 'x ws_transaction \<Rightarrow> bool" where
  "tx_steps \<equiv> tx_step\<^sup>*\<^sup>*"

definition same_rows :: "'x ws_transaction \<Rightarrow> 'x ws_transaction \<Rightarrow> bool" where
  "same_rows t t' \<longleftrightarrow> wt_rel t' = wt_rel t \<and> wt_tx t' = wt_tx t"

lemma same_rows_refl [simp]: "same_rows t t"
  by (simp add: same_rows_def)

lemma same_rows_on [simp]:
  "same_rows t (on_verbs f t') = same_rows t t'" "same_rows t (on_props g t') = same_rows t t'"
  "same_rows t (on_ancestry h t') = same_rows t t'" "same_rows t (on_memo i t') = same_rows t t'"
  "same_rows (on_verbs f t) t' = same_rows t t'" "same_rows (on_props g t) t' = same_rows t t'"
  by (simp_all add: same_rows_def on_verbs_def on_props_def on_ancestry_def on_memo_def)

lemma same_rows_steps: "same_rows t t' \<Longrightarrow> tx_steps t t'"
proof -
  assume same: "same_rows t t'"
  have "t' = t\<lparr>wt_owner_change_reads := wt_owner_change_reads t',
      wt_inherited_policy_reads := wt_inherited_policy_reads t', wt_caches := wt_caches t',
      wt_perm_memo := wt_perm_memo t', wt_verb_program_revision := wt_verb_program_revision t'\<rparr>"
    using same by (intro ws_transaction.equality) (simp_all add: same_rows_def)
  then have "tx_step t t'" using tx_step.note_reads [of t] by metis
  then show ?thesis ..
qed

definition wtyped :: "('x, 'a) wm \<Rightarrow> bool" where
  "wtyped m \<longleftrightarrow> (\<forall>b t t' r. tinv b t \<longrightarrow> m t = Some (t', r) \<longrightarrow> tinv b t' \<and> tx_steps t t')"

lemma wtypedI:
  "(\<And>b t t' r. tinv b t \<Longrightarrow> m t = Some (t', r) \<Longrightarrow> tinv b t' \<and> tx_steps t t') \<Longrightarrow> wtyped m"
  unfolding wtyped_def by blast

lemma wtypedD:
  assumes "wtyped m" and "tinv b t" and "m t = Some (t', r)"
  shows "tinv b t'" and "tx_steps t t'"
  using assms unfolding wtyped_def by blast+

lemma tinv_rel: "wt_rel t' = wt_rel t \<Longrightarrow> tinv b t' = tinv b t"
  by (simp add: tinv_def typed_def world_def wt_ok_def base_rows_def fun_eq_iff)

lemma tinv_same: "same_rows t t' \<Longrightarrow> tinv b t' = tinv b t"
  unfolding same_rows_def by (elim conjE) (rule tinv_rel)

lemma keeps_base_rows: "keeps K t t' \<Longrightarrow> base_rows t' = base_rows t"
  by (simp add: keeps_def base_rows_def fun_eq_iff)

lemma typed_update: "typed w \<Longrightarrow> row_ok r k v \<Longrightarrow> typed (w(r := (w r)(k := Some v)))"
  by (auto simp: typed_def)

lemma typed_remove: "typed w \<Longrightarrow> typed (w(r := (w r)(k := None)))"
  by (auto simp: typed_def)

section \<open>Rules\<close>

lemma wtyped_same: "(\<And>t t' r. m t = Some (t', r) \<Longrightarrow> same_rows t t') \<Longrightarrow> wtyped m"
  using tinv_same same_rows_steps unfolding wtyped_def by blast

lemma wtyped_ret [typed_intros]: "wtyped (wret a)" "wtyped (wfail e)" "wtyped wpanic" "wtyped (wstate f)"
  by (rule wtyped_same, simp add: wret_def wfail_def wpanic_def wstate_def)+

lemma wtyped_bind_of:
  assumes "wtyped m" and "\<And>a. (\<exists>b t t'. tinv b t \<and> m t = Some (t', Inr a)) \<Longrightarrow> wtyped (f a)"
  shows "wtyped (wbind m f)"
proof (rule wtypedI)
  fix b t t' r
  assume inv: "tinv b t" and "wbind m f t = Some (t', r)"
  then obtain t1 r1 where m: "m t = Some (t1, r1)"
    and f: "case r1 of Inl e \<Rightarrow> t' = t1 \<and> r = Inl e | Inr a \<Rightarrow> f a t1 = Some (t', r)"
    by (auto simp: wbind_eq_Some)
  note i = wtypedD [OF assms(1) inv m]
  show "tinv b t' \<and> tx_steps t t'"
  proof (cases r1)
    case (Inr a)
    with inv m assms(2) have "wtyped (f a)" by blast
    moreover from f Inr have "f a t1 = Some (t', r)" by simp
    ultimately have "tinv b t'" "tx_steps t1 t'" by (rule wtypedD [OF _ i(1)])+
    with i(2) show ?thesis by simp
  qed (use f i in simp)
qed

lemma wtyped_bind [typed_intros]: "wtyped m \<Longrightarrow> (\<And>a. wtyped (f a)) \<Longrightarrow> wtyped (wbind m f)"
  by (rule wtyped_bind_of)

lemma wtyped_split [typed_intros]:
  "wtyped m \<Longrightarrow> wtyped n \<Longrightarrow> wtyped (if b then m else n)"
  "wtyped m \<Longrightarrow> (\<And>a. wtyped (f a)) \<Longrightarrow> wtyped (case x of None \<Rightarrow> m | Some a \<Rightarrow> f a)"
  "(\<And>a. wtyped (g a)) \<Longrightarrow> (\<And>a. wtyped (h a)) \<Longrightarrow> wtyped (case y of Inl a \<Rightarrow> g a | Inr a \<Rightarrow> h a)"
  "(\<And>a b. wtyped (p a b)) \<Longrightarrow> wtyped (case z of (a, b) \<Rightarrow> p a b)"
  by (simp_all split: option.split sum.split prod.split)

lemma wtyped_try [typed_intros]: "wtyped m \<Longrightarrow> wtyped (wtry m)"
  unfolding wtyped_def wtry_eq_Some by blast

lemma wexpect_eq_Some: "wexpect m t = Some (t', r) \<longleftrightarrow> (\<exists>a. m t = Some (t', Inr a) \<and> r = Inr a)"
  by (auto simp: wexpect_def split: option.splits sum.splits)

lemma wtyped_expect [typed_intros]: "wtyped m \<Longrightarrow> wtyped (wexpect m)"
  unfolding wtyped_def wexpect_eq_Some by blast

lemma wtyped_fold: "(\<And>x a. x \<in> set xs \<Longrightarrow> wtyped (f x a)) \<Longrightarrow> wtyped (wfold f xs a)"
  by (induction xs arbitrary: a) (simp_all add: wtyped_ret wtyped_bind)

lemma wtyped_for: "(\<And>x. x \<in> set xs \<Longrightarrow> wtyped (f x)) \<Longrightarrow> wtyped (wfor f xs)"
  unfolding wfor_def by (simp add: wtyped_fold wtyped_ret wtyped_bind)

lemma wtyped_modify [typed_intros]:
  "wtyped (wmodify (on_verbs f))" "wtyped (wmodify (on_props g))" "wtyped (wmodify (on_ancestry h))"
  "wtyped (wmodify (on_memo i))" "wtyped (wmodify (\<lambda>t. t\<lparr>wt_inherited_policy_reads := p t\<rparr>))"
  "wtyped (wmodify (\<lambda>t. t\<lparr>wt_owner_change_reads := q t\<rparr>))"
  by (rule wtyped_same, auto simp: wmodify_def same_rows_def on_verbs_def on_props_def on_ancestry_def on_memo_def)+

lemma wtyped_reads [typed_intros]:
  "wtyped (rel_get r k)" "wtyped (rel_has r k)" "wtyped (rel_with r k f)" "wtyped (rel_scan r P)"
  "wtyped (rel_check_domains r ks)"
  by (rule wtyped_same, simp add: rel_read_eqs)+

lemma wtyped_read [typed_intros]: "wtyped (rel_read sel r k)"
  unfolding rel_read_def by (intro typed_intros)

text \<open>An operation of one relation is a step.\<close>

lemma rel_lift_steps:
  assumes "rt_step (wt_rel t r) (fst (f (wt_rel t r)))" and "rel_lift r f t = Some (t', res)"
  shows "tx_steps t t'"
proof -
  from assms(2) have "t' = t\<lparr>wt_rel := (wt_rel t)(r := fst (f (wt_rel t r)))\<rparr>"
    by (auto simp: rel_lift_def split: prod.splits)
  with tx_step.work [where t = t and r = r, OF assms(1)] show ?thesis by auto
qed

lemma wtyped_by_codomain:
  assumes "relation_is_secondary r"
  shows "wtyped (rel_by_codomain r v)"
proof (rule wtypedI)
  fix b t t' res
  assume inv: "tinv b t" and m: "rel_by_codomain r v t = Some (t', res)"
  then have ok: "wt_ok t" by (simp add: tinv_def)
  have k: "keeps nothing_changed t t'"
    by (rule wkeepsD [OF wkeeps_by_codomain [OF assms] ok m])
  moreover have "tx_steps t t'"
    using m unfolding rel_by_codomain_def rt_get_by_codomain_def [symmetric]
    by (rule rel_lift_steps [rotated]) (rule rt_step.get_by_codomain)
  ultimately show "tinv b t' \<and> tx_steps t t'"
    using inv keeps_ok [OF k] keeps_nothingD [OF k] keeps_base_rows [OF k] by (simp add: tinv_def)
qed

lemma wtyped_get_all [typed_intros]: "wtyped (rel_get_all r)"
proof (rule wtypedI)
  fix b t t' res
  assume inv: "tinv b t" and "rel_get_all r t = Some (t', res)"
  moreover have "rt_loaded (wt_rel t r)" using inv by (simp add: tinv_def wt_ok_def rel_ok_def)
  ultimately have "t' = t" by (auto simp: rel_get_all_def rel_lift_def rt_get_all_nf)
  then show "tinv b t' \<and> tx_steps t t'" using inv by simp
qed

lemma wtyped_upsert_with:
  assumes "\<And>c v. (\<And>u. c = Some u \<Longrightarrow> row_ok r k u) \<Longrightarrow> f c = Some v \<Longrightarrow> row_ok r k v"
  shows "wtyped (rel_upsert_with r k f)"
proof (rule wtypedI)
  fix b t t' res
  assume inv: "tinv b t" and m: "rel_upsert_with r k f t = Some (t', res)"
  then have ok: "wt_ok t" and ty: "typed (world t)" by (simp_all add: tinv_def)
  have keep: "keeps (\<lambda>_ _. True) t t'"
    by (rule wkeepsD [OF wkeeps_writes(2) ok m]) simp
  have "typed (world t')"
    using rel_upsert_with_cases [OF ok m]
  proof (elim disjE exE conjE)
    fix v
    assume v: "f (world t r k) = Some v" and w: "world t' = (world t)(r := (world t r)(k := Some v))"
    have "row_ok r k v" by (rule assms [OF _ v]) (use ty in \<open>simp add: typed_def\<close>)
    from typed_update [OF ty this] show ?thesis by (simp add: w)
  qed (use ty in simp)
  moreover have "tx_steps t t'"
    using m unfolding rel_upsert_with_def by (rule rel_lift_steps [rotated]) (rule rt_step.upsert_with)
  ultimately show "tinv b t' \<and> tx_steps t t'"
    using inv keeps_ok [OF keep] keeps_base_rows [OF keep] by (simp add: tinv_def)
qed

lemma wtyped_update_with:
  assumes "\<And>u v. row_ok r k u \<Longrightarrow> f u = Some v \<Longrightarrow> row_ok r k v"
  shows "wtyped (rel_update_with r k f)"
proof -
  have eq: "rel_update_with r k f = rel_upsert_with r k (\<lambda>current. Option.bind current f)"
    by (simp add: rel_update_with_def rel_upsert_with_def rt_update_with_def)
  show ?thesis
    unfolding eq by (rule wtyped_upsert_with) (use assms in \<open>auto simp: bind_eq_Some_conv\<close>)
qed

text \<open>Insertions and deletions: the world changes at one key, to the value or to nothing.\<close>

lemma wtyped_write:
  assumes s: "\<And>rt. rt_step rt (fst (f rt))" and w: "writes_at k f" and v: "\<And>rt u. rt_ok rt \<Longrightarrow> rt_view (fst (f rt)) k = Inr (Some u) \<Longrightarrow>
    rt_view rt k = Inr (Some u) \<or> row_ok r k u"
  shows "wtyped (rel_lift r f)"
proof (rule wtypedI)
  fix b t t' res
  assume inv: "tinv b t" and m: "rel_lift r f t = Some (t', res)"
  then have ok: "wt_ok t" and ty: "typed (world t)" by (simp_all add: tinv_def)
  note keep = wkeepsD [OF rel_lift_keeps [OF w, where K = "at_key r k"] ok m]
  have rt: "wt_rel t' r = fst (f (wt_rel t r))"
    using m by (auto simp: rel_lift_def split: prod.splits)
  have rok: "rt_ok (wt_rel t r)" using ok by (simp add: wt_ok_def rel_ok_def)
  have here: "row_ok r k u" if u: "world t' r k = Some u" for u
  proof -
    from u have "rt_view (fst (f (wt_rel t r))) k = Inr (Some u)"
      by (simp add: world_def rt split: sum.splits)
    from v [OF rok this] show ?thesis
      using ty by (auto simp: typed_def world_view)
  qed
  have "row_ok r' k' u" if u: "world t' r' k' = Some u" for r' k' u
  proof (cases "r' = r \<and> k' = k")
    case True
    with here u show ?thesis by simp
  next
    case False
    with keep u have "world t r' k' = Some u" by (auto simp: keeps_def)
    with ty show ?thesis by (simp add: typed_def)
  qed
  then show "tinv b t' \<and> tx_steps t t'"
    using inv keeps_ok [OF keep] keeps_base_rows [OF keep] rel_lift_steps [OF s m] by (simp add: tinv_def typed_def)
qed

lemma wtyped_writes:
  "row_ok r k v \<Longrightarrow> wtyped (upsert r k v)" "row_ok r k v \<Longrightarrow> wtyped (rel_insert r k v)"
  "row_ok r k v \<Longrightarrow> wtyped (insert_guaranteed_unique r k v)" "wtyped (rel_delete r k)"
proof -
  assume v: "row_ok r k v"
  show "wtyped (upsert r k v)"
    unfolding upsert_def
    by (rule wtyped_write [OF rt_step.upsert writes_at_ops(1)])
      (use v in \<open>auto simp: rt_upsert_nf split: option.splits sum.splits\<close>)
  show "wtyped (rel_insert r k v)"
    unfolding rel_insert_def
    by (rule wtyped_write [OF rt_step.insert writes_at_ops(4)])
      (use v in \<open>auto simp: rt_insert_nf split: option.splits sum.splits if_splits\<close>)
  show "wtyped (insert_guaranteed_unique r k v)"
    unfolding insert_guaranteed_unique_def
    by (rule wtyped_write [OF rt_step.insert_guaranteed_unique writes_at_ops(5)]) (use v in \<open>auto simp: rt_insert_guaranteed_unique_def\<close>)
next
  show "wtyped (rel_delete r k)"
    unfolding rel_delete_def
    by (rule wtyped_write [OF rt_step.delete writes_at_ops(3)])
      (auto simp: rt_delete_nf split: option.splits sum.splits if_splits)
qed

lemma wtyped_delete [typed_intros]: "wtyped (rel_delete r k)"
  by (rule wtyped_writes(4))

lemma wtyped_edit [typed_intros]:
  assumes "wtyped body"
  shows "wtyped (edit scope body)"
proof (rule wtypedI)
  fix b t t' r
  assume inv: "tinv b t" and m: "edit scope body t = Some (t', r)"
  define t1 where "t1 = (if bumps_revision scope
      then t\<lparr>wt_verb_program_revision := wt_verb_program_revision t + 1\<rparr> else t)"
  from m obtain t2 where body: "body t1 = Some (t2, r)" and t': "t' = edit_drop scope t2"
    by (auto simp: edit_def t1_def Let_def split: if_splits option.splits)
  have "same_rows t t1" by (simp add: t1_def same_rows_def)
  then have t1: "tinv b t1" "tx_steps t t1" using inv by (simp_all add: tinv_same same_rows_steps)
  have "same_rows t2 t'" by (cases scope) (simp_all add: t' drop_branch_def)
  with wtypedD [OF assms t1(1) body] t1(2) show "tinv b t' \<and> tx_steps t t'"
    by (auto simp: tinv_same dest: same_rows_steps)
qed

end
