(* ===== verification/TypedOps.thy ===== *)
theory TypedOps
  imports WorldTypes
begin

text \<open>
  Every operation of a transaction keeps the types of the relations, by the rules of \<open>WorldTypes\<close>:
  the operations are composed of typed reads and writes, and the rows that renumbering copies come
  from scans, whose rows are those of the world or of the snapshot below it.
\<close>

section \<open>Reads\<close>

lemmas typed_loops [typed_intros] = wtyped_for wtyped_fold

lemma wtyped_indexed [typed_intros]:
  "wtyped (rel_by_codomain ObjectParent v)" "wtyped (rel_by_codomain ObjectOwner v)"
  "wtyped (rel_by_codomain ObjectLocation v)" "wtyped (rel_by_codomain EntityMetadata v)"
  by (rule wtyped_by_codomain, simp add: secondary_relations)+

lemma wtyped_object_reads [typed_intros]:
  "wtyped (object_valid ob)" "wtyped (valid_objects obs)" "wtyped (get_object_parent ob)" "wtyped get_objects"
  "wtyped (get_object_flags ob)" "wtyped get_players" "wtyped (get_object_owner ob)" "wtyped (get_object_name ob)"
  "wtyped (get_object_children ob)" "wtyped (get_owned_objects ob)" "wtyped (get_object_contents ob)"
  "wtyped (get_object_location ob)" "wtyped (get_verbs ob)" "wtyped (get_verb_program ob u)"
  "wtyped (get_properties ob)" "wtyped (local_perms ob u)" "wtyped (get_metadata k)" "wtyped (get_last_move e ob)"
  unfolding object_valid_def valid_objects_def get_object_parent_def get_objects_def get_object_flags_def
    get_players_def get_object_owner_def get_object_name_def get_object_children_def get_owned_objects_def
    get_object_contents_def get_object_location_def get_verbs_def get_verb_program_def get_properties_def
    local_perms_def get_metadata_def get_last_move_def
  by (intro typed_intros)+

lemma wtyped_with [typed_intros]: "wtyped (with_verbdefs ob f)" "wtyped (with_propdefs ob g)"
  unfolding with_verbdefs_def with_propdefs_def by (intro typed_intros)+

lemma wtyped_ancestors [typed_intros]: "wtyped (ancestors ob s)"
  by (rule wtyped_same) (auto simp: ancestors_def split: option.splits)

lemma wtyped_isa [typed_intros]: "wtyped (isa ob p)"
  unfolding isa_def
  by (intro typed_intros wtyped_same) (auto split: option.splits sum.splits)

lemma wtyped_descendants_loop: "wtyped (descendants_loop queue results)"
proof (rule wtypedI)
  fix b :: "'x base_rows" and t t' r
  assume inv: "tinv b t" and loop: "descendants_loop queue results t = Some (t', r)"
  have "tinv b t \<longrightarrow> tinv b (fst (t', r)) \<and> tx_steps t (fst (t', r))"
  proof (rule descendants_loop.raw_induct [of "\<lambda>_ _ t x. tinv b t \<longrightarrow> tinv b (fst x) \<and> tx_steps t (fst x)", OF _ loop])
    fix loop :: "obj list \<Rightarrow> obj list \<Rightarrow> 'x ws_transaction \<Rightarrow> ('x ws_transaction \<times> (world_state_error + obj list)) option"
      and queue results t x
    assume IH: "\<And>q rs t x. loop q rs t = Some x \<Longrightarrow> tinv b t \<longrightarrow> tinv b (fst x) \<and> tx_steps t (fst x)"
      and step: "(case queue of [] \<Rightarrow> Some (t, Inr results)
        | ob # queue' \<Rightarrow> (case get_object_children ob t of None \<Rightarrow> None
            | Some (t', Inl e) \<Rightarrow> Some (t', Inl e)
            | Some (t', Inr children) \<Rightarrow> loop (queue' @ children) (results @ [ob]) t')) = Some x"
    show "tinv b t \<longrightarrow> tinv b (fst x) \<and> tx_steps t (fst x)"
      using step
      by (auto split: list.splits option.splits prod.splits sum.splits
          dest!: IH dest: wtypedD [OF wtyped_object_reads(9)])
  qed
  with inv show "tinv b t' \<and> tx_steps t t'" by simp
qed

lemma wtyped_descendants [typed_intros]: "wtyped (descendants ob s)" "wtyped (branch_objects ob)"
  unfolding branch_objects_def descendants_def by (intro typed_intros wtyped_descendants_loop)+

section \<open>Verbs\<close>

lemma wtyped_lookup_resolved_verbdef [typed_intros]: "wtyped (lookup_resolved_verbdef ob rv)"
  unfolding lookup_resolved_verbdef_def by (intro typed_intros)

lemma wtyped_direct_verb [typed_intros]: "wtyped (direct_verb txt ob n)"
  unfolding direct_verb_def by (intro typed_intros)

lemma wtyped_verb_reads [typed_intros]:
  "wtyped (get_verb_by_name txt ob n)" "wtyped (get_verb_by_index ob i)" "wtyped builtin_proxy_cache_snapshot"
  "wtyped (mark_builtin_proxy_absent bi)" "wtyped (resolve_verb_cached ob n a f)"
  "wtyped (resolve_verb_by_uuid_handle ob d u a f)" "wtyped (resolve_verb_by_uuid ob d u a f)"
  unfolding get_verb_by_name_def get_verb_by_index_def builtin_proxy_cache_snapshot_def mark_builtin_proxy_absent_def
    resolve_verb_cached_def resolve_verb_by_uuid_handle_def resolve_verb_by_uuid_def Let_def
  by (intro typed_intros)+

lemma resolve_verb_loop_rel:
  "resolve_verb_loop txt ob n a f s seen t = Some (t', r) \<Longrightarrow> same_rows t t'"
proof -
  assume loop: "resolve_verb_loop txt ob n a f s seen t = Some (t', r)"
  have "same_rows t (fst (t', r))"
  proof (rule resolve_verb_loop.raw_induct [of "\<lambda>_ _ _ _ _ _ _ t x. same_rows t (fst x)", OF _ loop], goal_cases)
    case (1 loop names ob n a f s seen t x)
    from 1(2) show ?case
      by (auto simp: Let_def split: sum.splits option.splits if_splits dest!: 1(1))
  qed
  then show ?thesis by simp
qed

lemma wtyped_resolve_verb [typed_intros]:
  "wtyped (resolve_verb_loop txt ob n a f s seen)" "wtyped (resolve_verb_walk txt ob n a f)"
  "wtyped (resolve_verb_handle txt ob n a f)" "wtyped (resolve_verb txt ob n a f)"
proof -
  show loop: "wtyped (resolve_verb_loop txt ob n a f s seen)" for s seen
    by (rule wtyped_same) (rule resolve_verb_loop_rel)
  show walk: "wtyped (resolve_verb_walk txt ob n a f)"
    unfolding resolve_verb_walk_def by (intro typed_intros loop)
  show h: "wtyped (resolve_verb_handle txt ob n a f)"
    unfolding resolve_verb_handle_def by (intro typed_intros walk)
  show "wtyped (resolve_verb txt ob n a f)"
    unfolding resolve_verb_def by (intro typed_intros h)
qed

text \<open>A row of definitions stays one.\<close>

lemma bind_verbdefs_row:
  "Option.bind (value_verbdefs u) (\<lambda>ds. map_option VVerbdefs (g ds)) = Some v \<Longrightarrow> row_ok ObjectVerbdefs (KObj ob) v"
  by (auto simp: bind_eq_Some_conv)

lemma bind_propdefs_row:
  "Option.bind (value_propdefs u) (\<lambda>ds. map_option VPropdefs (g ds)) = Some v \<Longrightarrow> row_ok ObjectPropdefs (KObj ob) v"
  by (auto simp: bind_eq_Some_conv)

lemma wtyped_update_verb [typed_intros]: "wtyped (update_verb ob u attrs)"
  unfolding update_verb_def
  by (intro typed_intros wtyped_writes(1) wtyped_update_with) (auto intro: bind_verbdefs_row)

lemma wtyped_add_object_verb [typed_intros]: "wtyped (add_object_verb u ob owner names program flags args)"
  unfolding add_object_verb_def Let_def
  by (intro typed_intros wtyped_writes(1)) simp_all

lemma wtyped_delete_metadata [typed_intros]:
  "wtyped (delete_metadata_where P)" "wtyped (delete_metadata_for_obj ob)"
  "wtyped (delete_property_metadata_for_holder ob u)" "wtyped (delete_verb_metadata_for_holder ob u)"
  unfolding delete_metadata_for_obj_def delete_property_metadata_for_holder_def delete_verb_metadata_for_holder_def
    delete_metadata_where_def
  by (intro typed_intros)+

lemma wtyped_delete_verb [typed_intros]: "wtyped (delete_verb ob u)"
  unfolding delete_verb_def by (intro typed_intros wtyped_writes(1)) simp

section \<open>Objects\<close>

lemma wtyped_set_object [typed_intros]: "wtyped (set_object_flags ob flags)" "wtyped (set_object_name ob name)"
  unfolding set_object_flags_def set_object_name_def
  by (intro typed_intros wtyped_upsert_with; auto split: if_splits)+

lemma wtyped_set_parent [typed_intros]: "wtyped (set_object_parent ob p)" "wtyped (set_initial_object_parent ob p)"
  unfolding set_object_parent_def set_initial_object_parent_def
  by (intro typed_intros wtyped_writes; simp)+

lemma wtyped_set_location [typed_intros]: "wtyped (set_object_location ob l)" "wtyped (set_initial_object_location ob l)"
proof -
  have "wtyped (wbind (rel_read value_obj ObjectLocation (KObj ob)) (\<lambda>old.
      if old = Some l then wret () else wbind (upsert ObjectLocation (KObj ob) (VObj l)) (\<lambda>_. wret ())))"
    by (intro typed_intros wtyped_writes) simp
  then show "wtyped (set_object_location ob l)"
    unfolding wtyped_def set_object_location_def by (auto split: option.splits sum.splits bool.splits)
  show "wtyped (set_initial_object_location ob l)"
    unfolding set_initial_object_location_def by (intro typed_intros wtyped_writes) simp
qed

lemma wtyped_insert_object [typed_intros]: "wtyped (insert_object ob attrs)"
  unfolding insert_object_def by (intro typed_intros wtyped_writes) simp_all

lemma wtyped_query_objects [typed_intros]: "wtyped (query_objects q)"
  unfolding query_objects_def query_candidates_def query_candidate_def check_filter_def check_flags_def or_nothing_def
  by (intro typed_intros)

lemma wtyped_metadata:
  "row_ok EntityMetadata k v \<Longrightarrow> wtyped (set_metadata k v)" "wtyped (clear_metadata k)"
  unfolding set_metadata_def clear_metadata_def by (intro typed_intros wtyped_writes; simp)+

lemma wtyped_set_last_move: "row_ok ObjectLastMove (KObj ob) (g l) \<Longrightarrow> wtyped (set_last_move g ob l)"
  unfolding set_last_move_def by (intro typed_intros wtyped_writes)

lemma wtyped_flush_caches [typed_intros]: "wtyped flush_caches"
  unfolding flush_caches_def by (rule wtyped_same) (auto simp: wmodify_def same_rows_def on_verbs_def on_props_def on_ancestry_def)

section \<open>Properties\<close>

lemma wtyped_find_in_ancestors [typed_intros]: "wtyped (find_in_ancestors u xs)"
  by (induction xs) (simp_all, (intro typed_intros; assumption?)+)

lemma wtyped_find_property [typed_intros]:
  "wtyped (find_property_by_uuid ob u)" "wtyped (find_named_from ob n s)" "wtyped (find_property_by_name ob n)"
proof -
  show "wtyped (find_property_by_uuid ob u)"
    unfolding find_property_by_uuid_def by (intro typed_intros)
  have rel: "same_rows t t'" if "find_named_from ob n s t = Some (t', r)" for t t' r s
    using that by (auto simp: find_named_from_def split: option.splits sum.splits)
  then show "wtyped (find_named_from ob n s)"
    by (intro wtyped_same)
  show "wtyped (find_property_by_name ob n)"
    by (rule wtyped_same) (auto simp: find_property_by_name_def split: option.splits sum.splits dest!: rel)
qed

lemma wtyped_permissions [typed_intros]:
  "wtyped (retrieve_property_permissions ob u)" "wtyped (record_inherited_policy_dependency ob u)"
  unfolding retrieve_property_permissions_def record_inherited_policy_dependency_def Let_def
  by (intro typed_intros)+

lemma wtyped_inherited_value [typed_intros]: "wtyped (inherited_value u xs)"
  by (induction xs) (simp_all, (intro typed_intros; assumption?)+)

lemma wtyped_retrieve_property [typed_intros]:
  "wtyped (retrieve_property ob u)" "wtyped (resolve_property_by_uuid nv ob u)" "wtyped (resolve_property nv ob n)"
proof -
  show r: "wtyped (retrieve_property ob u)" for u
    unfolding retrieve_property_def by (intro typed_intros)
  show "wtyped (resolve_property_by_uuid nv ob u)" "wtyped (resolve_property nv ob n)"
    unfolding resolve_property_by_uuid_def resolve_property_def by (intro typed_intros r)+
qed

lemma wtyped_set_property:
  assumes "row_ok ObjectPropvalues (KProperty ob u) v"
  shows "wtyped (set_property nv ob u v)"
  unfolding set_property_def by (intro typed_intros wtyped_writes) (simp_all add: assms)

lemma wtyped_check_undefined [typed_intros]: "wtyped (check_undefined n xs)"
  by (induction xs) (simp_all, (intro typed_intros; assumption?)+)

lemma wtyped_define_property:
  assumes "\<And>x. v = Some x \<Longrightarrow> row_ok ObjectPropvalues (KProperty location u) x"
  shows "wtyped (define_property nv u definer location name owner perms v)"
proof (cases v)
  case None
  show ?thesis
    unfolding define_property_def None option.case by (intro typed_intros wtyped_writes) simp_all
next
  case (Some x)
  show ?thesis
    unfolding define_property_def Some option.case
    by (intro typed_intros wtyped_writes wtyped_set_property assms [OF Some]) simp_all
qed

lemma wtyped_rename_property [typed_intros]: "wtyped (rename_property os ob u name)"
  unfolding rename_property_def
  by (intro typed_intros wtyped_update_with) (auto intro: bind_propdefs_row)

lemma wtyped_update_property_info [typed_intros]: "wtyped (update_property_info ob u new_owner new_flags new_name)"
  unfolding update_property_info_def Let_def by (intro typed_intros wtyped_writes) simp_all

lemma wtyped_clear_property [typed_intros]:
  "wtyped (clear_property ob u)" "wtyped (clear_local_property_permissions ob u)"
  unfolding clear_property_def clear_local_property_permissions_def by (intro typed_intros)+

lemma wtyped_delete_property [typed_intros]: "wtyped (delete_property ob u)"
  unfolding delete_property_def
  by (intro typed_intros wtyped_update_with) (auto intro: bind_propdefs_row)

lemma wtyped_set_object_owner [typed_intros]: "wtyped (set_object_owner ob owner)"
  unfolding set_object_owner_def preserve_property_def Let_def
  by (intro typed_intros wtyped_writes) simp_all

section \<open>Recycling\<close>

lemma wtyped_recycle_object [typed_intros]: "wtyped (recycle_object ob)"
  unfolding recycle_object_def by (intro typed_intros)

lemma wtyped_pair: "(\<And>a b. wtyped (p a b c)) \<Longrightarrow> wtyped ((case z of (a, b) \<Rightarrow> p a b) c)"
  by (simp split: prod.split)

lemma wtyped_recycle_objects [typed_intros]: "wtyped (recycle_objects objects)"
  unfolding recycle_objects_def plan_recycle_def delete_core_def
  by (intro typed_intros wtyped_pair wtyped_writes) simp_all

lemma wtyped_collect [typed_intros]: "wtyped (collect_unreachable_anonymous_objects xs)"
  unfolding collect_unreachable_anonymous_objects_def by (intro typed_intros)

section \<open>Renumbering\<close>

lemma rel_get_typed:
  assumes "tinv b t" and "rel_get r k t = Some (t', Inr (Some v))"
  shows "row_ok r k v"
proof -
  from assms(2) have "world t r k = Some v" by (auto simp: rel_get_eq world_def split: sum.splits)
  then show ?thesis using assms(1) by (simp add: tinv_def typed_def)
qed

lemma rel_scan_typed:
  assumes inv: "tinv b t" and scan: "rel_scan r P t = Some (t', Inr rows)" and row: "(k, v) \<in> set rows"
  shows "row_ok r k v"
proof -
  have ok: "rt_ok (wt_rel t r)" "provider_ok (rt_provider (wt_rel t r))"
    using inv by (simp_all add: tinv_def wt_ok_def rel_ok_def)
  from scan have rows: "rt_scan (wt_rel t r) P = Inr rows" by (auto simp: rel_scan_eq split: sum.splits)
  note spec = rt_scan_eq_spec [OF ok rows]
  have "map_of rows k = Some v" using spec(1) row by simp
  then have "scan_spec (wt_rel t r) P k = Some v" using spec(2) by simp
  then have "rt_view (wt_rel t r) k = Inr (Some v) \<or> (\<exists>ts. rt_base (wt_rel t r) k = Inr (Some (ts, v)))"
    by (auto simp: scan_spec_def base_match_iff rt_view_Some_iff split: option.splits if_splits)
  then show ?thesis
    using inv by (auto simp: tinv_def typed_def base_typed_def base_rows_def world_view)
qed

lemma rel_get_all_typed:
  assumes inv: "tinv b t" and all: "rel_get_all r t = Some (t', Inr rows)" and row: "(k, v) \<in> set rows"
  shows "row_ok r k v"
proof -
  have ok: "rt_ok (wt_rel t r)" "provider_ok (rt_provider (wt_rel t r))" "rt_loaded (wt_rel t r)"
    using inv by (simp_all add: tinv_def wt_ok_def rel_ok_def)
  from all ok(3) have "rows = rt_tuples_of (wt_rel t r)"
    by (auto simp: rel_get_all_def rel_lift_def rt_get_all_nf)
  then have "map_of (rt_tuples_of (wt_rel t r)) k = Some v"
    using rt_tuples_of_exact(1) [OF ok] row by simp
  then show ?thesis
    using inv rt_tuples_of_exact(2) [OF ok] by (auto simp: tinv_def typed_def world_view)
qed

lemma wtyped_if_present:
  fixes body :: "'x db_value \<Rightarrow> ('x, unit) wm"
  assumes "\<And>v. row_ok r k v \<Longrightarrow> wtyped (body v)"
  shows "wtyped (if_present r k body)"
  unfolding if_present_def
proof (rule wtyped_bind_of)
  fix found :: "world_state_error + 'x db_value option"
  assume "\<exists>b t t'. tinv b t \<and> wtry (rel_get r k) t = Some (t', Inr found)"
  then have "row_ok r k v" if "found = Inr (Some v)" for v
    using that rel_get_typed by (auto simp: wtry_eq_Some)
  then show "wtyped (case found of Inl e \<Rightarrow> wret () | Inr None \<Rightarrow> wret () | Inr (Some v) \<Rightarrow> body v)"
    using assms by (auto simp: wtyped_ret split: sum.split option.split)
qed (intro typed_intros)

lemma wtyped_move_row: "row_ok r k v \<Longrightarrow> wtyped (move_row r old k v)"
  unfolding move_row_def by (intro typed_intros wtyped_writes)

lemma wtyped_scan_for:
  assumes "\<And>k v. row_ok r k v \<Longrightarrow> wtyped (f (k, v))"
  shows "wtyped (wbind (rel_scan r P) (wfor f))"
proof (rule wtyped_bind_of)
  fix rows
  assume "\<exists>b t t'. tinv b t \<and> rel_scan r P t = Some (t', Inr rows)"
  then show "wtyped (wfor f rows)"
    using rel_scan_typed assms by (intro wtyped_for) fastforce
qed (intro typed_intros)

lemma wtyped_redirect:
  assumes "snd (relation_type r) = ObjValue"
  shows "wtyped (redirect r old new)"
proof -
  have "wtyped (rel_update_with r k (\<lambda>_. Some (VObj new)))" for k
    by (rule wtyped_update_with) (use assms in \<open>auto simp: row_ok_def prod_eq_iff\<close>)
  then show ?thesis
    unfolding redirect_def by (intro typed_intros)
qed

lemma row_ok_same_kind: "row_ok r k v \<Longrightarrow> kind_of_key k' = kind_of_key k \<Longrightarrow> row_ok r k' v"
  by (simp add: row_ok_def)

lemma rehome_kind: "rehome_obj old new k = Some k' \<Longrightarrow> kind_of_key k' = kind_of_key k"
  by (cases k) (auto split: if_splits)

lemma wtyped_move_verbs: "wtyped (move_verbs old new)"
  unfolding move_verbs_def Let_def
  by (intro typed_intros wtyped_if_present wtyped_move_row) (auto simp: row_ok_def)

lemma wtyped_move_propdefs: "wtyped (move_propdefs old new)"
proof -
  let ?body = "\<lambda>(k, row).
      let props = (case value_propdefs row of None \<Rightarrow> [] | Some ds \<Rightarrow> ds)
      in if list_ex (\<lambda>prop. pd_definer prop = old) props
         then wbind (upsert ObjectPropdefs k (VPropdefs (map (redefined_prop old new) props))) (\<lambda>_. wret ())
         else wret ()"
  have rest: "wtyped (wbind (rel_get_all ObjectPropdefs) (wfor ?body))"
  proof (rule wtyped_bind_of)
    fix rows
    assume "\<exists>b t t'. tinv b t \<and> rel_get_all ObjectPropdefs t = Some (t', Inr rows)"
    then have "row_ok ObjectPropdefs k v" if "(k, v) \<in> set rows" for k v
      using that rel_get_all_typed by blast
    then have "wtyped (?body x)" if "x \<in> set rows" for x
      using that by (cases x) (auto simp: Let_def row_ok_def intro!: typed_intros wtyped_writes)
    then show "wtyped (wfor ?body rows)" by (intro wtyped_for)
  qed (intro typed_intros)
  show ?thesis
    unfolding move_propdefs_def
    by (rule wtyped_if_present, rule wtyped_bind, rule wtyped_move_row) (simp add: row_ok_def, rule rest)
qed

lemma wtyped_move_property_rows: "fst (relation_type r) = PropertyKey \<Longrightarrow> wtyped (move_property_rows r old new)"
  unfolding move_property_rows_def
  by (intro wtyped_scan_for) (auto simp: row_ok_def prod_eq_iff intro!: wtyped_move_row)

lemma wtyped_move_metadata: "wtyped (move_metadata old new)"
  unfolding move_metadata_def
  by (intro wtyped_scan_for)
    (auto split: option.split intro!: wtyped_ret wtyped_move_row intro: row_ok_same_kind rehome_kind)

lemma wtyped_renumber_rows [typed_intros]: "wtyped (renumber_rows old new)"
proof -
  have "wtyped (redirect r old new)" if "r \<in> set [ObjectParent, ObjectLocation, ObjectOwner]" for r
    using that by (intro wtyped_redirect) auto
  moreover have "wtyped (if_present r (KObj old) (move_row r (KObj old) (KObj new)))"
    if "r \<in> set [ObjectParent, ObjectLocation, ObjectOwner, ObjectFlags, ObjectName]" for r
    by (intro wtyped_if_present wtyped_move_row) (erule row_ok_same_kind, simp)
  ultimately show ?thesis
    unfolding renumber_rows_def
    by (intro wtyped_bind wtyped_for wtyped_move_verbs wtyped_move_propdefs wtyped_move_property_rows wtyped_move_metadata)
      simp_all
qed

lemma next_free_loop_rel: "next_free_loop n t = Some x \<Longrightarrow> same_rows t (fst x)"
  by (rule next_free_loop.raw_induct [of "\<lambda>_ t x. same_rows t (fst x)"])
    (auto simp: object_valid_def rel_has_eq split: sum.splits if_splits)

lemma scan_down_loop_rel: "scan_down_loop m n t = Some x \<Longrightarrow> same_rows t (fst x)"
  by (rule scan_down_loop.raw_induct [of "\<lambda>_ _ t x. same_rows t (fst x)"])
    (auto simp: object_valid_def rel_has_eq split: sum.splits if_splits)

lemma wtyped_renumber_target:
  "wtyped (next_free_loop n)" "wtyped (scan_down_loop m n)" "wtyped (scan_up ns)" "wtyped (max_number seqs)"
proof -
  show "wtyped (next_free_loop n)" by (rule wtyped_same) (drule next_free_loop_rel, simp)
  show "wtyped (scan_down_loop m n)" by (rule wtyped_same) (drule scan_down_loop_rel, simp)
  show "wtyped (scan_up ns)"
    by (induction ns) (simp_all, (intro typed_intros; assumption?)+)
  show "wtyped (max_number seqs)"
    unfolding max_number_def by (intro typed_intros)
qed

lemma wtyped_renumber_edit: "wtyped (renumber_edit gen seqs ob target)"
  unfolding renumber_edit_def renumber_target_def
  by (intro typed_intros wtyped_renumber_target)
    (auto split: object_kind.split intro!: typed_intros wtyped_renumber_target)

end
