(* ===== verification/WorldSteps.thy ===== *)
theory WorldSteps
  imports TypedOps Isolation
begin

text \<open>
  The operations of a world-state transaction. \<open>world_op\<close> lists the operations of
  \<^verbatim>\<open>db/src/engine/ws_transaction.rs\<close> that change the transaction or fill its caches, with their arguments,
  and \<open>run\<close> performs one. With well-typed arguments an operation keeps the types of the rows (\<open>run_typed\<close>)
  and is a sequence of steps of the system of \<open>Isolation\<close> (\<open>sys_tx_steps\<close>); when \<open>guarded\<close> holds it
  keeps the agreement of the caches with the world (\<open>run_ok\<close>). A transaction that starts on a published
  snapshot, with caches that agree with it, has both invariants.
\<close>

section \<open>Operations\<close>

datatype (plugins only: size) (dead 'x) world_op =
    Ancestors obj bool
  | Isa obj obj
  | ObjectChildren obj
  | OwnedObjects obj
  | ObjectContents obj
  | Descendants obj bool
  | QueryObjects object_query
  | ResolveVerb obj symbol_id "verb_args_spec option" "bit_enum option"
  | GetVerbByName obj symbol_id
  | MarkBuiltinAbsent "16 word"
  | ResolveProperty obj symbol_id
  | ResolvePropertyByUuid obj uuid
  | PropertyPermissions obj uuid
  | InsertObject obj obj_attrs
  | RecycleObject obj
  | RecycleObjects "obj list"
  | CollectAnonymous "obj list"
  | SetObjectOwner obj obj
  | SetObjectFlags obj bit_enum
  | SetObjectName obj string
  | SetObjectParent obj obj
  | SetObjectLocation obj obj
  | UpdateVerb obj uuid "'x verb_attrs"
  | AddObjectVerb uuid obj obj "symbol_id list" 'x bit_enum verb_args_spec
  | DeleteVerb obj uuid
  | SetMetadata db_key "'x db_value"
  | ClearMetadata db_key
  | SetProperty obj uuid "'x db_value"
  | DefineProperty uuid obj obj symbol_id obj bit_enum "'x db_value option"
  | UpdatePropertyInfo obj uuid "obj option" "bit_enum option" "symbol_id option"
  | ClearProperty obj uuid
  | ClearPropertyPermissions obj uuid
  | DeleteProperty obj uuid
  | SetLastMove obj obj "'x db_value"
  | FlushCaches
  | RenumberObject "64 word" sequence_state obj "object_kind option"

definition wdo :: "('x, 'a) wm \<Rightarrow> ('x, unit) wm" where
  "wdo m = wbind m (\<lambda>_. wret ())"

primrec run :: "(symbol_id \<Rightarrow> chars) \<Rightarrow> 'x \<Rightarrow> 'x world_op \<Rightarrow> ('x, unit) wm" where
  "run txt nv (Ancestors ob s) = wdo (ancestors ob s)"
| "run txt nv (Isa ob p) = wdo (isa ob p)"
| "run txt nv (ObjectChildren ob) = wdo (get_object_children ob)"
| "run txt nv (OwnedObjects ob) = wdo (get_owned_objects ob)"
| "run txt nv (ObjectContents ob) = wdo (get_object_contents ob)"
| "run txt nv (Descendants ob s) = wdo (descendants ob s)"
| "run txt nv (QueryObjects q) = wdo (query_objects q)"
| "run txt nv (ResolveVerb ob n a f) = wdo (resolve_verb txt ob n a f)"
| "run txt nv (GetVerbByName ob n) = wdo (get_verb_by_name txt ob n)"
| "run txt nv (MarkBuiltinAbsent bi) = wdo (mark_builtin_proxy_absent bi)"
| "run txt nv (ResolveProperty ob n) = wdo (resolve_property nv ob n)"
| "run txt nv (ResolvePropertyByUuid ob u) = wdo (resolve_property_by_uuid nv ob u)"
| "run txt nv (PropertyPermissions ob u) = wdo (retrieve_property_permissions ob u)"
| "run txt nv (InsertObject ob attrs) = wdo (insert_object ob attrs)"
| "run txt nv (RecycleObject ob) = wdo (recycle_object ob)"
| "run txt nv (RecycleObjects obs) = wdo (recycle_objects obs)"
| "run txt nv (CollectAnonymous obs) = wdo (collect_unreachable_anonymous_objects obs)"
| "run txt nv (SetObjectOwner ob p) = wdo (set_object_owner ob p)"
| "run txt nv (SetObjectFlags ob fs) = wdo (set_object_flags ob fs)"
| "run txt nv (SetObjectName ob name) = wdo (set_object_name ob name)"
| "run txt nv (SetObjectParent ob p) = wdo (set_object_parent ob p)"
| "run txt nv (SetObjectLocation ob l) = wdo (set_object_location ob l)"
| "run txt nv (UpdateVerb ob u attrs) = wdo (update_verb ob u attrs)"
| "run txt nv (AddObjectVerb u ob owner names program fs args) = wdo (add_object_verb u ob owner names program fs args)"
| "run txt nv (DeleteVerb ob u) = wdo (delete_verb ob u)"
| "run txt nv (SetMetadata k v) = wdo (set_metadata k v)"
| "run txt nv (ClearMetadata k) = wdo (clear_metadata k)"
| "run txt nv (SetProperty ob u v) = wdo (set_property nv ob u v)"
| "run txt nv (DefineProperty u definer ob n owner fs v) = wdo (define_property nv u definer ob n owner fs v)"
| "run txt nv (UpdatePropertyInfo ob u owner fs n) = wdo (update_property_info ob u owner fs n)"
| "run txt nv (ClearProperty ob u) = wdo (clear_property ob u)"
| "run txt nv (ClearPropertyPermissions ob u) = wdo (clear_local_property_permissions ob u)"
| "run txt nv (DeleteProperty ob u) = wdo (delete_property ob u)"
| "run txt nv (SetLastMove ob l v) = wdo (set_last_move (\<lambda>_. v) ob l)"
| "run txt nv FlushCaches = wdo flush_caches"
| "run txt nv (RenumberObject gen seqs ob target) = wdo (renumber_edit gen seqs ob target)"

text \<open>The arguments have the types of the program: values are \<open>Var\<close>, metadata keys \<open>EntityMetadataKey\<close>.\<close>

definition arguments_ok :: "'x world_op \<Rightarrow> bool" where
  "arguments_ok op =
     (case op of
        SetMetadata k v \<Rightarrow> row_ok EntityMetadata k v
      | ClearMetadata k \<Rightarrow> kind_of_key k = EntityMetadataKey
      | SetProperty ob u v \<Rightarrow> kind_of_value v = VarValue
      | DefineProperty u definer ob n owner fs (Some v) \<Rightarrow> kind_of_value v = VarValue
      | SetLastMove ob l v \<Rightarrow> kind_of_value v = VarValue
      | _ \<Rightarrow> True)"

text \<open>
  What the caches rely on. A new object has no parent and is nobody's parent; a property is defined
  at the object that stores it; the permissions of a property are not cleared at its definition;
  a recycled object is not its own parent. Renumbering is outside: it rewrites the rows a scan
  returns, and a scan also returns rows the transaction has overwritten.
\<close>

definition guarded :: "'x world \<Rightarrow> 'x world_op \<Rightarrow> bool" where
  "guarded w op =
     (case op of
        InsertObject ob attrs \<Rightarrow> fresh_in w ob
      | RecycleObject ob \<Rightarrow> parent_in w ob \<noteq> ob
      | DefineProperty u definer ob n owner fs v \<Rightarrow> definer = ob
      | ClearPropertyPermissions ob u \<Rightarrow> def_at w u ob = None
      | RenumberObject gen seqs ob target \<Rightarrow> False
      | _ \<Rightarrow> True)"

section \<open>Transactions\<close>

definition snapshot_world :: "'x snapshot \<Rightarrow> 'x world" where
  "snapshot_world snap r k = map_option evalue (idx_lookup (s_index snap r) k)"

text \<open>A published snapshot of well-formed relations.\<close>

definition world_root :: "'x relations \<Rightarrow> 'x snapshot \<Rightarrow> bool" where
  "world_root rels snap \<longleftrightarrow> root_wf snap \<and> typed (snapshot_world snap) \<and> definers_local (snapshot_world snap)
     \<and> (\<forall>r. provider_ok (rel_source (rels r))
          \<and> (relation_is_secondary r \<longrightarrow> (\<exists>i. s_index snap r = SecondaryIndexRelation i)))"

section \<open>Invariants\<close>

lemma wok_wdo: "wok txt w m Q \<Longrightarrow> wok txt w (wdo m) (\<lambda>_ _. True)"
  unfolding wdo_def by (erule wok_bind) (rule wok_ret, simp)

lemma wtyped_wdo: "wtyped m \<Longrightarrow> wtyped (wdo m)"
  unfolding wdo_def by (intro typed_intros)

lemma run_typed:
  assumes "arguments_ok op"
  shows "wtyped (run txt nv op)"
  using assms
  by (cases op) (auto simp: arguments_ok_def row_ok_def split: option.splits
      intro!: wtyped_wdo typed_intros wtyped_metadata wtyped_set_property wtyped_define_property wtyped_set_last_move
        wtyped_renumber_edit)

lemma wok_reads:
  "wok txt w (get_owned_objects ob) (\<lambda>_ w'. w' = w)" "wok txt w (query_objects q) (\<lambda>_ w'. w' = w)"
proof -
  have "wkeeps nothing_changed (rel_by_codomain ObjectOwner v)" "wkeeps nothing_changed (rel_by_codomain ObjectParent v)"
    "wkeeps nothing_changed (rel_by_codomain ObjectLocation v)" for v :: "'a db_value"
    by (rule wkeeps_by_codomain, simp add: secondary_relations)+
  note codomains = this
  show "wok txt w (get_owned_objects ob) (\<lambda>_ w'. w' = w)"
    unfolding get_owned_objects_def by (intro wok_unchanged keeps_intros codomains)
  show "wok txt w (query_objects q) (\<lambda>_ w'. w' = w)"
    unfolding query_objects_def query_candidates_def query_candidate_def check_filter_def check_flags_def or_nothing_def
      get_object_contents_def get_object_children_def get_owned_objects_def get_objects_def get_object_parent_def
      get_object_location_def get_object_owner_def get_object_flags_def
    by (intro wok_unchanged keeps_intros codomains wkeeps_fold)
qed

lemma wok_resolve_verb: "wok txt w (resolve_verb txt ob n a f) (\<lambda>_ w'. w' = w)"
  unfolding resolve_verb_def
  by (rule wok_bind [OF wok_resolve_verb_handle]) (simp add: wok_lookup_resolved_verbdef)

lemmas wok_operations = wok_ancestors wok_isa wok_children wok_reads wok_contents wok_descendants wok_resolve_verb
  wok_get_verb_by_name wok_mark_builtin wok_resolve_property wok_resolve_property_by_uuid
  wok_retrieve_property_permissions wok_insert_object wok_recycle_object wok_recycle_objects wok_collect
  wok_set_object_owner wok_set_object_flags wok_set_object_name wok_set_object_parent wok_set_object_location
  wok_update_verb wok_add_object_verb wok_delete_verb wok_metadata wok_set_property wok_define_property
  wok_update_property_info wok_clear_property wok_clear_local_property_permissions wok_delete_property
  wok_set_last_move wok_flush_caches

lemma run_ok:
  assumes "guarded w op"
  shows "wok txt w (run txt nv op) (\<lambda>_ _. True)"
  using assms by (cases op) (auto simp: guarded_def intro: wok_wdo wok_operations)

section \<open>The start\<close>

definition snapshot_rows :: "'x snapshot \<Rightarrow> 'x base_rows" where
  "snapshot_rows snap r k = Inr (map_option (\<lambda>e. (ets e, evalue e)) (idx_lookup (s_index snap r) k))"

lemma start_relations:
  fixes cs :: db_caches
  assumes "world_root rels snap" and "committed_ts snap < n"
  defines "t \<equiv> relations_start_transaction rels (tx_seed_of n snap cs)"
  shows "wt_ok t" and "base_rows t = snapshot_rows snap" and "world t = snapshot_world snap"
    and "wt_caches t = caches_fork cs" and "wt_perm_memo t = memo_new"
proof -
  have "tx_ok snap t" unfolding t_def by (rule tx_ok_start) (use assms in \<open>simp_all add: world_root_def\<close>)
  then have rt: "rt_ok (wt_rel t r)" "rt_loaded (wt_rel t r)" "ti_deref (rt_master (wt_rel t r)) = s_index snap r" for r
    by (simp_all add: tx_ok_def)
  have new: "lo_get (rt_local (wt_rel t r)) k = None" "rt_provider (wt_rel t r) = rel_source (rels r)" for r k
    by (simp_all add: t_def relations_start_transaction_def tx_seed_of_def start_borrowed_def Let_def rt_new_borrowed_def
        lo_new_def)
  show "wt_ok t"
    unfolding wt_ok_def rel_ok_def using rt new(2) assms(1) by (auto simp: world_root_def)
  show rows: "base_rows t = snapshot_rows snap"
    using rt by (auto simp: base_rows_def snapshot_rows_def rt_base_def fun_eq_iff split: option.split)
  have "rt_view (wt_rel t r) k = Inr (snapshot_world snap r k)" for r k
    using fun_cong [OF fun_cong [OF rows, of r], of k]
    by (auto simp: rt_view_def new(1) base_rows_def snapshot_rows_def snapshot_world_def option.map_comp comp_def)
  then show "world t = snapshot_world snap" by (auto simp: world_def fun_eq_iff)
  show "wt_caches t = caches_fork cs" "wt_perm_memo t = memo_new"
    by (simp_all add: t_def relations_start_transaction_def tx_seed_of_def Let_def)
qed

lemma start_typed:
  assumes "world_root rels snap" and "committed_ts snap < n"
  shows "tinv (snapshot_rows snap) (relations_start_transaction rels (tx_seed_of n snap cs))"
proof -
  note s = start_relations [OF assms, of cs]
  have "typed (snapshot_world snap)" using assms(1) by (simp add: world_root_def)
  then have "base_typed (snapshot_rows snap)"
    by (auto simp: base_typed_def snapshot_rows_def typed_def snapshot_world_def)
  with s \<open>typed (snapshot_world snap)\<close> show ?thesis by (simp add: tinv_def)
qed

lemma fork_lookups [simp]:
  "vc_lookup_spec (vc_fork c) ob n a f = vc_lookup_spec c ob n a f"
  "vc_lookup_first_parent (vc_fork c) ob = vc_lookup_first_parent c ob"
  "pc_lookup (pc_fork d) ob n = pc_lookup d ob n" "pc_lookup_first_parent (pc_fork d) ob = pc_lookup_first_parent d ob"
  "ac_lookup (ac_fork e) ob = ac_lookup e ob"
  by (simp_all add: vc_defs pc_defs ac_lookup_def ac_fork_def vc_fork_def pc_fork_def)

lemma new_lookups [simp]:
  "vc_lookup_spec vc_new ob n a f = None" "vc_lookup_first_parent vc_new ob = None"
  "pc_lookup pc_new ob n = None" "pc_lookup_first_parent pc_new ob = None" "ac_lookup ac_default ob = None"
  "cached_perms memo_new h = None"
  by (simp_all add: vc_defs pc_defs ac_lookup_def ac_default_def vc_new_def pc_new_def cached_perms_def memo_new_def)

definition caches_sound :: "(symbol_id \<Rightarrow> chars) \<Rightarrow> 'x world \<Rightarrow> db_caches \<Rightarrow> bool" where
  "caches_sound txt w cs \<longleftrightarrow> verbs_sound txt w (verb_resolution_cache cs)
     \<and> props_sound w (prop_resolution_cache cs) \<and> lines_sound w (ancestry_cache cs)"

lemma caches_sound_fork: "caches_sound txt w (caches_fork cs) = caches_sound txt w cs"
  by (simp add: caches_sound_def caches_fork_def verbs_sound_def props_sound_def lines_sound_def)

lemma caches_sound_new: "caches_sound txt w caches_new"
  by (simp add: caches_sound_def caches_new_def verbs_sound_def props_sound_def lines_sound_def)

lemma start_winv:
  assumes root: "world_root rels snap" and "committed_ts snap < n" and cs: "caches_sound txt (snapshot_world snap) cs"
  shows "winv txt (relations_start_transaction rels (tx_seed_of n snap cs))"
proof -
  note start = start_relations [OF assms(1,2), of cs]
  have "definers_local (snapshot_world snap)"
    using root by (simp add: world_root_def)
  with start cs caches_sound_fork [of "txt" "snapshot_world snap" cs] show ?thesis
    by (simp add: winv_def caches_sound_def memo_sound_def)
qed

text \<open>Without a write the transaction sees its snapshot.\<close>

lemma no_writes_world:
  assumes "tinv (snapshot_rows snap) t" and "\<not> wt_has_mutations t"
  shows "world t = snapshot_world snap"
proof (intro ext)
  fix r k
  have "lo_is_empty (rt_local (wt_rel t r))"
    using assms(2) ALL_RELATIONS_all [of r] by (auto simp: wt_has_mutations_def rt_has_mutations_def list_ex_iff)
  moreover have "rt_ok (wt_rel t r)" using assms(1) by (simp add: tinv_def wt_ok_def rel_ok_def)
  ultimately have "lo_get (rt_local (wt_rel t r)) k = None"
    by (auto simp: lo_is_empty_def)
  moreover have "rt_base (wt_rel t r) k = snapshot_rows snap r k"
    using assms(1) unfolding tinv_def by (metis base_rows_def)
  ultimately show "world t r k = snapshot_world snap r k"
    by (auto simp: world_def rt_view_def snapshot_rows_def snapshot_world_def option.map_comp comp_def)
qed

section \<open>Operations in the system\<close>

lemma sys_tx_step:
  assumes "sys_reachable dh rd s" and "sy_thread s i = Running t" and "tx_step t t'"
  shows "sys_reachable dh rd (set_thread s i (Running t'))"
  using assms(3)
proof cases
  case (work r rt)
  with assms show ?thesis by (auto intro: sys_reachable.step sys_step.work)
next
  case (note_reads obs props cs memo revision)
  with assms show ?thesis by (auto intro: sys_reachable.step sys_step.note_reads)
qed

lemma set_thread_same: "sy_thread s i = th \<Longrightarrow> set_thread s i th = s"
  by (auto simp: set_thread_def fun_upd_idem)

lemma set_thread_twice [simp]: "set_thread (set_thread s i a) i c = set_thread s i c"
  by (simp add: set_thread_def)

lemma set_thread_lookup [simp]: "sy_thread (set_thread s i th) i = th"
  by (simp add: set_thread_def)

lemma sys_tx_steps:
  assumes "sys_reachable dh rd s" and "sy_thread s i = Running t" and "tx_steps t t'"
  shows "sys_reachable dh rd (set_thread s i (Running t'))"
  using assms(3)
proof induction
  case base
  show ?case using assms(1) by (simp add: set_thread_same [OF assms(2)])
next
  case (step u v)
  from sys_tx_step [OF step(3) set_thread_lookup step(2)] show ?case by simp
qed

end
