(* ===== verification/PropExact.thy ===== *)
theory PropExact
  imports WorldSteps
begin

text \<open>
  The result of a property read as a function of the world. \<open>wdoes txt w m r\<close>: run in the world \<open>w\<close> with the
  invariant, \<open>m\<close> returns, its result is \<open>r\<close>, and it keeps the invariant and the world. The chain of
  parents \<open>xs\<close> of the object is given by \<open>line\<close>.
\<close>

definition wdoes :: "(symbol_id \<Rightarrow> chars) \<Rightarrow> 'x world \<Rightarrow> ('x, 'a) wm \<Rightarrow> world_state_error + 'a \<Rightarrow> bool" where
  "wdoes txt w m r \<longleftrightarrow>
     (\<forall>t. winv txt t \<longrightarrow> world t = w \<longrightarrow> (\<exists>t'. m t = Some (t', r) \<and> winv txt t' \<and> world t' = w))"

lemma wdoesI:
  "(\<And>t. winv txt t \<Longrightarrow> world t = w \<Longrightarrow> \<exists>t'. m t = Some (t', r) \<and> winv txt t' \<and> world t' = w) \<Longrightarrow> wdoes txt w m r"
  by (simp add: wdoes_def)

lemma wdoesD:
  assumes "wdoes txt w m r" and "winv txt t" and "world t = w"
  obtains t' where "m t = Some (t', r)" and "winv txt t'" and "world t' = w"
  using assms unfolding wdoes_def by blast

lemma wdoes_same: "(\<And>t. winv txt t \<Longrightarrow> world t = w \<Longrightarrow> m t = Some (t, r)) \<Longrightarrow> wdoes txt w m r"
  by (simp add: wdoes_def)

lemma wdoes_bind:
  assumes "wdoes txt w m (Inr a)" and "wdoes txt w (f a) r"
  shows "wdoes txt w (wbind m f) r"
proof (rule wdoesI)
  fix t
  assume t: "winv txt t" "world t = w"
  obtain t1 where t1: "m t = Some (t1, Inr a)" "winv txt t1" "world t1 = w" by (rule wdoesD [OF assms(1) t])
  obtain t' where "f a t1 = Some (t', r)" "winv txt t'" "world t' = w" by (rule wdoesD [OF assms(2) t1(2,3)])
  with t1(1) show "\<exists>t'. wbind m f t = Some (t', r) \<and> winv txt t' \<and> world t' = w" by (simp add: wbind_def)
qed

lemma wdoes_bind_error:
  assumes "wdoes txt w m (Inl e)"
  shows "wdoes txt w (wbind m f) (Inl e)"
proof (rule wdoesI)
  fix t
  assume "winv txt t" "world t = w"
  then obtain t' where "m t = Some (t', Inl e)" "winv txt t'" "world t' = w" by (rule wdoesD [OF assms])
  then show "\<exists>t'. wbind m f t = Some (t', Inl e) \<and> winv txt t' \<and> world t' = w"
    by (simp add: wbind_def)
qed

lemma wdoes_ret: "wdoes txt w (wret a) (Inr a)" "wdoes txt w (wfail e) (Inl e)"
  by (rule wdoes_same, simp add: wret_def wfail_def)+

text \<open>A read of the caches: the rest gives the same result for every value they may have.\<close>

lemma wdoes_state:
  assumes "\<And>t. winv txt t \<Longrightarrow> world t = w \<Longrightarrow> wdoes txt w (f (g t)) r"
  shows "wdoes txt w (wbind (wstate g) f) r"
proof (rule wdoesI)
  fix t
  assume t: "winv txt t" "world t = w"
  obtain t' where "f (g t) t = Some (t', r)" "winv txt t'" "world t' = w" by (rule wdoesD [OF assms [OF t] t])
  then show "\<exists>t'. wbind (wstate g) f t = Some (t', r) \<and> winv txt t' \<and> world t' = w"
    by (simp add: wbind_def wstate_def)
qed

lemma winv_view: "winv txt t \<Longrightarrow> world t = w \<Longrightarrow> rt_view (wt_rel t r) k = Inr (w r k)"
  using wt_ok_readable [of t] by (auto simp: winv_def readable_def)

lemma wdoes_get: "wdoes txt w (rel_get r k) (Inr (w r k))"
  by (rule wdoes_same) (simp add: rel_get_eq winv_view)

lemma wdoes_with: "wdoes txt w (rel_with r k f) (Inr (map_option f (w r k)))"
  by (rule wdoes_same) (simp add: rel_with_eq winv_view)

lemma wdoes_read: "wdoes txt w (rel_read sel r k) (Inr (Option.bind (w r k) sel))"
  unfolding rel_read_def by (rule wdoes_bind [OF wdoes_get wdoes_ret(1)])

lemma wdoes_owner: "wdoes txt w (get_object_owner ob) (Inr (owner_in w ob))"
  unfolding get_object_owner_def owner_in_def by (rule wdoes_bind [OF wdoes_read wdoes_ret(1)])

lemma wdoes_local_perms: "wdoes txt w (local_perms ob u) (Inr (flags_in w ob u))"
proof -
  have "flags_in w ob u = Option.bind (map_option value_perms (w ObjectPropflags (KProperty ob u))) (\<lambda>p. p)"
    by (cases "w ObjectPropflags (KProperty ob u)") (simp_all add: flags_in_def)
  then show ?thesis
    unfolding local_perms_def by (simp only:) (rule wdoes_bind [OF wdoes_with wdoes_ret(1)])
qed

lemma wdoes_with_propdefs:
  assumes "g [] = None"
  shows "wdoes txt w (with_propdefs ob g) (Inr (g (props_in w ob)))"
proof -
  have "g (props_in w ob) = Option.bind (map_option (\<lambda>v. Option.bind (value_propdefs v) g) (w ObjectPropdefs (KObj ob))) (\<lambda>a. a)"
    using assms by (cases "w ObjectPropdefs (KObj ob)") (auto simp: props_in_def split: option.split)
  then show ?thesis
    unfolding with_propdefs_def by (simp only:) (rule wdoes_bind [OF wdoes_with wdoes_ret(1)])
qed

section \<open>Ancestors\<close>

lemma ancestors_loop_total:
  assumes "\<And>x. rt_get rt (KObj x) = Inr (v x)"
    and "\<And>x. up x = (case Option.bind (v x) value_obj of None \<Rightarrow> NOTHING | Some p \<Rightarrow> p)"
    and "line up cur = Some (cur # rest)"
  shows "ancestors_loop rt cur acc = Some (acc @ rest)"
  using assms(3)
proof (induction rest arbitrary: cur acc)
  case Nil
  then have "is_nothing (up cur)"
    using line_head by (cases "is_nothing (up cur)") fastforce+
  then show ?case
    using assms(1,2) by (subst ancestors_loop.simps) (auto split: option.split)
next
  case (Cons y rest)
  then have up: "\<not> is_nothing (up cur)" by auto
  with Cons.prems obtain ys where "line up (up cur) = Some ys" "ys = y # rest" by auto
  with line_head [of up "up cur"] have y: "y = up cur" by auto
  with Cons.prems up have "line up (up cur) = Some (up cur # rest)" by auto
  from Cons.IH [OF this] up show ?case
    using assms(1) [of cur] assms(2) [of cur]
    by (subst ancestors_loop.simps) (auto simp: y NOTHING_def is_nothing_def split: option.splits)
qed

lemma wdoes_ancestors:
  assumes "line (parent_in w) ob = Some (ob # rest)"
  shows "wdoes txt w (ancestors ob s) (Inr (if s then ob # rest else rest))"
proof (rule wdoesI)
  fix t
  assume t: "winv txt t" "world t = w"
  show "\<exists>t'. ancestors ob s t = Some (t', Inr (if s then ob # rest else rest)) \<and> winv txt t' \<and> world t' = w"
  proof (cases "ac_lookup (ancestry_cache (wt_caches t)) ob")
    case (Some hit)
    with t have "line (parent_in w) ob = Some (ob # hit)" by (auto simp: winv_def lines_sound_def)
    with assms t Some show ?thesis by (simp add: ancestors_def)
  next
    case None
    have "ancestors_loop (wt_rel t ObjectParent) ob [] = Some ([] @ rest)"
      by (rule ancestors_loop_total [where up = "parent_in w", OF _ _ assms])
        (simp_all add: rt_get_eq_view winv_view [OF t] parent_in_def)
    with None t winv_fill_line [OF t(1), of ob rest] assms show ?thesis by (simp add: ancestors_def)
  qed
qed

lemma wdoes_find_in_ancestors:
  "wdoes txt w (find_in_ancestors u xs) (Inr (first_of (def_at w u) xs))"
proof (induction xs)
  case (Cons x xs)
  have "wdoes txt w (with_propdefs x (\<lambda>props. defs_find pd_uuid props u)) (Inr (def_at w u x))"
    using wdoes_with_propdefs [of "\<lambda>props. defs_find pd_uuid props u" "txt" w x] by (simp add: def_at_def defs_find_def)
  then show ?case
    unfolding find_in_ancestors.simps
    by (rule wdoes_bind) (use Cons in \<open>auto split: option.split intro: wdoes_ret\<close>)
qed (simp add: wdoes_ret)

lemma wdoes_find_property_by_uuid:
  assumes "line (parent_in w) ob = Some (ob # rest)"
  shows "wdoes txt w (find_property_by_uuid ob u)
     (case first_of (def_at w u) (ob # rest) of None \<Rightarrow> Inl (PropertyNotFound ob) | Some d \<Rightarrow> Inr d)"
  unfolding find_property_by_uuid_def
  by (rule wdoes_bind [OF wdoes_ancestors [OF assms]], rule wdoes_bind, rule wdoes_find_in_ancestors)
    (simp add: wdoes_ret split: option.split)

section \<open>Permissions\<close>

text \<open>The permissions of a property on an object, and the errors when there are none.\<close>

definition perms_ref :: "'x world \<Rightarrow> obj \<Rightarrow> uuid \<Rightarrow> obj list \<Rightarrow> world_state_error + prop_perms" where
  "perms_ref w ob u xs =
     (case flags_in w ob u of
        Some p \<Rightarrow> Inr p
      | None \<Rightarrow>
          (case first_of (def_at w u) xs of
             None \<Rightarrow> Inl (PropertyNotFound ob)
           | Some d \<Rightarrow>
               (case flags_in w (pd_definer d) u of
                  None \<Rightarrow> Inl DatabaseError
                | Some c \<Rightarrow> Inr (inherited_perms w ob d c))))"

lemma perms_are_ref:
  assumes "perms_are w ob u p" and "line (parent_in w) ob = Some xs"
  shows "perms_ref w ob u xs = Inr p"
proof (cases "flags_in w ob u")
  case None
  with assms(1) obtain d c where f: "finds (parent_in w) (def_at w u) ob (Some d)"
    and c: "flags_in w (pd_definer d) u = Some c" "p = inherited_perms w ob d c"
    by (auto simp: perms_are_def)
  with None finds_line [OF f assms(2), symmetric] show ?thesis by (simp add: perms_ref_def)
qed (use assms(1) in \<open>simp add: perms_are_def perms_ref_def\<close>)

lemma ref_perms_are:
  assumes "perms_ref w ob u xs = Inr p" and "line (parent_in w) ob = Some xs"
  shows "perms_are w ob u p"
proof (cases "flags_in w ob u")
  case None
  with assms(1) obtain d c where d: "first_of (def_at w u) xs = Some d"
    and c: "flags_in w (pd_definer d) u = Some c" "p = inherited_perms w ob d c"
    by (auto simp: perms_ref_def split: option.splits)
  have "finds (parent_in w) (def_at w u) ob (Some d)"
    using finds_first [OF assms(2), of "def_at w u"] d by simp
  with None c show ?thesis by (auto simp: perms_are_def)
qed (use assms(1) in \<open>simp add: perms_are_def perms_ref_def\<close>)

lemma wdoes_cache_perms:
  assumes "perms_are w ob u p"
  shows "wdoes txt w (wbind (wmodify (on_memo (\<lambda>m. cache_perms m (ob, u) p))) (\<lambda>_. wret p)) (Inr p)"
proof (rule wdoesI)
  fix t
  assume t: "winv txt t" "world t = w"
  let ?m = "wmodify (on_memo (\<lambda>m. cache_perms m (ob, u) p))"
  have run: "?m t = Some (on_memo (\<lambda>m. cache_perms m (ob, u) p) t, Inr ())" by (simp add: wmodify_def)
  from wokD [OF wok_cache_perms [OF assms] t run]
  show "\<exists>t'. wbind ?m (\<lambda>_. wret p) t = Some (t', Inr p) \<and> winv txt t' \<and> world t' = w"
    by (simp add: wbind_def run wret_def)
qed

lemma wdoes_permissions:
  assumes line: "line (parent_in w) ob = Some (ob # rest)"
  shows "wdoes txt w (retrieve_property_permissions ob u) (perms_ref w ob u (ob # rest))"
  unfolding retrieve_property_permissions_def
proof (rule wdoes_state, goal_cases)
  case (1 t)
  let ?ref = "perms_ref w ob u (ob # rest)"
  note own_perms = wdoes_bind [OF wdoes_local_perms [of "txt" w ob u]]
  note uuid = wdoes_find_property_by_uuid [OF line, of "txt" u]
  show ?case
  proof (cases "cached_perms (wt_perm_memo t) (ob, u)")
    case (Some p)
    with 1 have "perms_are w ob u p" by (auto simp: winv_def memo_sound_def)
    from perms_are_ref [OF this line] Some show ?thesis by (simp add: wdoes_ret)
  next
    case memo: None
    show ?thesis
    proof (cases "flags_in w ob u")
      case (Some p)
      then have "perms_are w ob u p" and "?ref = Inr p" by (simp_all add: perms_are_def perms_ref_def)
      then show ?thesis
        by (simp only: memo option.case) (rule own_perms, simp only: Some option.case, rule wdoes_cache_perms)
    next
      case own: None
      show ?thesis
      proof (cases "first_of (def_at w u) (ob # rest)")
        case None
        with own have ref: "?ref = Inl (PropertyNotFound ob)" by (simp add: perms_ref_def)
        from uuid have "wdoes txt w (find_property_by_uuid ob u) (Inl (PropertyNotFound ob))"
          by (simp only: None option.case)
        then show ?thesis
          by (simp only: memo option.case ref) (rule own_perms, simp only: own option.case, rule wdoes_bind_error)
      next
        case (Some d)
        from uuid have uuid: "wdoes txt w (find_property_by_uuid ob u) (Inr d)" by (simp only: Some option.case)
        note def_perms = wdoes_bind [OF wdoes_local_perms [of "txt" w "pd_definer d" u]]
        show ?thesis
        proof (cases "flags_in w (pd_definer d) u")
          case None
          with own Some have "?ref = Inl DatabaseError" by (simp add: perms_ref_def)
          then show ?thesis
            by (simp only: memo option.case)
              (rule own_perms, simp only: own option.case, rule wdoes_bind [OF uuid], unfold Let_def,
                rule def_perms, simp only: None option.case, rule wdoes_ret)
        next
          case c: (Some c)
          let ?p = "inherited_perms w ob d c"
          have ref: "?ref = Inr ?p" using own Some c by (simp add: perms_ref_def)
          have owner: "wdoes txt w (if be_contains prop_flag_index (pp_flags c) PropChown \<and> ob \<noteq> pd_definer d
                 then wbind (get_object_owner ob) (\<lambda>obj_owner. wret (prop_perms_with_owner c obj_owner))
                 else wret c) (Inr ?p)"
            by (simp add: inherited_perms_def wdoes_ret wdoes_bind [OF wdoes_owner])
          show ?thesis
            by (simp only: memo option.case ref)
              (rule own_perms, simp only: own option.case, rule wdoes_bind [OF uuid], unfold Let_def,
                rule def_perms, simp only: c option.case, rule wdoes_bind [OF owner],
                rule wdoes_cache_perms [OF ref_perms_are [OF ref line]])
        qed
      qed
    qed
  qed
qed

section \<open>Names\<close>

lemma prop_loops_total:
  assumes t: "winv txt t" "world t = w" and "line (parent_in w) s = Some xs"
  shows "\<exists>r. first_props_loop t s = Some (Inr r)" and "\<exists>r. named_prop_loop t n s = Some (Inr r)"
proof -
  have parent: "parent_of (wt_rel t ObjectParent) x = Inr (parent_in w x)" for x
    by (simp add: parent_of_def rt_get_eq_view winv_view [OF t] parent_in_def)
  have view: "rt_with_domain_value (wt_rel t ObjectPropdefs) (KObj x) value_propdefs =
      Inr (map_option value_propdefs (w ObjectPropdefs (KObj x)))" for x
    by (simp add: rt_with_domain_value_eq_view winv_view [OF t])
  have both: "(\<exists>r. first_props_loop t s = Some (Inr r)) \<and> (\<exists>r. named_prop_loop t n s = Some (Inr r))"
    using assms(3)
  proof (induction xs arbitrary: s)
    case Nil
    then show ?case using line_head by fastforce
  next
    case (Cons x xs)
    have "(\<exists>r. first_props_loop t (parent_in w s) = Some (Inr r)) \<and> (\<exists>r. named_prop_loop t n (parent_in w s) = Some (Inr r))"
      if "\<not> is_nothing (parent_in w s)"
      using Cons that by auto
    then show ?case
      by (subst first_props_loop.simps, subst named_prop_loop.simps)
        (auto simp: view parent split: option.split)
  qed
  then show "\<exists>r. first_props_loop t s = Some (Inr r)" and "\<exists>r. named_prop_loop t n s = Some (Inr r)" by simp_all
qed

lemma find_named_from_exact:
  assumes t: "winv txt t" "world t = w" and line: "line (parent_in w) ob = Some xs"
    and first: "finds (parent_in w) (has_props w) ob (Some s)"
  shows "\<exists>t'. find_named_from ob n s t = Some (t', Inr (first_of (prop_at w n) xs)) \<and> winv txt t' \<and> world t' = w"
proof -
  from first obtain pre where p: "path (parent_in w) ob pre s" "\<forall>x \<in> set pre. has_props w x = None"
    by (auto simp: finds_def has_props_def split: if_splits)
  with line obtain ys where "line (parent_in w) s = Some ys" by (auto simp: path_line)
  with prop_loops_total(2) [OF t] obtain r where loop: "named_prop_loop t n s = Some (Inr r)" by blast
  have "finds (parent_in w) (prop_at w n) s r" using named_prop_loop_finds [OF loop] t(2) by simp
  then have fd: "finds (parent_in w) (prop_at w n) ob r"
    using finds_path [OF p(1)] p(2) has_props_prop_at by blast
  from finds_line [OF fd line] have r: "first_of (prop_at w n) xs = r" by simp
  from winv_fill_prop [OF t(1), of n ob r] fd t(2) loop show ?thesis
    by (auto simp: find_named_from_def pc_fill_as_answer r split: option.split)
qed

lemma wdoes_find_property_by_name:
  assumes line: "line (parent_in w) ob = Some xs"
  shows "wdoes txt w (find_property_by_name ob n) (Inr (first_of (prop_at w n) xs))"
proof (rule wdoesI)
  fix t
  assume t: "winv txt t" "world t = w"
  have none: "first_of (prop_at w n) xs = None" if "finds (parent_in w) (has_props w) ob None"
    using finds_line [OF that line, symmetric] by (simp add: first_of_None has_props_prop_at)
  show "\<exists>t'. find_property_by_name ob n t = Some (t', Inr (first_of (prop_at w n) xs)) \<and> winv txt t' \<and> world t' = w"
  proof (cases "pc_lookup (prop_resolution_cache (wt_caches t)) ob n")
    case (Some r)
    with t have "finds (parent_in w) (prop_at w n) ob r" by (auto simp: winv_def props_sound_def)
    from finds_line [OF this line] Some t show ?thesis by (simp add: find_property_by_name_def)
  next
    case miss: None
    show ?thesis
    proof (cases "pc_lookup_first_parent (prop_resolution_cache (wt_caches t)) ob")
      case (Some q)
      with t have q: "finds (parent_in w) (has_props w) ob q" by (auto simp: winv_def props_sound_def)
      with none find_named_from_exact [OF t line] miss Some t show ?thesis
        by (cases q) (auto simp: find_property_by_name_def)
    next
      case None
      obtain q where loop: "first_props_loop t ob = Some (Inr q)" using prop_loops_total(1) [OF t line] by blast
      from first_props_loop_finds [OF loop] t(2) have q: "finds (parent_in w) (has_props w) ob q" by simp
      show ?thesis
      proof (cases q)
        case q: None
        with none miss None loop t q show ?thesis
          using \<open>finds (parent_in w) (has_props w) ob q\<close> by (simp add: find_property_by_name_def)
      next
        case s: (Some s)
        have "winv txt (on_props (\<lambda>c. pc_fill_first_parent c ob (Some s)) t)"
          using winv_fill_first_props [OF t(1), of ob "Some s"] q s t(2) by simp
        from find_named_from_exact [OF this _ line, of s n] q s t(2) miss None loop show ?thesis
          by (simp add: find_property_by_name_def)
      qed
    qed
  qed
qed

section \<open>Values\<close>

lemma wdoes_inherited_value:
  "wdoes txt w (inherited_value u xs) (Inr (first_of (\<lambda>x. w ObjectPropvalues (KProperty x u)) xs))"
proof (induction xs)
  case (Cons x xs)
  show ?case
    unfolding inherited_value.simps
    by (rule wdoes_bind [OF wdoes_get]) (use Cons in \<open>auto split: option.split intro: wdoes_ret\<close>)
qed (simp add: wdoes_ret)

text \<open>The reference: the nearest definition, its permissions, and the nearest value.\<close>

definition value_ref :: "'x world \<Rightarrow> 'x \<Rightarrow> uuid \<Rightarrow> obj list \<Rightarrow> 'x db_value" where
  "value_ref w nv u xs =
     (case first_of (\<lambda>x. w ObjectPropvalues (KProperty x u)) xs of None \<Rightarrow> v_none nv | Some v \<Rightarrow> v)"

definition property_ref ::
  "'x world \<Rightarrow> 'x \<Rightarrow> obj \<Rightarrow> symbol_id \<Rightarrow> obj list \<Rightarrow> world_state_error + propdef \<times> 'x db_value \<times> prop_perms \<times> bool" where
  "property_ref w nv ob n xs =
     (case first_of (prop_at w n) xs of
        None \<Rightarrow> Inl (PropertyNotFound ob)
      | Some d \<Rightarrow>
          (case perms_ref w ob (pd_uuid d) xs of
             Inl e \<Rightarrow> Inl e
           | Inr p \<Rightarrow>
               Inr (d, value_ref w nv (pd_uuid d) xs, p, w ObjectPropvalues (KProperty ob (pd_uuid d)) = None)))"

lemma wdoes_resolve_property:
  assumes line: "line (parent_in w) ob = Some (ob # rest)"
  shows "wdoes txt w (resolve_property nv ob n) (property_ref w nv ob n (ob # rest))"
  unfolding resolve_property_def
proof (rule wdoes_bind [OF wdoes_find_property_by_name [OF line]])
  let ?d = "first_of (prop_at w n) (ob # rest)"
  show "wdoes txt w (case ?d of None \<Rightarrow> wfail (PropertyNotFound ob)
       | Some propdef \<Rightarrow>
           wbind (retrieve_property ob (pd_uuid propdef)) (\<lambda>(pvalue, perms).
             case pvalue of
               Some value \<Rightarrow> wret (propdef, value, perms, False)
             | None \<Rightarrow>
                 wbind (ancestors ob False) (\<lambda>line.
                   wbind (inherited_value (pd_uuid propdef) line) (\<lambda>value.
                     wret (propdef, case value of None \<Rightarrow> v_none nv | Some v \<Rightarrow> v, perms, True)))))
     (property_ref w nv ob n (ob # rest))"
  proof (cases ?d)
    case None
    then show ?thesis by (simp add: property_ref_def wdoes_ret)
  next
    case (Some d)
    let ?u = "pd_uuid d"
    note perms = wdoes_permissions [OF line, of "txt" ?u]
    show ?thesis
    proof (cases "perms_ref w ob ?u (ob # rest)")
      case (Inl e)
      with perms have "wdoes txt w (retrieve_property ob ?u) (Inl e)"
        unfolding retrieve_property_def by (intro wdoes_bind [OF wdoes_get] wdoes_bind_error) simp
      then show ?thesis
        unfolding property_ref_def by (simp only: Some option.case Inl sum.case) (rule wdoes_bind_error)
    next
      case (Inr p)
      with perms have "wdoes txt w (retrieve_property ob ?u) (Inr (w ObjectPropvalues (KProperty ob ?u), p))"
        unfolding retrieve_property_def
        by (intro wdoes_bind [OF wdoes_get]) (simp, erule wdoes_bind, rule wdoes_ret)
      note own = wdoes_bind [OF this]
      show ?thesis
      proof (cases "w ObjectPropvalues (KProperty ob ?u)")
        case (Some v)
        then show ?thesis
          unfolding property_ref_def using \<open>?d = Some d\<close> Inr
          by (simp only: option.case sum.case) (rule own, simp add: value_ref_def wdoes_ret)
      next
        case None
        have "value_ref w nv ?u (ob # rest) = (case first_of (\<lambda>x. w ObjectPropvalues (KProperty x ?u)) rest of
            None \<Rightarrow> v_none nv | Some v \<Rightarrow> v)"
          by (simp add: value_ref_def None)
        with None Some Inr show ?thesis
          unfolding property_ref_def
          by (simp only: option.case sum.case)
            (rule own, simp only: prod.case None option.case,
              rule wdoes_bind [OF wdoes_ancestors [OF line, where s = False]], simp only: if_False,
              rule wdoes_bind [OF wdoes_inherited_value], simp add: wdoes_ret)
      qed
    qed
  qed
qed

end
