(* ===== verification/Containment.thy ===== *)
theory Containment
  imports WorldHier
begin

text \<open>
  The containment hierarchy of \<open>ObjectLocation\<close>: \<open>set_object_location\<close> climbs from the new location and
  refuses a move that would put an object inside itself.
\<close>

definition location_in :: "'x world \<Rightarrow> obj \<Rightarrow> obj" where
  "location_in w ob = (case Option.bind (w ObjectLocation (KObj ob)) value_obj of None \<Rightarrow> NOTHING | Some p \<Rightarrow> p)"

text \<open>No object is inside itself.\<close>

definition acyclic_up :: "(obj \<Rightarrow> obj) \<Rightarrow> bool" where
  "acyclic_up up \<longleftrightarrow> wfp (\<lambda>p c. climbs up c p)"

lemma acyclic_up_not_self:
  assumes "acyclic_up up"
  shows "\<not> (climbs up)\<^sup>+\<^sup>+ ob ob"
proof
  have "(climbs up)\<^sup>+\<^sup>+ c p \<Longrightarrow> (p, c) \<in> {(p, c). climbs up c p}\<^sup>+" for c p
    by (induction rule: tranclp_induct) (auto intro: trancl_into_trancl2)
  moreover assume "(climbs up)\<^sup>+\<^sup>+ ob ob"
  moreover have "acyclic {(p, c). climbs up c p}"
    using assms by (simp add: acyclic_up_def wfp_def wf_acyclic)
  ultimately show False by (auto simp: acyclic_def)
qed

lemma acyclic_up_move:
  assumes "acyclic_up up" and "\<not> (\<not> is_nothing l \<and> climbs_to up l what)"
  shows "acyclic_up (up(what := l))"
proof -
  let ?R = "{(p, c). climbs up c p}"
  have rtrancl: "(x, y) \<in> ?R\<^sup>* \<Longrightarrow> climbs_to up y x" for x y
    by (induction rule: rtrancl_induct) (auto intro: converse_rtranclp_into_rtranclp)
  have wf: "wf ?R" using assms(1) by (simp add: acyclic_up_def wfp_def)
  have "wf {(p, c). climbs (up(what := l)) c p}"
  proof (cases "is_nothing l")
    case True
    then show ?thesis by (intro wf_subset [OF wf]) (auto simp: climbs_def split: if_splits)
  next
    case False
    with assms(2) rtrancl have "(what, l) \<notin> ?R\<^sup>*" by blast
    with wf have "wf (insert (l, what) ?R)" by simp
    then show ?thesis by (rule wf_subset) (auto simp: climbs_def split: if_splits)
  qed
  then show ?thesis by (simp add: acyclic_up_def wfp_def)
qed

lemma recursive_move_loop_exact:
  assumes "\<And>x. rt_get rt (KObj x) = Inr (w ObjectLocation (KObj x))" and "line (location_in w) l = Some xs"
  shows "recursive_move_loop rt what l = Some (Inr (\<not> is_nothing l \<and> what \<in> set xs))"
  using assms(2)
proof (induction xs arbitrary: l)
  case Nil
  then show ?case using line_head by fastforce
next
  case (Cons y ys)
  have y: "y = l" using line_head [OF Cons.prems] by simp
  show ?case
  proof (cases "is_nothing l \<or> l = what")
    case True
    then show ?thesis by (subst recursive_move_loop.simps) (auto simp: y)
  next
    case False
    have loop: "recursive_move_loop rt what l =
      (case Option.bind (w ObjectLocation (KObj l)) value_obj of None \<Rightarrow> Some (Inr False)
       | Some location \<Rightarrow> recursive_move_loop rt what location)"
      using False by (subst recursive_move_loop.simps) (simp add: assms(1))
    show ?thesis
    proof (cases "is_nothing (location_in w l)")
      case True
      then have "ys = []" using Cons.prems by simp
      moreover have "recursive_move_loop rt what location = Some (Inr False)" if "is_nothing location" for location
        using that by (subst recursive_move_loop.simps) simp
      ultimately show ?thesis
        using True False by (auto simp: loop y location_in_def split: option.splits)
    next
      case inner: False
      then have "line (location_in w) (location_in w l) = Some ys" using Cons.prems by auto
      from Cons.IH [OF this] inner False show ?thesis
        by (auto simp: loop y location_in_def split: option.splits)
    qed
  qed
qed

lemma upsert_returns:
  assumes "wt_ok t"
  obtains t' a where "upsert r k v t = Some (t', Inr a)" and "wt_ok t'"
    and "world t' = (world t)(r := (world t r)(k := Some v))"
proof -
  have ok: "rt_ok (wt_rel t r)" using assms by (simp add: wt_ok_def rel_ok_def)
  have "rt_view (wt_rel t r) k = Inr (world t r k)" using wt_ok_readable [OF assms] by (simp add: readable_def)
  from rt.upsert_ok [OF ok this] obtain a where "snd (rt_upsert (wt_rel t r) k v) = Inr a" by auto
  then obtain t' where u: "upsert r k v t = Some (t', Inr a)"
    by (cases "rt_upsert (wt_rel t r) k v") (auto simp: upsert_def rel_lift_def)
  moreover have "wt_ok t'"
    using wkeepsD [OF wkeeps_writes(1) [where K = "\<lambda>_ _. True"] assms u] keeps_ok by blast
  ultimately show ?thesis using that upsert_world [OF assms u] by blast
qed

lemma set_object_location_exact:
  fixes what l :: obj
  assumes "wt_ok t" and "acyclic_up (location_in (world t))"
  defines "inside \<equiv> \<not> is_nothing l \<and> climbs_to (location_in (world t)) l what"
  shows "\<exists>t'. set_object_location what l t = Some (t', if inside then Inl (RecursiveMove what l) else Inr ())
     \<and> wt_ok t' \<and> (inside \<longrightarrow> world t' = world t)
     \<and> (\<not> inside \<longrightarrow> world t' = (world t)(ObjectLocation := (world t ObjectLocation)(KObj what := Some (VObj l))))"
proof -
  obtain xs where xs: "line (location_in (world t)) l = Some xs"
    using line_total assms(2) unfolding acyclic_up_def by blast
  have view: "rt_view (wt_rel t r) k = Inr (world t r k)" for r k
    using wt_ok_readable [OF assms(1)] by (simp add: readable_def)
  have "recursive_move_loop (wt_rel t ObjectLocation) what l = Some (Inr inside)"
    using recursive_move_loop_exact [OF _ xs, of "wt_rel t ObjectLocation" what] line_under [OF xs, of what]
    by (simp add: rt_get_eq_view view inside_def)
  note loop = this
  show ?thesis
  proof (cases inside)
    case True
    then show ?thesis using loop assms(1) by (simp add: set_object_location_def)
  next
    case False
    let ?old = "Option.bind (world t ObjectLocation (KObj what)) value_obj"
    have "set_object_location what l t =
      (if ?old = Some l then wret () else wbind (upsert ObjectLocation (KObj what) (VObj l)) (\<lambda>_. wret ())) t"
      using loop False by (simp add: set_object_location_def rel_read_def rel_get_eq view wbind_def wret_def)
    moreover obtain t' a where "upsert ObjectLocation (KObj what) (VObj l) t = Some (t', Inr a)" "wt_ok t'"
      "world t' = (world t)(ObjectLocation := (world t ObjectLocation)(KObj what := Some (VObj l)))"
      by (rule upsert_returns [OF assms(1)])
    moreover have "world t ObjectLocation (KObj what) = Some (VObj l)" if "?old = Some l"
      using that by (auto simp: value_obj_eq split: Option.bind_splits)
    ultimately show ?thesis
      using False assms(1) by (auto simp: wbind_def wret_def fun_upd_idem)
  qed
qed

end
