(* ===== verification/WorldSystem.thy ===== *)
theory WorldSystem
  imports PropExact Containment
begin

text \<open>
  Concurrent transactions that run world-state operations. The threads of \<open>Isolation\<close> load a root and
  seed caches, run operations of \<^verbatim>\<open>db/src/engine/ws_transaction.rs\<close> (\<open>run\<close> instead of arbitrary row
  operations), and commit; caches that a read-only commit publishes seed later transactions.

  The invariant: every published root has rows of the declared types, the published caches agree with
  the root whose version they carry, and in every running transaction the caches agree with the
  transaction's own view. The properties rest on it.
\<close>

section \<open>The system\<close>

text \<open>What a row of the world has to be: of the type of its relation, and a property stored at its definer.\<close>

definition row_good :: "database_relation \<Rightarrow> db_key \<Rightarrow> 'x db_value \<Rightarrow> bool" where
  "row_good r k v \<longleftrightarrow> row_ok r k v
     \<and> (\<forall>ob ds. r = ObjectPropdefs \<longrightarrow> k = KObj ob \<longrightarrow> v = VPropdefs ds \<longrightarrow> (\<forall>d \<in> set ds. pd_definer d = ob))"

definition world_good :: "'x world \<Rightarrow> bool" where
  "world_good w \<longleftrightarrow> (\<forall>r k v. w r k = Some v \<longrightarrow> row_good r k v)"

text \<open>
  A step of thread \<open>i\<close>: one of \<open>Isolation\<close> in which a running transaction does not change, or an
  operation of the running transaction.
\<close>

inductive wsys_step ::
  "(symbol_id \<Rightarrow> chars) \<Rightarrow> 'x \<Rightarrow> db_key hasher \<Rightarrow> db_key relation_domain \<Rightarrow> nat \<Rightarrow> 'x system \<Rightarrow> 'x system \<Rightarrow> bool"
  for texts :: "symbol_id \<Rightarrow> chars" and nv :: 'x and dh :: "db_key hasher" and rd :: "db_key relation_domain"
    and i :: nat where
  commit: "sys_step dh rd i s s' \<Longrightarrow>
    (\<And>t t'. sy_thread s i = Running t \<Longrightarrow> sy_thread s' i = Running t' \<Longrightarrow> sy_thread s' = sy_thread s) \<Longrightarrow>
    wsys_step texts nv dh rd i s s'"
| operation: "sy_thread s i = Running t \<Longrightarrow> arguments_ok op \<Longrightarrow> guarded (world t) op \<Longrightarrow>
    run texts nv op t = Some (t', r) \<Longrightarrow> wsys_step texts nv dh rd i s (set_thread s i (Running t'))"

inductive wsys_reachable ::
  "(symbol_id \<Rightarrow> chars) \<Rightarrow> 'x \<Rightarrow> db_key hasher \<Rightarrow> db_key relation_domain \<Rightarrow> 'x system \<Rightarrow> bool"
  for texts :: "symbol_id \<Rightarrow> chars" and nv :: 'x and dh :: "db_key hasher" and rd :: "db_key relation_domain" where
  start: "sys_start disp s \<Longrightarrow> world_good (snapshot_world (sy_root s)) \<Longrightarrow> wsys_reachable texts nv dh rd s"
| step: "wsys_reachable texts nv dh rd s \<Longrightarrow> wsys_step texts nv dh rd i s s' \<Longrightarrow> wsys_reachable texts nv dh rd s'"

section \<open>Rows\<close>

lemma value_propdefs_eq: "value_propdefs v = Some ds \<longleftrightarrow> v = VPropdefs ds"
  by (cases v) auto

lemma world_good_iff: "world_good w \<longleftrightarrow> typed w \<and> definers_local w"
proof
  assume good: "world_good w"
  have "pd_definer d = x" if "d \<in> set (props_in w x)" for d x
  proof -
    obtain ds where "w ObjectPropdefs (KObj x) = Some (VPropdefs ds)" "d \<in> set ds"
      using \<open>d \<in> set (props_in w x)\<close>
      by (cases "w ObjectPropdefs (KObj x)") (auto simp: props_in_def value_propdefs_eq
        eq_commute [of "Some _" "value_propdefs _"] split: option.splits)
    then show ?thesis using good unfolding world_good_def row_good_def by blast
  qed
  with good show "typed w \<and> definers_local w"
    by (auto simp: world_good_def row_good_def typed_def definers_local_def)
next
  assume "typed w \<and> definers_local w"
  then show "world_good w"
    by (force simp: world_good_def row_good_def typed_def definers_local_def props_in_def)
qed

definition ws_good :: "'x relation_working_sets \<Rightarrow> bool" where
  "ws_good ws \<longleftrightarrow> (\<forall>r k x v. map_of (tuples (ws_of ws r)) k = Some x \<longrightarrow> op_value x = Some v \<longrightarrow> row_good r k v)"

lemma row_good_hint: "row_good r k v \<Longrightarrow> row_good r k (with_cleared_hint v)"
  by (cases v) (auto simp: row_good_def row_ok_def)

lemma row_good_clone: "row_good r k v \<Longrightarrow> row_good r k (clone_for_commit v)"
  using row_good_hint [of r k v] by (cases v) simp_all

lemma ws_good_clear:
  assumes "ws_good ws"
  shows "ws_good (clear_clobber_hints ws)"
  unfolding ws_good_def
proof (intro allI impI)
  fix r k x v
  assume x: "map_of (tuples (ws_of (clear_clobber_hints ws) r)) k = Some x" and v: "op_value x = Some v"
  then obtain y u where "map_of (tuples (ws_of ws r)) k = Some y" "op_value y = Some u" "v = u \<or> v = with_cleared_hint u"
    by (auto simp: clear_clobber_hints_tuple clear_clobber_hint_def split: if_splits op_type.splits)
  then show "row_good r k v" using assms row_good_hint unfolding ws_good_def by blast
qed

lemma running_rows_good:
  assumes "winv txt t" and "tinv b t"
  shows "ws_good (wss_relations (into_working_sets dh t))"
  unfolding ws_good_def
proof (intro allI impI)
  fix r k x v
  assume "map_of (tuples (ws_of (wss_relations (into_working_sets dh t)) r)) k = Some x" and "op_value x = Some v"
  then have "world t r k = Some v" by (simp add: world_def rt_view_def)
  moreover have "world_good (world t)" using assms by (simp add: world_good_iff winv_def tinv_def)
  ultimately show "row_good r k v" by (simp add: world_good_def)
qed

text \<open>Publishing good rows over a good root gives a good root.\<close>

definition root_good :: "'x snapshot \<Rightarrow> bool" where
  "root_good root \<longleftrightarrow> world_good (snapshot_world root) \<and> s_caches root = caches_new
     \<and> (\<forall>r. idx_is_secondary (s_index root r) = relation_is_secondary r)"

lemma built_good:
  assumes "built ws root n b cand" and "root_good root" and "ws_good ws"
  shows "root_good cand"
proof -
  have "row_good r k v" if "snapshot_world cand r k = Some v" for r k v
  proof -
    have "idx_lookup (s_index cand r) k = overlay clone_for_commit (tuples (ws_of ws r)) (idx_lookup (s_index root r)) k"
      using assms(1) by (simp add: built_def)
    with that consider "snapshot_world root r k = Some v"
      | x u where "map_of (tuples (ws_of ws r)) k = Some x" "op_value x = Some u" "v = clone_for_commit u"
      by (auto simp: snapshot_world_def overlay_def split: option.splits)
    then show ?thesis
      using assms(2,3) by cases (auto simp: root_good_def world_good_def ws_good_def intro: row_good_clone)
  qed
  then show ?thesis using assms(1,2) by (simp add: root_good_def world_good_def built_def)
qed

section \<open>The invariant\<close>

definition cache_fits :: "(symbol_id \<Rightarrow> chars) \<Rightarrow> 'x snapshot list \<Rightarrow> nat \<Rightarrow> db_caches \<Rightarrow> bool" where
  "cache_fits txt H n cs \<longleftrightarrow> n < length H \<and> caches_sound txt (snapshot_world (H ! n)) cs"

fun thread_good :: "(symbol_id \<Rightarrow> chars) \<Rightarrow> 'x snapshot list \<Rightarrow> 'x thread \<Rightarrow> bool" where
  "thread_good txt H (LoadedCaches snap cs) = caches_sound txt (snapshot_world snap) cs"
| "thread_good txt H (Running t) =
     (winv txt t \<and> (\<exists>snap \<in> set H. tx_ok snap t \<and> tinv (snapshot_rows snap) t))"
| "thread_good txt H (StoringCache tx cs) = cache_fits txt H (tx_snapshot_version tx) cs"
| "thread_good txt H (Publishing tx n pr) = ws_good (cd_working_sets (pr_data pr))"
| "thread_good txt H (Rebasing tx n rr) = ws_good (cd_working_sets (rr_data rr))"
| "thread_good txt H th = True"

definition wsys_ok ::
  "(symbol_id \<Rightarrow> chars) \<Rightarrow> db_key hasher \<Rightarrow> db_key relation_domain \<Rightarrow> 'x system \<Rightarrow> bool" where
  "wsys_ok txt dh rd s \<longleftrightarrow> sys_reachable dh rd s
     \<and> (\<forall>r. provider_ok (rel_source (db_relations (sy_db s) r)))
     \<and> (\<forall>root \<in> set (sy_roots s). root_good root)
     \<and> cache_fits txt (sy_roots s) (cp_version (cache_pub (sy_planes s))) (cp_caches (cache_pub (sy_planes s)))
     \<and> (\<forall>i. thread_good txt (sy_roots s) (sy_thread s i))"

lemma cache_fits_append: "cache_fits txt H n cs \<Longrightarrow> cache_fits txt (H @ H') n cs"
  by (simp add: cache_fits_def nth_append)

lemma thread_good_append: "thread_good txt H th \<Longrightarrow> thread_good txt (H @ H') th"
  by (cases th) (auto simp: cache_fits_append)

text \<open>A step that leaves the history alone.\<close>

lemma wsys_ok_local:
  assumes "wsys_ok txt dh rd s" and "sys_reachable dh rd s'" and "sy_roots s' = sy_roots s"
    and "db_relations (sy_db s') = db_relations (sy_db s)"
    and "cache_pub (sy_planes s') = cache_pub (sy_planes s)
      \<or> cache_fits txt (sy_roots s) (cp_version (cache_pub (sy_planes s'))) (cp_caches (cache_pub (sy_planes s')))"
    and "sy_thread s' = (sy_thread s)(i := th)" and "thread_good txt (sy_roots s) th"
  shows "wsys_ok txt dh rd s'"
  using assms unfolding wsys_ok_def by auto

lemma wsys_okD:
  assumes "wsys_ok txt dh rd s"
  shows "sys_ok dh s" and "root \<in> set (sy_roots s) \<Longrightarrow> root_good root" and "thread_good txt (sy_roots s) (sy_thread s i)"
    and "hist_ok dh (sy_roots s) (db_monotonic (sy_db s))"
  using assms sys_reachable_ok [of dh rd s] by (auto simp: wsys_ok_def sys_ok_def)

lemma root_is_world_root:
  assumes "wsys_ok txt dh rd s" and "root \<in> set (sy_roots s)"
  shows "world_root (db_relations (sy_db s)) root"
proof -
  obtain n where "n < length (sy_roots s)" "sy_roots s ! n = root" using assms(2) by (auto simp: in_set_conv_nth)
  then have "root_wf root" using hist_okD(1) [OF wsys_okD(4) [OF assms(1)]] by blast
  moreover have "root_good root" using wsys_okD(2) [OF assms] .
  ultimately show ?thesis
    using assms(1) by (simp add: world_root_def wsys_ok_def root_good_def world_good_iff idx_is_secondary_iff [symmetric])
qed

lemma history_version:
  assumes "hist_ok dh H m" and "snap \<in> set H"
  shows "s_version snap < length H" and "H ! s_version snap = snap" and "committed_ts snap < m"
  using assms hist_okD [OF assms(1)] by (auto simp: in_set_conv_nth)

lemma tx_steps_tx_ok:
  assumes "tx_steps t t'" and "tx_ok snap t"
  shows "tx_ok snap t'"
  using assms
proof induction
  case (step u v)
  from step(2) show ?case
  proof cases
    case (work r rt)
    with step(3,4) show ?thesis by (simp add: tx_ok_work)
  next
    case (note_reads obs props cs memo revision)
    with step(3,4) show ?thesis by (simp add: tx_ok_def)
  qed
qed

lemma wsys_ok_prepare:
  assumes "wsys_ok txt dh rd s" and "sy_thread s i = Running t"
    and "prepare dh rd rels (sy_root s) adm (into_working_sets dh t) = Some res"
  shows "thread_good txt (sy_roots s) (after_prepare (wt_tx t) res)"
proof (cases res)
  case (Inr pr)
  note ok = wsys_okD(1) [OF assms(1)] and hist = wsys_okD(4) [OF assms(1)]
  have "all_loaded (sy_root s)"
    using hist_okD(1) [OF hist hist_top(1) [OF hist]] hist_top(2) [OF hist] ok
    by (simp add: root_wf_def sys_ok_def)
  moreover obtain snap where snap: "tx_ok snap t" "winv txt t" "tinv (snapshot_rows snap) t"
    using wsys_okD(3) [OF assms(1), of i] assms(2) by auto
  ultimately have "cd_working_sets (pr_data pr) = clear_clobber_hints (wss_relations (into_working_sets dh t))"
    using prepare_prepared(3) [OF _ tx_ok_wf [OF snap(1)]] assms(3) Inr by blast
  then show ?thesis
    using ws_good_clear [OF running_rows_good [OF snap(2,3)]] by (simp add: after_prepare_def Inr)
qed (auto simp: after_prepare_def split: prepare_error.split)

lemma wsys_ok_rebase:
  assumes "wsys_ok txt dh rd s" and "sy_thread s i = Rebasing tx n rr" and "rebase dh rd (sy_root s) rr = Some res"
  shows "thread_good txt (sy_roots s) (after_rebase tx n res)"
proof (cases res)
  case (Inr pr)
  then have "pr_data pr = rr_data rr"
    using assms(3) by (auto simp: rebase_def Let_def split: option.splits rebase_check_result.splits)
  then show ?thesis using wsys_okD(3) [OF assms(1), of i] assms(2) by (simp add: after_rebase_def Inr)
qed (simp add: after_rebase_def)

lemma wsys_ok_publish:
  assumes "wsys_ok txt dh rd s" and "sy_thread s i = Publishing tx n pr"
    and "sys_reachable dh rd (publish_step s i tx n pr)"
  shows "wsys_ok txt dh rd (publish_step s i tx n pr)"
proof (cases "s_version (sy_root s) = s_version (pr_checked_root pr)")
  case False
  then have "publish_step s i tx n pr = set_thread (set_db s ((sy_db s)\<lparr>db_planes := sy_planes s\<rparr>)) i
      (after_publish tx n (Inl \<lparr>rr_data = pr_data pr, rr_checked_root = pr_checked_root pr\<rparr>))"
    by (simp add: publish_step_def try_publish_def try_publish_write_root_def)
  with assms wsys_okD(3) [OF assms(1), of i] show ?thesis
    by (intro wsys_ok_local [OF assms(1,3)]) (auto simp: after_publish_def)
next
  case True
  let ?s' = "publish_step s i tx n pr" and ?H = "sy_roots s"
  have s': "sy_roots ?s' = ?H @ [pr_candidate pr]" "db_relations (sy_db ?s') = db_relations (sy_db s)"
    "cache_pub (sy_planes ?s') = \<lparr>cp_version = s_version (pr_candidate pr), cp_caches = s_caches (pr_candidate pr)\<rparr>"
    "\<exists>pb. sy_thread ?s' = (sy_thread s)(i := Persisting pb)"
    using publish_step_succeeds(2) [OF wsys_okD(1) [OF assms(1)] assms(2) True] True
    by (auto simp: publish_step_def try_publish_def try_publish_write_root_def record_publication_def after_publish_def Let_def)
  obtain c where c: "c < length ?H" "pr_checked_root pr = ?H ! c" and pr: "pr_ok dh pr"
    using thread_okD [OF wsys_okD(1) [OF assms(1)], of i] assms(2) by (auto simp: commit_ok_def)
  have cand: "root_good (pr_candidate pr)"
    using built_good wsys_okD(2) [OF assms(1), of "?H ! c"] wsys_okD(3) [OF assms(1), of i] c pr assms(2)
    by (auto simp: pr_ok_def)
  have "hist_ok dh (?H @ [pr_candidate pr]) (db_monotonic (sy_db ?s'))"
    using sys_reachable_ok [OF assms(3)] unfolding sys_ok_def s'(1) by blast
  from hist_okD(2) [OF this, of "length ?H"] have "s_version (pr_candidate pr) = length ?H" by simp
  with cand have "cache_fits txt (?H @ [pr_candidate pr]) (s_version (pr_candidate pr)) (s_caches (pr_candidate pr))"
    by (simp add: cache_fits_def root_good_def caches_sound_new)
  then show ?thesis
    using assms(1,3) cand s' by (auto simp: wsys_ok_def intro: thread_good_append)
qed

lemma choose_seed_sound:
  assumes "wsys_ok txt dh rd s" and "snap \<in> set (sy_roots s)"
  shows "caches_sound txt (snapshot_world snap) (choose_seed_caches snap (cache_pub (sy_planes s)))"
  using assms wsys_okD(2) [OF assms] history_version [OF wsys_okD(4) [OF assms(1)] assms(2)]
  by (auto simp: choose_seed_caches_def wsys_ok_def cache_fits_def root_good_def caches_sound_new)

lemma wsys_ok_read_only:
  assumes "wsys_ok txt dh rd s" and "sy_thread s i = Running t" and "\<not> wt_has_mutations t"
  shows "thread_good txt (sy_roots s) (commit_read_only root t)"
proof -
  obtain snap where snap: "snap \<in> set (sy_roots s)" "tx_ok snap t" "winv txt t" "tinv (snapshot_rows snap) t"
    using wsys_okD(3) [OF assms(1), of i] assms(2) by auto
  then have "caches_sound txt (snapshot_world snap) (wt_caches t)"
    using no_writes_world [OF snap(4) assms(3)] by (simp add: winv_def caches_sound_def)
  then show ?thesis
    using history_version [OF wsys_okD(4) [OF assms(1)] snap(1)] snap(2)
    by (simp add: commit_read_only_def cache_fits_def tx_ok_def)
qed

lemma wsys_ok_begin:
  assumes "wsys_ok txt dh rd s" and "sy_thread s i = LoadedCaches snap cs"
  shows "thread_good txt (sy_roots s) (Running (relations_start_transaction (db_relations (sy_db s))
    (tx_seed_of (db_monotonic (sy_db s)) snap cs)))"
proof -
  have snap: "snap \<in> set (sy_roots s)" "caches_sound txt (snapshot_world snap) cs"
    using thread_okD [OF wsys_okD(1) [OF assms(1)], of i] wsys_okD(3) [OF assms(1), of i] assms(2) by auto
  note root = root_is_world_root [OF assms(1) snap(1)]
    and before = history_version(3) [OF wsys_okD(4) [OF assms(1)] snap(1)]
  have "root_wf snap" using root by (simp add: world_root_def)
  then show ?thesis
    using snap start_winv [OF root before snap(2)] start_typed [OF root before] tx_ok_start [OF _ before] by auto
qed

lemma wsys_ok_operation:
  assumes "wsys_ok txt dh rd s" and "sy_thread s i = Running t" and "arguments_ok op" and "guarded (world t) op"
    and "run txt nv op t = Some (t', r)"
  shows "wsys_ok txt dh rd (set_thread s i (Running t'))"
proof -
  obtain snap where snap: "snap \<in> set (sy_roots s)" "tx_ok snap t" "winv txt t" "tinv (snapshot_rows snap) t"
    using wsys_okD(3) [OF assms(1), of i] assms(2) by auto
  note typed = wtypedD [OF run_typed [OF assms(3)] snap(4) assms(5)]
  have "winv txt t'" using wokD(1) [OF run_ok [OF assms(4)] snap(3) refl assms(5)] .
  then have "thread_good txt (sy_roots s) (Running t')"
    using snap(1) typed(1) tx_steps_tx_ok [OF typed(2) snap(2)] by auto
  moreover have "sys_reachable dh rd s" using assms(1) by (simp add: wsys_ok_def)
  ultimately show ?thesis
    using sys_tx_steps [OF _ assms(2) typed(2)] by (intro wsys_ok_local [OF assms(1)]) auto
qed

lemma set_thread_unchanged: "(sy_thread s)(i := th) = sy_thread s \<Longrightarrow> set_thread s i th = s"
  by (simp add: set_thread_def)

lemma wsys_ok_commit:
  assumes "sys_step dh rd i s s'" and "wsys_ok txt dh rd s"
    and "\<And>t t'. sy_thread s i = Running t \<Longrightarrow> sy_thread s' i = Running t' \<Longrightarrow> sy_thread s' = sy_thread s"
  shows "wsys_ok txt dh rd s'"
proof -
  have reach: "sys_reachable dh rd s'"
    using assms(1,2) by (auto simp: wsys_ok_def intro: sys_reachable.step)
  note local = wsys_ok_local [OF assms(2) reach, where i = i]
    and same = wsys_okD(3) [OF assms(2), of i] and thread = thread_okD [OF wsys_okD(1) [OF assms(2)], of i]
  from assms(1) show ?thesis
  proof cases
    case load_root
    then show ?thesis by (intro local) auto
  next
    case (load_caches snap)
    then show ?thesis using thread choose_seed_sound [OF assms(2)] by (intro local) auto
  next
    case (take_timestamp snap cs)
    then show ?thesis by (intro local [OF _ _ _ _ wsys_ok_begin [OF assms(2)]]) auto
  next
    case (work t r rt)
    then have "s' = s" using assms(3) by (simp add: set_thread_unchanged)
    then show ?thesis using assms(2) by simp
  next
    case (note_reads t obs props cs memo revision)
    then have "s' = s" using assms(3) by (simp add: set_thread_unchanged)
    then show ?thesis using assms(2) by simp
  next
    case (sequence t n)
    then show ?thesis using same by (intro local [where th = "sy_thread s i"]) auto
  next
    case (sequence_max t n v)
    then show ?thesis using same by (intro local [where th = "sy_thread s i"]) auto
  next
    case (read_only t)
    then show ?thesis by (intro local [OF _ _ _ _ wsys_ok_read_only [OF assms(2)]]) auto
  next
    case (store tx cs)
    then show ?thesis using same by (intro local) (auto simp: store_cache_def)
  next
    case (prepare t adm res)
    then show ?thesis
      by (intro local [OF _ _ _ _ wsys_ok_prepare [OF assms(2)]]) (auto simp: load_root_def)
  next
    case (publish tx n pr)
    then show ?thesis using wsys_ok_publish [OF assms(2)] reach by simp
  next
    case (rebase tx n rr res)
    then show ?thesis
      by (intro local [OF _ _ _ _ wsys_ok_rebase [OF assms(2)]]) (auto simp: load_root_def)
  next
    case (persist pb seqs batch result)
    then show ?thesis by (intro local) auto
  next
    case (leave res)
    then show ?thesis by (intro local) auto
  qed
qed

lemma wsys_ok_start:
  assumes "sys_start disp s" and "world_good (snapshot_world (sy_root s))"
  shows "wsys_ok txt dh rd s"
proof -
  from assms(1) obtain sources saved db where prov: "\<And>r. provider_ok (sources r)"
    and opened: "try_open (create_relation disp sources) saved = Inr db"
    and s: "s = \<lparr>sy_db = db, sy_thread = (\<lambda>_. Idle), sy_roots = [root_state (db_planes db)], sy_commits = []\<rparr>"
    unfolding sys_start_def by blast
  from opened obtain root where snap: "relations_snapshot (create_relation disp sources) 0 0 caches_new = Inr root"
    and db: "db_planes db = snapshot_planes_new root" "db_relations db = create_relation disp sources"
    by (auto simp: try_open_def rbind_Inr_iff)
  note root = seeded_root [OF prov snap]
  have "rel_source (create_relation disp sources r) = sources r" for r
    by (simp add: create_relation_def relation_new_def relation_new_with_secondary_def Let_def)
  moreover have "root_good root"
    using root assms(2) by (simp add: root_good_def s db snapshot_planes_new_def)
  ultimately show ?thesis
    using sys_reachable.start [OF assms(1)] prov root
    by (simp add: wsys_ok_def s db snapshot_planes_new_def cache_fits_def caches_sound_new)
qed

lemma wsys_reachable_ok: "wsys_reachable txt nv dh rd s \<Longrightarrow> wsys_ok txt dh rd s"
proof (induction rule: wsys_reachable.induct)
  case (start disp s)
  then show ?case by (rule wsys_ok_start)
next
  case (step s i s')
  from step(2,3) show ?case
    by (induction rule: wsys_step.induct) (auto intro: wsys_ok_commit wsys_ok_operation)
qed

end
