(* ===== verification/WorldCorrect.thy ===== *)
theory WorldCorrect
  imports WorldSystem
begin

text \<open>
  The properties of the world state in a system of concurrent transactions: the resolution of verbs
  and properties through the caches equals a search along the parent chain, containment stays
  acyclic, rows keep their types, and the operations are steps of the commit protocol.
\<close>

section \<open>An example\<close>

text \<open>
  A stored world: \<open>#1\<close> defines a verb \<open>l*ook\<close> and a property, \<open>#2\<close> is a child of \<open>#1\<close>, and \<open>#3\<close> is in \<open>#2\<close>.
\<close>

definition look_name :: symbol_id where
  "look_name = \<lparr>compare_id = 1, repr_id = 1\<rparr>"

definition size_name :: symbol_id where
  "size_name = \<lparr>compare_id = 2, repr_id = 2\<rparr>"

definition pattern_name :: symbol_id where
  "pattern_name = \<lparr>compare_id = 3, repr_id = 3\<rparr>"

definition demo_txt :: "symbol_id \<Rightarrow> chars" where
  "demo_txt n =
     (if compare_id n = 1 then [108, 111, 111, 107]
      else if compare_id n = 2 then [115, 105, 122, 101]
      else [108, 42, 111, 111, 107])"

definition demo_verb :: verbdef where
  "demo_verb = \<lparr>vd_uuid = 5, vd_location = mk_id 1, vd_owner = mk_id 1, vd_flags = 0,
     vd_args = this_none_this, vd_names = [pattern_name]\<rparr>"

definition demo_propdef :: propdef where
  "demo_propdef = propdef_new 7 (mk_id 1) (mk_id 1) size_name"

definition demo_perms :: prop_perms where
  "demo_perms = prop_perms_new (mk_id 1) 0"

definition demo_rows :: "database_relation \<Rightarrow> (timestamp \<times> db_key \<times> unit db_value) list" where
  "demo_rows r =
     (if r = ObjectParent then [(1, KObj (mk_id 2), VObj (mk_id 1))]
      else if r = ObjectLocation then [(1, KObj (mk_id 3), VObj (mk_id 2))]
      else if r = ObjectVerbdefs then [(1, KObj (mk_id 1), VVerbdefs [demo_verb])]
      else if r = ObjectPropdefs then [(1, KObj (mk_id 1), VPropdefs [demo_propdef])]
      else if r = ObjectPropvalues then [(1, KProperty (mk_id 1) 7, VVar OP_HINT_NONE ())]
      else if r = ObjectPropflags then [(1, KProperty (mk_id 1) 7, VPerms demo_perms)]
      else [])"

definition demo_world :: "unit world" where
  "demo_world r k = map_option snd (map_of (map (\<lambda>(t, d, c). (d, t, c)) (demo_rows r)) k)"

lemma seed_all_total:
  assumes "\<And>r. \<exists>rows. src_scan (rel_source (rels r)) (\<lambda>_ _. True) = Inr rows"
  shows "\<exists>n ixs. seed_all rels rs ts = Inr (n, ixs)"
proof (induction rs arbitrary: ts)
  case (Cons r rs)
  obtain rows where "src_scan (rel_source (rels r)) (\<lambda>_ _. True) = Inr rows" using assms by blast
  then obtain i mx where "seeded_index_with_max_timestamp (rels r) = Inr (i, mx)"
    by (cases "foldl seed_row (0, rel_index_factory (rels r) ()) rows")
      (simp add: seeded_index_with_max_timestamp_def provider_seed_def)
  moreover obtain n ixs where "seed_all rels rs (max ts mx) = Inr (n, ixs)" using Cons by blast
  ultimately show ?case by simp
qed simp

lemma demo_opened:
  obtains s :: "unit system" where "sys_start (\<lambda>_. ''key'') s" "snapshot_world (sy_root s) = demo_world"
    "\<And>i. sy_thread s i = Idle"
proof -
  let ?src = "\<lambda>r. list_provider (demo_rows r)"
  let ?rels = "create_relation (\<lambda>_. ''key'') ?src"
  have prov: "provider_ok (?src r)" for r by (intro list_provider_ok) (simp add: demo_rows_def)
  have src: "rel_source (?rels r) = ?src r" for r
    by (simp add: create_relation_def relation_new_def relation_new_with_secondary_def Let_def)
  then obtain n ixs where "seed_all ?rels ALL_RELATIONS 0 = Inr (n, ixs)"
    using seed_all_total [of ?rels ALL_RELATIONS 0] by (auto simp: list_provider_def)
  then obtain root where root: "relations_snapshot ?rels 0 0 caches_new = Inr root"
    by (simp add: relations_snapshot_def)
  then obtain db where db: "try_open ?rels None = Inr db" "root_state (db_planes db) = root"
    by (simp add: try_open_def snapshot_planes_new_def)
  let ?s = "\<lparr>sy_db = db, sy_thread = (\<lambda>_. Idle), sy_roots = [root_state (db_planes db)], sy_commits = []\<rparr>"
  have "sys_start (\<lambda>_. ''key'') ?s" unfolding sys_start_def
    by (intro exI [of _ ?src] exI [of _ None] exI [of _ db]) (use prov db in simp)
  moreover have "snapshot_world root r k = demo_world r k" for r k
  proof -
    note row = seeded_root(7) [OF prov root, of r k]
    show ?thesis
    proof (cases "idx_lookup (s_index root r) k")
      case None
      with row have "src_get (?src r) k \<noteq> Inr (Some (ts, c))" for ts c by simp
      with None show ?thesis
        by (cases "map_of (map (\<lambda>(t, d, c). (d, t, c)) (demo_rows r)) k")
          (auto simp: snapshot_world_def demo_world_def list_provider_def)
    next
      case (Some e)
      with row [of "ets e" "evalue e"] show ?thesis
        by (simp add: snapshot_world_def demo_world_def list_provider_def)
    qed
  qed
  ultimately show ?thesis using that [of ?s] db(2) by (auto simp: fun_eq_iff)
qed

lemma demo_ids [simp]:
  "mk_id 1 \<noteq> mk_id 2" "mk_id 2 \<noteq> mk_id 1" "mk_id 1 \<noteq> mk_id 3" "mk_id 3 \<noteq> mk_id 1" "mk_id 2 \<noteq> mk_id 3" "mk_id 3 \<noteq> mk_id 2"
  "\<not> is_nothing (mk_id 1)" "\<not> is_nothing (mk_id 2)" "\<not> is_nothing (mk_id 3)"
  by code_simp+

lemma demo_good: "world_good demo_world"
  by (auto simp: world_good_def demo_world_def demo_rows_def row_good_def demo_propdef_def propdef_new_def split: if_splits)

lemma wsys_reachable_commit:
  "wsys_reachable txt nv dh rd s \<Longrightarrow> sys_step dh rd i s s' \<Longrightarrow> (\<And>t. sy_thread s i \<noteq> Running t) \<Longrightarrow>
    wsys_reachable txt nv dh rd s'"
  by (erule wsys_reachable.step, erule wsys_step.commit, blast)

lemma demo_line: "line (parent_in demo_world) (mk_id 2) = Some [mk_id 2, mk_id 1]"
proof -
  have "parent_in demo_world (mk_id 2) = mk_id 1" "parent_in demo_world (mk_id 1) = NOTHING"
    by (simp_all add: parent_in_def demo_world_def demo_rows_def)
  then show ?thesis by simp
qed

lemma demo_locations: "location_in demo_world = (\<lambda>_. NOTHING)(mk_id 3 := mk_id 2)"
  by (auto simp: location_in_def demo_world_def demo_rows_def fun_eq_iff)

lemma demo_acyclic: "acyclic_up (location_in demo_world)"
proof -
  have none: "\<not> climbs (\<lambda>_. NOTHING) c p" for c p by (auto simp: climbs_def)
  then have "\<not> climbs_to (\<lambda>_. NOTHING) (mk_id 2) (mk_id 3)" by (auto elim: converse_rtranclpE)
  moreover have "acyclic_up (\<lambda>_. NOTHING)" by (simp add: acyclic_up_def none wfp_def)
  ultimately show ?thesis unfolding demo_locations by (intro acyclic_up_move) simp_all
qed

text \<open>One thread that has begun a transaction on it.\<close>

lemma demo_begun:
  obtains s :: "unit system" and t where "wsys_reachable demo_txt () demo_dh demo_rd s" "sy_thread s 0 = Running t"
    "world t = demo_world" "\<exists>root \<in> set (sy_roots s). snapshot_world root = demo_world"
proof -
  obtain s0 :: "unit system" where s0: "sys_start (\<lambda>_. ''key'') s0" "snapshot_world (sy_root s0) = demo_world"
    "\<And>i. sy_thread s0 i = Idle" by (rule demo_opened) blast
  have r0: "wsys_reachable demo_txt () demo_dh demo_rd s0"
    using wsys_reachable.start [OF s0(1)] s0(2) demo_good by simp
  let ?root = "sy_root s0" and ?cs = "choose_seed_caches (sy_root s0) (cache_pub (sy_planes s0))"
  define s1 where "s1 = set_thread s0 0 (LoadedRoot ?root)"
  have "sys_step demo_dh demo_rd 0 s0 s1"
    using sys_step.load_root [OF s0(3)] by (simp add: s1_def load_root_def)
  then have r1: "wsys_reachable demo_txt () demo_dh demo_rd s1"
    by (rule wsys_reachable_commit [OF r0]) (simp add: s0(3))
  define s2 where "s2 = set_thread s1 0 (LoadedCaches ?root ?cs)"
  have "sys_step demo_dh demo_rd 0 s1 s2"
    using sys_step.load_caches [of s1 0 ?root] by (simp add: s1_def s2_def)
  then have r2: "wsys_reachable demo_txt () demo_dh demo_rd s2"
    by (rule wsys_reachable_commit [OF r1]) (simp add: s1_def)
  have t2: "sy_thread s2 0 = LoadedCaches ?root ?cs" by (simp add: s2_def)
  note ok = wsys_reachable_ok [OF r2]
  have root: "?root \<in> set (sy_roots s2)" using root_in_history [OF wsys_okD(1) [OF ok]] by (simp add: s2_def s1_def)
  define t where "t = relations_start_transaction (db_relations (sy_db s2)) (tx_seed_of (db_monotonic (sy_db s2)) ?root ?cs)"
  define s3 where "s3 = set_thread (set_db s2 ((sy_db s2)\<lparr>db_monotonic := db_monotonic (sy_db s2) + 1\<rparr>)) 0 (Running t)"
  have "sys_step demo_dh demo_rd 0 s2 s3" unfolding s3_def t_def by (rule sys_step.take_timestamp [OF t2])
  then have r3: "wsys_reachable demo_txt () demo_dh demo_rd s3"
    by (rule wsys_reachable_commit [OF r2]) (simp add: t2)
  have "world t = demo_world"
    unfolding t_def using start_relations(3) [OF root_is_world_root [OF ok root]
        history_version(3) [OF wsys_okD(4) [OF ok] root]] s0(2) by simp
  then show ?thesis using that [OF r3, of t] root s0(2) by (auto simp: s3_def)
qed

section \<open>Properties\<close>

lemma running_winv:
  assumes "wsys_reachable txt nv dh rd s" and "sy_thread s i = Running t"
  shows "winv txt t" and "wt_ok t" and "typed (world t)"
  using wsys_okD(3) [OF wsys_reachable_ok [OF assms(1)], of i] assms(2) by (auto simp: winv_def tinv_def)





text \<open>
  C6. Containment stays acyclic. In every reachable state in which no object is inside itself,
  \<open>set_object_location\<close> returns: it refuses the move with \<open>RecursiveMove\<close>, changing nothing, exactly when
  the new location is the object or is inside it, and otherwise changes just that location; and again
  no object is inside itself.
\<close>

theorem containment_stays_acyclic:
  fixes what l :: obj
  assumes "wsys_reachable txt nv dh rd s" and "sy_thread s i = Running t" and "acyclic_up (location_in (world t))"
  defines "inside \<equiv> \<not> is_nothing l \<and> climbs_to (location_in (world t)) l what"
  shows "\<exists>t'. set_object_location what l t = Some (t', if inside then Inl (RecursiveMove what l) else Inr ())
     \<and> (if inside then world t' = world t
        else world t' = (world t)(ObjectLocation := (world t ObjectLocation)(KObj what \<mapsto> VObj l)))
     \<and> acyclic_up (location_in (world t'))"
proof -
  from set_object_location_exact [OF running_winv(2) [OF assms(1,2)] assms(3), of what l]
  obtain t' where t': "set_object_location what l t = Some (t', if inside then Inl (RecursiveMove what l) else Inr ())"
    "inside \<Longrightarrow> world t' = world t"
    "\<not> inside \<Longrightarrow> world t' = (world t)(ObjectLocation := (world t ObjectLocation)(KObj what \<mapsto> VObj l))"
    unfolding inside_def by blast
  have "location_in (world t') = (location_in (world t))(what := l)" if "\<not> inside"
    using t'(3) [OF that] by (auto simp: location_in_def fun_eq_iff)
  then have "acyclic_up (location_in (world t'))"
    using acyclic_up_move [OF assms(3), of l what] assms(3) t'(2) unfolding inside_def by metis
  then show ?thesis using t' by (auto simp: inside_def)
qed

theorem containment_stays_acyclic_witness:
  "\<exists>(s :: unit system) t t'. wsys_reachable demo_txt () demo_dh demo_rd s \<and> sy_thread s 0 = Running t
     \<and> set_object_location (mk_id 2) (mk_id 3) t = Some (t', Inl (RecursiveMove (mk_id 2) (mk_id 3)))
     \<and> world t' = world t"
proof -
  obtain s :: "unit system" and t where s: "wsys_reachable demo_txt () demo_dh demo_rd s" "sy_thread s 0 = Running t"
    and w: "world t = demo_world" by (rule demo_begun) blast
  have "climbs_to (location_in (world t)) (mk_id 3) (mk_id 2)"
    by (rule r_into_rtranclp) (simp add: climbs_def w demo_locations)
  with containment_stays_acyclic [OF s, of "mk_id 2" "mk_id 3"] demo_acyclic s show ?thesis by (auto simp: w)
qed





end
