(* ===== verification/Spec2Isabelle.thy ===== *)
theory Spec2Isabelle
  imports Isolation Sequences WorldCorrect
begin

text \<open>
  Verification of the transactional object database of mooR (placeholder header).
\<close>

end
